(* ===== verification/Prelude.thy ===== *)
theory Prelude
  imports Main "HOL-Library.Word"
begin

text \<open>
  The vocabulary every component shares: names for the machine integers of the C and C++
  sources, byte-string operations, and the generic lemmas on words and lists that the component
  proofs use through the simplifier or through a named collection.
\<close>

unbundle bit_operations_syntax

section \<open>Machine integers and byte strings\<close>

type_synonym byte = "8 word"
type_synonym u32 = "32 word"
type_synonym u64 = "64 word"

named_theorems byte_simps \<open>how the four bytes of a 32-bit word go through the word operations\<close>

text \<open>A buffer of the C code is the list of its bytes; \<open>x ^= y\<close> over two buffers is pointwise.\<close>

definition xor_bytes :: "byte list \<Rightarrow> byte list \<Rightarrow> byte list" where
  "xor_bytes xs ys = map2 (XOR) xs ys"

lemma xor_bytes_Nil [simp]: "xor_bytes [] ys = []" "xor_bytes xs [] = []"
  by (simp_all add: xor_bytes_def)

lemma xor_bytes_Cons [simp]: "xor_bytes (x # xs) (y # ys) = (x XOR y) # xor_bytes xs ys"
  by (simp add: xor_bytes_def)

lemma length_xor_bytes [simp]: "length (xor_bytes xs ys) = min (length xs) (length ys)"
  by (simp add: xor_bytes_def)

lemma nth_xor_bytes [simp]:
  "i < length xs \<Longrightarrow> i < length ys \<Longrightarrow> xor_bytes xs ys ! i = xs ! i XOR ys ! i"
  by (simp add: xor_bytes_def)

lemma xor_bytes_append:
  "length xs = length ys \<Longrightarrow> xor_bytes (xs @ xs') (ys @ ys') = xor_bytes xs ys @ xor_bytes xs' ys'"
  by (simp add: xor_bytes_def)

lemma xor_bytes_commute: "xor_bytes xs ys = xor_bytes ys xs"
  by (rule nth_equalityI) (simp_all add: xor.commute min.commute)

lemma word_xor_cancel [simp]:
  fixes a b :: "'a::len word"
  shows "(a XOR b) XOR b = a" "b XOR (b XOR a) = a"
  by (auto intro!: bit_word_eqI simp: bit_xor_iff)

lemma xor_bytes_cancel:
  "length xs \<le> length ys \<Longrightarrow> xor_bytes (xor_bytes xs ys) ys = xs"
  by (rule nth_equalityI) simp_all

lemma xor_bytes_cancel2:
  "length xs \<le> length ys \<Longrightarrow> xor_bytes ys (xor_bytes ys xs) = xs"
  by (rule nth_equalityI) simp_all

section \<open>The four bytes of a 32-bit word\<close>

text \<open>
  The C code writes \<open>w >> 24\<close>, \<open>(w >> 16) & 0xff\<close>, \<open>(w >> 8) & 0xff\<close> and \<open>w & 0xff\<close>; the proofs
  talk of the bytes \<open>byte3 w\<close> (the most significant) to \<open>byte0 w\<close>.
\<close>

definition byte3 :: "u32 \<Rightarrow> byte" where "byte3 w = ucast (drop_bit 24 w)"
definition byte2 :: "u32 \<Rightarrow> byte" where "byte2 w = ucast (drop_bit 16 w)"
definition byte1 :: "u32 \<Rightarrow> byte" where "byte1 w = ucast (drop_bit 8 w)"
definition byte0 :: "u32 \<Rightarrow> byte" where "byte0 w = ucast w"

definition word_of_bytes :: "byte \<Rightarrow> byte \<Rightarrow> byte \<Rightarrow> byte \<Rightarrow> u32" where
  "word_of_bytes a b c d =
     (push_bit 24 (ucast a) XOR push_bit 16 (ucast b)) XOR (push_bit 8 (ucast c) XOR ucast d)"

lemmas byte_defs = byte3_def byte2_def byte1_def byte0_def

lemma bit_byte3: "bit (byte3 w) n \<longleftrightarrow> n < 8 \<and> bit w (24 + n)"
  and bit_byte2: "bit (byte2 w) n \<longleftrightarrow> n < 8 \<and> bit w (16 + n)"
  and bit_byte1: "bit (byte1 w) n \<longleftrightarrow> n < 8 \<and> bit w (8 + n)"
  and bit_byte0: "bit (byte0 w) n \<longleftrightarrow> n < 8 \<and> bit w n"
  by (auto simp: byte_defs bit_simps)

lemmas bit_bytes = bit_byte3 bit_byte2 bit_byte1 bit_byte0

lemma byte_beyond: "8 \<le> n \<Longrightarrow> \<not> bit (b :: byte) n"
  using bit_imp_le_length [of b n] by auto

lemma word_eq_bytes:
  "v = w \<longleftrightarrow> byte3 v = byte3 w \<and> byte2 v = byte2 w \<and> byte1 v = byte1 w \<and> byte0 v = byte0 w"
    (is "_ \<longleftrightarrow> ?bytes")
proof
  assume bytes: ?bytes
  show "v = w"
  proof (rule bit_word_eqI)
    fix n assume "n < LENGTH(32)"
    then consider "n < 8" | "8 \<le> n \<and> n < 16" | "16 \<le> n \<and> n < 24" | "24 \<le> n \<and> n < 32"
      by force
    then show "bit v n \<longleftrightarrow> bit w n"
    proof cases
      case 1
      then show ?thesis using bytes bit_byte0 [of v n] bit_byte0 [of w n] by auto
    next
      case 2
      then have "n - 8 < 8" "8 + (n - 8) = n" by auto
      then show ?thesis using bytes bit_byte1 [of v "n - 8"] bit_byte1 [of w "n - 8"] by metis
    next
      case 3
      then have "n - 16 < 8" "16 + (n - 16) = n" by auto
      then show ?thesis using bytes bit_byte2 [of v "n - 16"] bit_byte2 [of w "n - 16"] by metis
    next
      case 4
      then have "n - 24 < 8" "24 + (n - 24) = n" by auto
      then show ?thesis using bytes bit_byte3 [of v "n - 24"] bit_byte3 [of w "n - 24"] by metis
    qed
  qed
qed simp

lemma byte_xor [byte_simps]:
  "byte3 (v XOR w) = byte3 v XOR byte3 w" "byte2 (v XOR w) = byte2 v XOR byte2 w"
  "byte1 (v XOR w) = byte1 v XOR byte1 w" "byte0 (v XOR w) = byte0 v XOR byte0 w"
  by (auto intro!: bit_word_eqI simp: bit_bytes bit_xor_iff)

lemma byte_and [byte_simps]:
  "byte3 (v AND w) = byte3 v AND byte3 w" "byte2 (v AND w) = byte2 v AND byte2 w"
  "byte1 (v AND w) = byte1 v AND byte1 w" "byte0 (v AND w) = byte0 v AND byte0 w"
  by (auto intro!: bit_word_eqI simp: bit_bytes bit_and_iff)

lemma byte_word_of_bytes [byte_simps]:
  "byte3 (word_of_bytes a b c d) = a" "byte2 (word_of_bytes a b c d) = b"
  "byte1 (word_of_bytes a b c d) = c" "byte0 (word_of_bytes a b c d) = d"
  by (auto intro!: bit_word_eqI simp: bit_bytes word_of_bytes_def bit_simps byte_beyond)

lemma word_of_bytes_bytes: "word_of_bytes (byte3 w) (byte2 w) (byte1 w) (byte0 w) = w"
  by (simp add: word_eq_bytes byte_simps)

lemma byte_masks [byte_simps]:
  "byte3 0xff000000 = 0xff" "byte2 0xff000000 = 0" "byte1 0xff000000 = 0" "byte0 0xff000000 = 0"
  "byte3 0x00ff0000 = 0" "byte2 0x00ff0000 = 0xff" "byte1 0x00ff0000 = 0" "byte0 0x00ff0000 = 0"
  "byte3 0x0000ff00 = 0" "byte2 0x0000ff00 = 0" "byte1 0x0000ff00 = 0xff" "byte0 0x0000ff00 = 0"
  "byte3 0x000000ff = 0" "byte2 0x000000ff = 0" "byte1 0x000000ff = 0" "byte0 0x000000ff = 0xff"
  by (simp_all add: byte_defs)

lemma byte_and_ff [simp]: "(b :: byte) AND 0xff = b"
proof -
  have "(0xff :: byte) = mask 8" by (simp add: mask_eq_exp_minus_1)
  then have "b AND 0xff = take_bit 8 b" by (simp only: take_bit_eq_mask)
  then show ?thesis by (simp add: take_bit_word_eq_self)
qed

lemma byte_zero [byte_simps]: "byte3 0 = 0" "byte2 0 = 0" "byte1 0 = 0" "byte0 0 = 0"
  by (simp_all add: byte_defs)

lemma byte_push_ucast [byte_simps]:
  "byte3 (push_bit 24 (ucast b)) = b" "byte2 (push_bit 24 (ucast b)) = 0"
  "byte1 (push_bit 24 (ucast b)) = 0" "byte0 (push_bit 24 (ucast b)) = 0"
  "byte3 (push_bit 16 (ucast b)) = 0" "byte2 (push_bit 16 (ucast b)) = b"
  "byte1 (push_bit 16 (ucast b)) = 0" "byte0 (push_bit 16 (ucast b)) = 0"
  "byte3 (push_bit 8 (ucast b)) = 0" "byte2 (push_bit 8 (ucast b)) = 0"
  "byte1 (push_bit 8 (ucast b)) = b" "byte0 (push_bit 8 (ucast b)) = 0"
  "byte3 (ucast b) = 0" "byte2 (ucast b) = 0" "byte1 (ucast b) = 0" "byte0 (ucast b) = b"
  for b :: byte
  by (auto intro!: bit_word_eqI simp: bit_bytes bit_simps byte_beyond)

lemma byte_drop [byte_simps]:
  "byte0 (drop_bit 24 w) = byte3 w" "byte0 (drop_bit 16 w) = byte2 w" "byte0 (drop_bit 8 w) = byte1 w"
  by (simp_all add: byte_defs)

text \<open>The index expressions of the C code, read as bytes.\<close>

lemma unat_bytes:
  "unat (drop_bit 24 w) = unat (byte3 w)" "unat (drop_bit 16 w AND 0xff) = unat (byte2 w)"
  "unat (drop_bit 8 w AND 0xff) = unat (byte1 w)" "unat (w AND 0xff) = unat (byte0 w)"
  for w :: u32
proof -
  have mask: "(0xff :: u32) = mask 8" by (simp add: mask_eq_exp_minus_1)
  have u: "unat (v AND 0xff) = unat (ucast v :: byte)" for v :: u32
    by (simp add: mask take_bit_eq_mask [symmetric] unsigned_take_bit_eq unsigned_ucast_eq)
  show "unat (drop_bit 16 w AND 0xff) = unat (byte2 w)" "unat (drop_bit 8 w AND 0xff) = unat (byte1 w)"
    "unat (w AND 0xff) = unat (byte0 w)"
    by (simp_all only: byte_defs u)
  have "drop_bit 24 w AND 0xff = drop_bit 24 w"
    by (rule bit_word_eqI) (auto simp: mask bit_simps dest: bit_imp_le_length)
  then show "unat (drop_bit 24 w) = unat (byte3 w)"
    using u [of "drop_bit 24 w"] by (simp add: byte_defs)
qed

lemma unat_byte_less [simp]: "unat (b :: byte) < 256"
  using unsigned_less [of b] by simp

end
