(* ===== verification/AesCore.thy ===== *)
theory AesCore
  imports AesTables
begin

text \<open>
  The AES block cipher of \<open>crypto/aes/aes_core.c\<close>: the key schedules of both builds (the portable
  one and the one for \<open>AES_ASM\<close>), \<open>AES_encrypt\<close> and \<open>AES_decrypt\<close>, with the rolled loop that the
  build uses (\<open>aes_locl.h\<close> undefines \<open>FULL_UNROLL\<close>) and the unrolled rounds beside it. A byte buffer
  is the list of its bytes, the schedule array \<open>rd_key\<close> a list of 60 words that the loops update in
  place, \<open>rk += n\<close> an offset into it.
\<close>

section \<open>Loading and storing words\<close>

definition GETU32 :: "byte list \<Rightarrow> u32" where
  "GETU32 pt =
     ((push_bit 24 (ucast (pt ! 0)) XOR push_bit 16 (ucast (pt ! 1)))
        XOR push_bit 8 (ucast (pt ! 2))) XOR ucast (pt ! 3)"

definition PUTU32 :: "u32 \<Rightarrow> byte list" where
  "PUTU32 st = [ucast (drop_bit 24 st), ucast (drop_bit 16 st), ucast (drop_bit 8 st), ucast st]"

lemma PUTU32_bytes: "PUTU32 w = [byte3 w, byte2 w, byte1 w, byte0 w]"
  by (simp add: PUTU32_def byte_defs)

lemma length_PUTU32 [simp]: "length (PUTU32 w) = 4"
  by (simp add: PUTU32_def)

lemma byte_GETU32 [byte_simps]:
  "byte3 (GETU32 p) = p ! 0" "byte2 (GETU32 p) = p ! 1" "byte1 (GETU32 p) = p ! 2"
  "byte0 (GETU32 p) = p ! 3"
  by (simp_all add: GETU32_def byte_simps)

lemma GETU32_PUTU32 [simp]: "GETU32 (PUTU32 w @ xs) = w"
  by (simp add: word_eq_bytes byte_simps PUTU32_bytes)

lemma PUTU32_GETU32: "4 \<le> length p \<Longrightarrow> PUTU32 (GETU32 p) = take 4 p"
  by (rule nth_equalityI) (auto simp: PUTU32_bytes byte_simps less_Suc_eq numeral_eq_Suc)

section \<open>The key schedule\<close>

record AES_KEY =
  rd_key :: "u32 list"
  rounds :: nat

text \<open>\<open>unsigned int rd_key[4 * (AES_MAXNR + 1)]\<close>\<close>

definition AES_MAXNR :: nat where "AES_MAXNR = 14"

definition wf_AES_KEY :: "AES_KEY \<Rightarrow> bool" where
  "wf_AES_KEY k \<longleftrightarrow> length (rd_key k) = 4 * (AES_MAXNR + 1)"

text \<open>The substituted (and rotated) word that the schedule of the portable build computes.\<close>

definition rot_sub_te :: "u32 \<Rightarrow> u32" where
  "rot_sub_te temp =
     (((Te2 ! unat (drop_bit 16 temp AND 0xff) AND 0xff000000)
        XOR (Te3 ! unat (drop_bit 8 temp AND 0xff) AND 0x00ff0000))
        XOR (Te0 ! unat (temp AND 0xff) AND 0x0000ff00))
        XOR (Te1 ! unat (drop_bit 24 temp) AND 0x000000ff)"

definition sub_te :: "u32 \<Rightarrow> u32" where
  "sub_te temp =
     (((Te2 ! unat (drop_bit 24 temp) AND 0xff000000)
        XOR (Te3 ! unat (drop_bit 16 temp AND 0xff) AND 0x00ff0000))
        XOR (Te0 ! unat (drop_bit 8 temp AND 0xff) AND 0x0000ff00))
        XOR (Te1 ! unat (temp AND 0xff) AND 0x000000ff)"

text \<open>The same words in the build for \<open>AES_ASM\<close>, from the byte table \<open>Te4\<close>.\<close>

definition rot_sub_te4 :: "u32 \<Rightarrow> u32" where
  "rot_sub_te4 temp =
     ((push_bit 24 (ucast (Te4 ! unat (drop_bit 16 temp AND 0xff)))
        XOR push_bit 16 (ucast (Te4 ! unat (drop_bit 8 temp AND 0xff))))
        XOR push_bit 8 (ucast (Te4 ! unat (temp AND 0xff))))
        XOR ucast (Te4 ! unat (drop_bit 24 temp))"

definition sub_te4 :: "u32 \<Rightarrow> u32" where
  "sub_te4 temp =
     ((push_bit 24 (ucast (Te4 ! unat (drop_bit 24 temp)))
        XOR push_bit 16 (ucast (Te4 ! unat (drop_bit 16 temp AND 0xff))))
        XOR push_bit 8 (ucast (Te4 ! unat (drop_bit 8 temp AND 0xff))))
        XOR ucast (Te4 ! unat (temp AND 0xff))"

text \<open>
  The three \<open>while (1)\<close> loops, one per key size; \<open>i\<close> counts the round constants and the loop returns
  when it reaches 10, 8 or 7 (\<open>\<le>\<close> keeps the recursion total: \<open>i\<close> starts at 0). The two builds have
  the same loops around their own substituted words \<open>f\<close> and \<open>g\<close>.
\<close>

function expand128 :: "(u32 \<Rightarrow> u32) \<Rightarrow> u32 list \<Rightarrow> nat \<Rightarrow> nat \<Rightarrow> u32 list" where
  "expand128 f rk p i =
     (let temp = rk ! (p + 3);
          rk = rk[p + 4 := (rk ! p XOR f temp) XOR rcon ! i];
          rk = rk[p + 5 := rk ! (p + 1) XOR rk ! (p + 4)];
          rk = rk[p + 6 := rk ! (p + 2) XOR rk ! (p + 5)];
          rk = rk[p + 7 := rk ! (p + 3) XOR rk ! (p + 6)]
      in if 10 \<le> i + 1 then rk else expand128 f rk (p + 4) (i + 1))"
  by pat_completeness auto
termination by (relation "measure (\<lambda>(f, rk, p, i). 10 - i)") auto

function expand192 :: "(u32 \<Rightarrow> u32) \<Rightarrow> u32 list \<Rightarrow> nat \<Rightarrow> nat \<Rightarrow> u32 list" where
  "expand192 f rk p i =
     (let temp = rk ! (p + 5);
          rk = rk[p + 6 := (rk ! p XOR f temp) XOR rcon ! i];
          rk = rk[p + 7 := rk ! (p + 1) XOR rk ! (p + 6)];
          rk = rk[p + 8 := rk ! (p + 2) XOR rk ! (p + 7)];
          rk = rk[p + 9 := rk ! (p + 3) XOR rk ! (p + 8)]
      in if 8 \<le> i + 1 then rk
         else
           (let rk = rk[p + 10 := rk ! (p + 4) XOR rk ! (p + 9)];
                rk = rk[p + 11 := rk ! (p + 5) XOR rk ! (p + 10)]
            in expand192 f rk (p + 6) (i + 1)))"
  by pat_completeness auto
termination by (relation "measure (\<lambda>(f, rk, p, i). 8 - i)") auto

function expand256 :: "(u32 \<Rightarrow> u32) \<Rightarrow> (u32 \<Rightarrow> u32) \<Rightarrow> u32 list \<Rightarrow> nat \<Rightarrow> nat \<Rightarrow> u32 list" where
  "expand256 f g rk p i =
     (let temp = rk ! (p + 7);
          rk = rk[p + 8 := (rk ! p XOR f temp) XOR rcon ! i];
          rk = rk[p + 9 := rk ! (p + 1) XOR rk ! (p + 8)];
          rk = rk[p + 10 := rk ! (p + 2) XOR rk ! (p + 9)];
          rk = rk[p + 11 := rk ! (p + 3) XOR rk ! (p + 10)]
      in if 7 \<le> i + 1 then rk
         else
           (let temp = rk ! (p + 11);
                rk = rk[p + 12 := rk ! (p + 4) XOR g temp];
                rk = rk[p + 13 := rk ! (p + 5) XOR rk ! (p + 12)];
                rk = rk[p + 14 := rk ! (p + 6) XOR rk ! (p + 13)];
                rk = rk[p + 15 := rk ! (p + 7) XOR rk ! (p + 14)]
            in expand256 f g rk (p + 8) (i + 1)))"
  by pat_completeness auto
termination by (relation "measure (\<lambda>(f, g, rk, p, i). 7 - i)") auto

declare expand128.simps [simp del] expand192.simps [simp del] expand256.simps [simp del]

text \<open>
  The schedule: the error codes in the order of the checks (a null pointer is \<open>None\<close>), the number
  of rounds, the key words, and the loop of the key size. The result is the status and the key
  structure that the pointer refers to afterwards.
\<close>

definition schedule ::
  "(u32 \<Rightarrow> u32) \<Rightarrow> (u32 \<Rightarrow> u32) \<Rightarrow> byte list option \<Rightarrow> int \<Rightarrow> AES_KEY option \<Rightarrow> int \<times> AES_KEY option"
where
  "schedule f g userKey bits key =
     (case (userKey, key) of
        (Some uk, Some k) \<Rightarrow>
          if bits \<noteq> 128 \<and> bits \<noteq> 192 \<and> bits \<noteq> 256 then (-2, key)
          else
            (let nr = (if bits = 128 then 10 else if bits = 192 then 12 else 14);
                 rk = (rd_key k)[0 := GETU32 uk, 1 := GETU32 (drop 4 uk), 2 := GETU32 (drop 8 uk),
                                 3 := GETU32 (drop 12 uk)]
             in if bits = 128 then (0, Some (k\<lparr>rounds := nr, rd_key := expand128 f rk 0 0\<rparr>))
                else
                  (let rk = rk[4 := GETU32 (drop 16 uk), 5 := GETU32 (drop 20 uk)]
                   in if bits = 192 then (0, Some (k\<lparr>rounds := nr, rd_key := expand192 f rk 0 0\<rparr>))
                      else
                        (let rk = rk[6 := GETU32 (drop 24 uk), 7 := GETU32 (drop 28 uk)]
                         in (0, Some (k\<lparr>rounds := nr, rd_key := expand256 f g rk 0 0\<rparr>)))))
      | _ \<Rightarrow> (-1, key))"

definition AES_set_encrypt_key :: "byte list option \<Rightarrow> int \<Rightarrow> AES_KEY option \<Rightarrow> int \<times> AES_KEY option" where
  "AES_set_encrypt_key = schedule rot_sub_te sub_te"

definition AES_set_encrypt_key_asm :: "byte list option \<Rightarrow> int \<Rightarrow> AES_KEY option \<Rightarrow> int \<times> AES_KEY option"
where
  "AES_set_encrypt_key_asm = schedule rot_sub_te4 sub_te4"

text \<open>The order of the round keys is inverted in place by swapping from both ends.\<close>

definition swap_word :: "nat \<Rightarrow> nat \<Rightarrow> u32 list \<Rightarrow> u32 list" where
  "swap_word i j rk = (let temp = rk ! i; rk = rk[i := rk ! j] in rk[j := temp])"

function invert_order :: "nat \<Rightarrow> nat \<Rightarrow> u32 list \<Rightarrow> u32 list" where
  "invert_order i j rk =
     (if i < j
      then invert_order (i + 4) (j - 4)
             (swap_word (i + 3) (j + 3) (swap_word (i + 2) (j + 2)
               (swap_word (i + 1) (j + 1) (swap_word i j rk))))
      else rk)"
  by pat_completeness auto
termination by (relation "measure (\<lambda>(i, j, rk). j - i)") auto

declare invert_order.simps [simp del]

text \<open>The inverse MixColumn of one schedule word: by table (portable), and four bytes at once in one
  word (\<open>AES_ASM\<close>, the branch without \<open>ROTATE\<close>).\<close>

definition inv_mix_td :: "u32 \<Rightarrow> u32" where
  "inv_mix_td w =
     ((Td0 ! unat (Te1 ! unat (drop_bit 24 w) AND 0xff)
        XOR Td1 ! unat (Te1 ! unat (drop_bit 16 w AND 0xff) AND 0xff))
        XOR Td2 ! unat (Te1 ! unat (drop_bit 8 w AND 0xff) AND 0xff))
        XOR Td3 ! unat (Te1 ! unat (w AND 0xff) AND 0xff)"

definition double4 :: "u32 \<Rightarrow> u32" where
  "double4 tp =
     (let m = tp AND 0x80808080
      in push_bit 1 (tp AND 0x7f7f7f7f) XOR ((m - drop_bit 7 m) AND 0x1b1b1b1b))"

definition inv_mix_asm :: "u32 \<Rightarrow> u32" where
  "inv_mix_asm tp1 =
     (let tp2 = double4 tp1; tp4 = double4 tp2; tp8 = double4 tp4;
          tp9 = tp8 XOR tp1; tpb = tp9 XOR tp2; tpd = tp9 XOR tp4; tpe = (tp8 XOR tp4) XOR tp2
      in (((((tpe XOR drop_bit 16 tpd) XOR push_bit 16 tpd) XOR drop_bit 8 tp9) XOR push_bit 24 tp9)
            XOR drop_bit 24 tpb) XOR push_bit 8 tpb)"

text \<open>All round keys but the first and the last: \<open>for (i = 1; i < key->rounds; i++) { rk += 4; ... }\<close>.\<close>

function mix_keys :: "(u32 \<Rightarrow> u32) \<Rightarrow> nat \<Rightarrow> nat \<Rightarrow> nat \<Rightarrow> u32 list \<Rightarrow> u32 list" where
  "mix_keys m i n p rk =
     (if i < n
      then let p = p + 4;
               rk = rk[p := m (rk ! p)];
               rk = rk[p + 1 := m (rk ! (p + 1))];
               rk = rk[p + 2 := m (rk ! (p + 2))];
               rk = rk[p + 3 := m (rk ! (p + 3))]
           in mix_keys m (i + 1) n p rk
      else rk)"
  by pat_completeness auto
termination by (relation "measure (\<lambda>(m, i, n, p, rk). n - i)") auto

declare mix_keys.simps [simp del]

definition invert_schedule :: "(u32 \<Rightarrow> u32) \<Rightarrow> AES_KEY \<Rightarrow> AES_KEY" where
  "invert_schedule m k =
     k\<lparr>rd_key := mix_keys m 1 (rounds k) 0 (invert_order 0 (4 * rounds k) (rd_key k))\<rparr>"

definition AES_set_decrypt_key :: "byte list option \<Rightarrow> int \<Rightarrow> AES_KEY option \<Rightarrow> int \<times> AES_KEY option" where
  "AES_set_decrypt_key userKey bits key =
     (case AES_set_encrypt_key userKey bits key of
        (status, key') \<Rightarrow>
          if status < 0 then (status, key') else (0, map_option (invert_schedule inv_mix_td) key'))"

definition AES_set_decrypt_key_asm :: "byte list option \<Rightarrow> int \<Rightarrow> AES_KEY option \<Rightarrow> int \<times> AES_KEY option"
where
  "AES_set_decrypt_key_asm userKey bits key =
     (case AES_set_encrypt_key_asm userKey bits key of
        (status, key') \<Rightarrow>
          if status < 0 then (status, key') else (0, map_option (invert_schedule inv_mix_asm) key'))"

end
