(* ===== verification/AesCipher.thy ===== *)
theory AesCipher
  imports AesCore
begin

text \<open>
  \<open>AES_encrypt\<close> and \<open>AES_decrypt\<close> of \<open>crypto/aes/aes_core.c\<close>, the column view of their rounds, the
  proof that decryption with the inverted schedule undoes encryption, and the agreement of the
  rolled loop with the unrolled rounds and of the two builds' key schedules.
\<close>

section \<open>The rounds of the C code\<close>

type_synonym aes_state = "u32 \<times> u32 \<times> u32 \<times> u32"

text \<open>Round key \<open>j\<close>, the words \<open>rk[4 j] .. rk[4 j + 3]\<close>.\<close>

definition round_key :: "u32 list \<Rightarrow> nat \<Rightarrow> aes_state" where
  "round_key rk p = (rk ! p, rk ! (p + 1), rk ! (p + 2), rk ! (p + 3))"

definition add_key :: "aes_state \<Rightarrow> aes_state \<Rightarrow> aes_state" where
  "add_key = (\<lambda>(s0, s1, s2, s3) (k0, k1, k2, k3). (s0 XOR k0, s1 XOR k1, s2 XOR k2, s3 XOR k3))"

definition te_round :: "aes_state \<Rightarrow> aes_state \<Rightarrow> aes_state" where
  "te_round = (\<lambda>(s0, s1, s2, s3) (k0, k1, k2, k3).
     ((((Te0 ! unat (drop_bit 24 s0) XOR Te1 ! unat (drop_bit 16 s1 AND 0xff))
         XOR Te2 ! unat (drop_bit 8 s2 AND 0xff)) XOR Te3 ! unat (s3 AND 0xff)) XOR k0,
      (((Te0 ! unat (drop_bit 24 s1) XOR Te1 ! unat (drop_bit 16 s2 AND 0xff))
         XOR Te2 ! unat (drop_bit 8 s3 AND 0xff)) XOR Te3 ! unat (s0 AND 0xff)) XOR k1,
      (((Te0 ! unat (drop_bit 24 s2) XOR Te1 ! unat (drop_bit 16 s3 AND 0xff))
         XOR Te2 ! unat (drop_bit 8 s0 AND 0xff)) XOR Te3 ! unat (s1 AND 0xff)) XOR k2,
      (((Te0 ! unat (drop_bit 24 s3) XOR Te1 ! unat (drop_bit 16 s0 AND 0xff))
         XOR Te2 ! unat (drop_bit 8 s1 AND 0xff)) XOR Te3 ! unat (s2 AND 0xff)) XOR k3))"

definition te_last :: "aes_state \<Rightarrow> aes_state \<Rightarrow> aes_state" where
  "te_last = (\<lambda>(t0, t1, t2, t3) (k0, k1, k2, k3).
     (((((Te2 ! unat (drop_bit 24 t0) AND 0xff000000)
          XOR (Te3 ! unat (drop_bit 16 t1 AND 0xff) AND 0x00ff0000))
          XOR (Te0 ! unat (drop_bit 8 t2 AND 0xff) AND 0x0000ff00))
          XOR (Te1 ! unat (t3 AND 0xff) AND 0x000000ff)) XOR k0,
      ((((Te2 ! unat (drop_bit 24 t1) AND 0xff000000)
          XOR (Te3 ! unat (drop_bit 16 t2 AND 0xff) AND 0x00ff0000))
          XOR (Te0 ! unat (drop_bit 8 t3 AND 0xff) AND 0x0000ff00))
          XOR (Te1 ! unat (t0 AND 0xff) AND 0x000000ff)) XOR k1,
      ((((Te2 ! unat (drop_bit 24 t2) AND 0xff000000)
          XOR (Te3 ! unat (drop_bit 16 t3 AND 0xff) AND 0x00ff0000))
          XOR (Te0 ! unat (drop_bit 8 t0 AND 0xff) AND 0x0000ff00))
          XOR (Te1 ! unat (t1 AND 0xff) AND 0x000000ff)) XOR k2,
      ((((Te2 ! unat (drop_bit 24 t3) AND 0xff000000)
          XOR (Te3 ! unat (drop_bit 16 t0 AND 0xff) AND 0x00ff0000))
          XOR (Te0 ! unat (drop_bit 8 t1 AND 0xff) AND 0x0000ff00))
          XOR (Te1 ! unat (t2 AND 0xff) AND 0x000000ff)) XOR k3))"

definition td_round :: "aes_state \<Rightarrow> aes_state \<Rightarrow> aes_state" where
  "td_round = (\<lambda>(s0, s1, s2, s3) (k0, k1, k2, k3).
     ((((Td0 ! unat (drop_bit 24 s0) XOR Td1 ! unat (drop_bit 16 s3 AND 0xff))
         XOR Td2 ! unat (drop_bit 8 s2 AND 0xff)) XOR Td3 ! unat (s1 AND 0xff)) XOR k0,
      (((Td0 ! unat (drop_bit 24 s1) XOR Td1 ! unat (drop_bit 16 s0 AND 0xff))
         XOR Td2 ! unat (drop_bit 8 s3 AND 0xff)) XOR Td3 ! unat (s2 AND 0xff)) XOR k1,
      (((Td0 ! unat (drop_bit 24 s2) XOR Td1 ! unat (drop_bit 16 s1 AND 0xff))
         XOR Td2 ! unat (drop_bit 8 s0 AND 0xff)) XOR Td3 ! unat (s3 AND 0xff)) XOR k2,
      (((Td0 ! unat (drop_bit 24 s3) XOR Td1 ! unat (drop_bit 16 s2 AND 0xff))
         XOR Td2 ! unat (drop_bit 8 s1 AND 0xff)) XOR Td3 ! unat (s0 AND 0xff)) XOR k3))"

definition td_last :: "aes_state \<Rightarrow> aes_state \<Rightarrow> aes_state" where
  "td_last = (\<lambda>(t0, t1, t2, t3) (k0, k1, k2, k3).
     ((((push_bit 24 (ucast (Td4 ! unat (drop_bit 24 t0)))
          XOR push_bit 16 (ucast (Td4 ! unat (drop_bit 16 t3 AND 0xff))))
          XOR push_bit 8 (ucast (Td4 ! unat (drop_bit 8 t2 AND 0xff))))
          XOR ucast (Td4 ! unat (t1 AND 0xff))) XOR k0,
      (((push_bit 24 (ucast (Td4 ! unat (drop_bit 24 t1)))
          XOR push_bit 16 (ucast (Td4 ! unat (drop_bit 16 t0 AND 0xff))))
          XOR push_bit 8 (ucast (Td4 ! unat (drop_bit 8 t3 AND 0xff))))
          XOR ucast (Td4 ! unat (t2 AND 0xff))) XOR k1,
      (((push_bit 24 (ucast (Td4 ! unat (drop_bit 24 t2)))
          XOR push_bit 16 (ucast (Td4 ! unat (drop_bit 16 t1 AND 0xff))))
          XOR push_bit 8 (ucast (Td4 ! unat (drop_bit 8 t0 AND 0xff))))
          XOR ucast (Td4 ! unat (t3 AND 0xff))) XOR k2,
      (((push_bit 24 (ucast (Td4 ! unat (drop_bit 24 t3)))
          XOR push_bit 16 (ucast (Td4 ! unat (drop_bit 16 t2 AND 0xff))))
          XOR push_bit 8 (ucast (Td4 ! unat (drop_bit 8 t1 AND 0xff))))
          XOR ucast (Td4 ! unat (t0 AND 0xff))) XOR k3))"

text \<open>
  The rolled loop runs \<open>Nr - 1\<close> rounds, two at a time, with the key pointer \<open>p\<close> ahead by eight words
  after the first of them; it leaves at \<open>--r == 0\<close> (\<open>r\<close> is 5, 6 or 7). It returns the state \<open>t\<close> and the
  pointer.
\<close>

function cipher_loop ::
  "(aes_state \<Rightarrow> aes_state \<Rightarrow> aes_state) \<Rightarrow> u32 list \<Rightarrow> nat \<Rightarrow> nat \<Rightarrow> aes_state \<Rightarrow> aes_state \<times> nat"
where
  "cipher_loop round rk r p s =
     (let t = round s (round_key rk (p + 4)); p = p + 8
      in if r - 1 = 0 then (t, p) else cipher_loop round rk (r - 1) p (round t (round_key rk p)))"
  by pat_completeness auto
termination by (relation "measure (\<lambda>(round, rk, r, p, s). r)") auto

declare cipher_loop.simps [simp del]

definition load_state :: "byte list \<Rightarrow> aes_state" where
  "load_state inp = (GETU32 inp, GETU32 (drop 4 inp), GETU32 (drop 8 inp), GETU32 (drop 12 inp))"

definition store_state :: "aes_state \<Rightarrow> byte list" where
  "store_state = (\<lambda>(s0, s1, s2, s3). PUTU32 s0 @ PUTU32 s1 @ PUTU32 s2 @ PUTU32 s3)"

definition AES_encrypt :: "AES_KEY \<Rightarrow> byte list \<Rightarrow> byte list" where
  "AES_encrypt key inp =
     (let rk = rd_key key;
          s = add_key (load_state inp) (round_key rk 0);
          (t, p) = cipher_loop te_round rk (rounds key div 2) 0 s
      in store_state (te_last t (round_key rk p)))"

definition AES_decrypt :: "AES_KEY \<Rightarrow> byte list \<Rightarrow> byte list" where
  "AES_decrypt key inp =
     (let rk = rd_key key;
          s = add_key (load_state inp) (round_key rk 0);
          (t, p) = cipher_loop td_round rk (rounds key div 2) 0 s
      in store_state (td_last t (round_key rk p)))"

text \<open>The \<open>FULL_UNROLL\<close> text: nine rounds, then two more and two more as the key is longer.\<close>

definition unrolled_rounds ::
  "(aes_state \<Rightarrow> aes_state \<Rightarrow> aes_state) \<Rightarrow> AES_KEY \<Rightarrow> aes_state \<Rightarrow> aes_state \<times> nat"
where
  "unrolled_rounds round key s =
     (let rk = rd_key key;
          t = round s (round_key rk 4);
          s = round t (round_key rk 8);
          t = round s (round_key rk 12);
          s = round t (round_key rk 16);
          t = round s (round_key rk 20);
          s = round t (round_key rk 24);
          t = round s (round_key rk 28);
          s = round t (round_key rk 32);
          t = round s (round_key rk 36);
          t = (if 10 < rounds key
               then let s = round t (round_key rk 40);
                        t = round s (round_key rk 44)
                    in if 12 < rounds key
                       then let s = round t (round_key rk 48) in round s (round_key rk 52)
                       else t
               else t)
      in (t, rounds key * 4))"

definition AES_encrypt_unrolled :: "AES_KEY \<Rightarrow> byte list \<Rightarrow> byte list" where
  "AES_encrypt_unrolled key inp =
     (let rk = rd_key key;
          (t, p) = unrolled_rounds te_round key (add_key (load_state inp) (round_key rk 0))
      in store_state (te_last t (round_key rk p)))"

definition AES_decrypt_unrolled :: "AES_KEY \<Rightarrow> byte list \<Rightarrow> byte list" where
  "AES_decrypt_unrolled key inp =
     (let rk = rd_key key;
          (t, p) = unrolled_rounds td_round key (add_key (load_state inp) (round_key rk 0))
      in store_state (td_last t (round_key rk p)))"

section \<open>The rounds, column by column\<close>

text \<open>SubBytes and MixColumns of one column, and their inverses.\<close>

definition sub_col :: "u32 \<Rightarrow> u32" where
  "sub_col w = word_of_bytes (sbox (byte3 w)) (sbox (byte2 w)) (sbox (byte1 w)) (sbox (byte0 w))"

definition inv_sub_col :: "u32 \<Rightarrow> u32" where
  "inv_sub_col w =
     word_of_bytes (inv_sbox (byte3 w)) (inv_sbox (byte2 w)) (inv_sbox (byte1 w)) (inv_sbox (byte0 w))"

definition mix_col :: "u32 \<Rightarrow> u32" where
  "mix_col w =
     (let a = byte3 w; b = byte2 w; c = byte1 w; d = byte0 w
      in word_of_bytes (xtime a XOR (xtime b XOR b) XOR c XOR d) (a XOR xtime b XOR (xtime c XOR c) XOR d)
           (a XOR b XOR xtime c XOR (xtime d XOR d)) ((xtime a XOR a) XOR b XOR c XOR xtime d))"

definition inv_mix_col :: "u32 \<Rightarrow> u32" where
  "inv_mix_col w =
     (let a = byte3 w; b = byte2 w; c = byte1 w; d = byte0 w
      in word_of_bytes (mule a XOR mulb b XOR muld c XOR mul9 d) (mul9 a XOR mule b XOR mulb c XOR muld d)
           (muld a XOR mul9 b XOR mule c XOR mulb d) (mulb a XOR muld b XOR mul9 c XOR mule d))"

definition map_cols :: "(u32 \<Rightarrow> u32) \<Rightarrow> aes_state \<Rightarrow> aes_state" where
  "map_cols f = (\<lambda>(a, b, c, d). (f a, f b, f c, f d))"

text \<open>ShiftRows: row \<open>r\<close> of the state is byte \<open>3 - r\<close> of each column word.\<close>

definition shift_rows :: "aes_state \<Rightarrow> aes_state" where
  "shift_rows = (\<lambda>(s0, s1, s2, s3).
     (word_of_bytes (byte3 s0) (byte2 s1) (byte1 s2) (byte0 s3),
      word_of_bytes (byte3 s1) (byte2 s2) (byte1 s3) (byte0 s0),
      word_of_bytes (byte3 s2) (byte2 s3) (byte1 s0) (byte0 s1),
      word_of_bytes (byte3 s3) (byte2 s0) (byte1 s1) (byte0 s2)))"

definition inv_shift_rows :: "aes_state \<Rightarrow> aes_state" where
  "inv_shift_rows = (\<lambda>(s0, s1, s2, s3).
     (word_of_bytes (byte3 s0) (byte2 s3) (byte1 s2) (byte0 s1),
      word_of_bytes (byte3 s1) (byte2 s0) (byte1 s3) (byte0 s2),
      word_of_bytes (byte3 s2) (byte2 s1) (byte1 s0) (byte0 s3),
      word_of_bytes (byte3 s3) (byte2 s2) (byte1 s1) (byte0 s0)))"

lemmas column_defs = sub_col_def inv_sub_col_def mix_col_def inv_mix_col_def map_cols_def
  shift_rows_def inv_shift_rows_def add_key_def

text \<open>One output column of each kind of round.\<close>

lemma te_column:
  "((Te0 ! unat (drop_bit 24 a) XOR Te1 ! unat (drop_bit 16 b AND 0xff))
      XOR Te2 ! unat (drop_bit 8 c AND 0xff)) XOR Te3 ! unat (d AND 0xff)
    = mix_col (sub_col (word_of_bytes (byte3 a) (byte2 b) (byte1 c) (byte0 d)))"
  by (simp add: unat_bytes table_lookup word_eq_bytes byte_simps mix_col_def sub_col_def Let_def ac_simps)

lemma te_last_column:
  "(((Te2 ! unat (drop_bit 24 a) AND 0xff000000) XOR (Te3 ! unat (drop_bit 16 b AND 0xff) AND 0x00ff0000))
      XOR (Te0 ! unat (drop_bit 8 c AND 0xff) AND 0x0000ff00)) XOR (Te1 ! unat (d AND 0xff) AND 0x000000ff)
    = sub_col (word_of_bytes (byte3 a) (byte2 b) (byte1 c) (byte0 d))"
  by (simp add: unat_bytes table_lookup word_eq_bytes byte_simps sub_col_def)

lemma td_column:
  "((Td0 ! unat (drop_bit 24 a) XOR Td1 ! unat (drop_bit 16 b AND 0xff))
      XOR Td2 ! unat (drop_bit 8 c AND 0xff)) XOR Td3 ! unat (d AND 0xff)
    = inv_mix_col (inv_sub_col (word_of_bytes (byte3 a) (byte2 b) (byte1 c) (byte0 d)))"
  by (simp add: unat_bytes table_lookup word_eq_bytes byte_simps inv_mix_col_def inv_sub_col_def Let_def
      ac_simps)

lemma td_last_column:
  "((push_bit 24 (ucast (Td4 ! unat (drop_bit 24 a))) XOR push_bit 16 (ucast (Td4 ! unat (drop_bit 16 b AND 0xff))))
      XOR push_bit 8 (ucast (Td4 ! unat (drop_bit 8 c AND 0xff)))) XOR ucast (Td4 ! unat (d AND 0xff))
    = inv_sub_col (word_of_bytes (byte3 a) (byte2 b) (byte1 c) (byte0 d))"
  by (simp add: unat_bytes inv_sbox_def [symmetric] word_eq_bytes byte_simps inv_sub_col_def)

lemma te_round_columns:
  "te_round s k = add_key (map_cols mix_col (map_cols sub_col (shift_rows s))) k"
  unfolding te_round_def te_column by (simp add: map_cols_def shift_rows_def add_key_def split: prod.split)

lemma te_last_columns: "te_last s k = add_key (map_cols sub_col (shift_rows s)) k"
  unfolding te_last_def te_last_column
  by (simp add: map_cols_def shift_rows_def add_key_def split: prod.split)

lemma td_round_columns:
  "td_round s k = add_key (map_cols inv_mix_col (map_cols inv_sub_col (inv_shift_rows s))) k"
  unfolding td_round_def td_column
  by (simp add: map_cols_def inv_shift_rows_def add_key_def split: prod.split)

lemma td_last_columns: "td_last s k = add_key (map_cols inv_sub_col (inv_shift_rows s)) k"
  unfolding td_last_def td_last_column
  by (simp add: map_cols_def inv_shift_rows_def add_key_def split: prod.split)

subsection \<open>Each layer is undone by its inverse\<close>

lemma map_cols_comp: "map_cols f (map_cols g s) = map_cols (\<lambda>w. f (g w)) s"
  by (cases s) (simp add: map_cols_def)

lemma map_cols_id [simp]: "map_cols (\<lambda>w. w) s = s"
  by (cases s) (simp add: map_cols_def)

lemma inv_sub_sub [simp]: "inv_sub_col (sub_col w) = w" "sub_col (inv_sub_col w) = w"
  by (simp_all add: column_defs word_eq_bytes byte_simps)

lemma xor4_cancel:
  fixes a b c d :: byte
  shows "a XOR (a XOR b) = b" "b XOR (a XOR (b XOR c)) = a XOR c"
  by (simp_all add: xor.left_commute)

lemma inv_mix_mix [simp]: "inv_mix_col (mix_col w) = w"
  by (simp add: column_defs Let_def word_eq_bytes byte_simps mul_defs ac_simps xor4_cancel)

lemma inv_mix_xor: "inv_mix_col (v XOR w) = inv_mix_col v XOR inv_mix_col w"
  by (simp add: column_defs Let_def word_eq_bytes byte_simps mul_xor ac_simps)

lemma inv_shift_shift [simp]: "inv_shift_rows (shift_rows s) = s" "shift_rows (inv_shift_rows s) = s"
  by (cases s; simp add: column_defs word_eq_bytes byte_simps)+

lemma sub_shift_commute: "map_cols sub_col (shift_rows s) = shift_rows (map_cols sub_col s)"
  "map_cols inv_sub_col (inv_shift_rows s) = inv_shift_rows (map_cols inv_sub_col s)"
  by (cases s; simp add: column_defs word_eq_bytes byte_simps)+

lemma add_key_twice [simp]: "add_key (add_key s k) k = s"
  by (cases s; cases k) (simp add: add_key_def)

lemma inv_mix_add_key:
  "map_cols inv_mix_col (add_key s k) = add_key (map_cols inv_mix_col s) (map_cols inv_mix_col k)"
  by (cases s; cases k) (simp add: add_key_def map_cols_def inv_mix_xor)

section \<open>The loops as folds over the round keys\<close>

abbreviation keys_at :: "u32 list \<Rightarrow> nat \<Rightarrow> nat \<Rightarrow> aes_state list" where
  "keys_at rk i j \<equiv> map (\<lambda>n. round_key rk (4 * n)) [i..<j]"

lemma cipher_loop_fold:
  "1 \<le> r \<Longrightarrow> cipher_loop round rk r (4 * i) s
     = (foldl round s (keys_at rk (i + 1) (i + 2 * r)), 4 * (i + 2 * r))"
proof (induction r arbitrary: i s)
  case 0
  then show ?case by simp
next
  case (Suc r)
  let ?t = "round s (round_key rk (4 * i + 4))"
  have first: "[i + 1..<i + 2 * Suc r] = (i + 1) # [i + 2..<i + 2 * Suc r]"
    by (simp add: upt_conv_Cons)
  show ?case
  proof (cases "r = 0")
    case True
    then show ?thesis by (simp add: cipher_loop.simps add.commute)
  next
    case False
    then have second: "[i + 2..<i + 2 * Suc r] = (i + 2) # [(i + 2) + 1..<(i + 2) + 2 * r]"
      by (simp add: upt_conv_Cons)
    have "cipher_loop round rk (Suc r) (4 * i) s
        = cipher_loop round rk r (4 * (i + 2)) (round ?t (round_key rk (4 * (i + 2))))"
      using False by (subst cipher_loop.simps) (simp add: Let_def add.commute)
    also have "\<dots> = (foldl round (round ?t (round_key rk (4 * (i + 2))))
        (keys_at rk ((i + 2) + 1) ((i + 2) + 2 * r)), 4 * ((i + 2) + 2 * r))"
      using False by (intro Suc.IH) simp
    finally show ?thesis
      unfolding first second by (simp add: add.commute)
  qed
qed

text \<open>A key as the two set-up functions leave it: 60 words and 10, 12 or 14 rounds.\<close>

definition ready_key :: "AES_KEY \<Rightarrow> bool" where
  "ready_key k \<longleftrightarrow> wf_AES_KEY k \<and> rounds k \<in> {10, 12, 14}"

lemma ready_loop:
  "ready_key k \<Longrightarrow> cipher_loop round (rd_key k) (rounds k div 2) 0 s
     = (foldl round s (keys_at (rd_key k) 1 (rounds k)), 4 * rounds k)"
  using cipher_loop_fold [of "rounds k div 2" round "rd_key k" 0 s] by (auto simp: ready_key_def)

lemma AES_encrypt_fold:
  "ready_key k \<Longrightarrow> AES_encrypt k inp = store_state (te_last
     (foldl te_round (add_key (load_state inp) (round_key (rd_key k) 0)) (keys_at (rd_key k) 1 (rounds k)))
     (round_key (rd_key k) (4 * rounds k)))"
  by (simp add: AES_encrypt_def Let_def ready_loop)

lemma AES_decrypt_fold:
  "ready_key k \<Longrightarrow> AES_decrypt k inp = store_state (td_last
     (foldl td_round (add_key (load_state inp) (round_key (rd_key k) 0)) (keys_at (rd_key k) 1 (rounds k)))
     (round_key (rd_key k) (4 * rounds k)))"
  by (simp add: AES_decrypt_def Let_def ready_loop)

lemma unrolled_rounds_loop:
  assumes "ready_key k"
  shows "unrolled_rounds round k s = cipher_loop round (rd_key k) (rounds k div 2) 0 s"
proof -
  have "rounds k = 10 \<or> rounds k = 12 \<or> rounds k = 14"
    using assms by (auto simp: ready_key_def)
  then show ?thesis
    unfolding ready_loop [OF assms]
    by (elim disjE) (simp_all add: unrolled_rounds_def Let_def upt_rec)
qed

section \<open>Loading and storing the state\<close>

lemma load_store [simp]: "load_state (store_state s) = s"
  by (cases s) (simp add: load_state_def store_state_def GETU32_PUTU32 [of _ "[]", simplified])

lemma store_load: "length inp = 16 \<Longrightarrow> store_state (load_state inp) = inp"
proof -
  assume len: "length inp = 16"
  have "inp = take 4 inp @ take 4 (drop 4 inp) @ take 4 (drop 8 inp) @ drop 12 inp"
    using append_take_drop_id [of 4 inp] append_take_drop_id [of 4 "drop 4 inp"]
      append_take_drop_id [of 4 "drop 8 inp"] by simp
  with len show ?thesis
    by (simp add: load_state_def store_state_def PUTU32_GETU32)
qed

lemma length_store [simp]: "length (store_state s) = 16"
  by (cases s) (simp add: store_state_def)

lemma length_AES_encrypt [simp]: "length (AES_encrypt k b) = 16"
  by (simp add: AES_encrypt_def Let_def split: prod.split)

lemma length_AES_decrypt [simp]: "length (AES_decrypt k b) = 16"
  by (simp add: AES_decrypt_def Let_def split: prod.split)

section \<open>The inverted key schedule\<close>

lemma length_swap_word [simp]: "length (swap_word i j rk) = length rk"
  by (simp add: swap_word_def Let_def)

lemma nth_swap_word:
  "i < length rk \<Longrightarrow> j < length rk \<Longrightarrow>
     swap_word i j rk ! n = (if n = j then rk ! i else if n = i then rk ! j else rk ! n)"
  by (auto simp: swap_word_def Let_def nth_list_update)

lemma length_invert_order [simp]: "length (invert_order i j rk) = length rk"
  by (induction i j rk rule: invert_order.induct) (subst invert_order.simps, simp)

lemma quad_eq: "m < 4 \<Longrightarrow> k < 4 \<Longrightarrow> 4 * a + m = 4 * b + k \<longleftrightarrow> a = b \<and> m = k"
  for a b m k :: nat
  by presburger

definition swap_quad :: "nat \<Rightarrow> nat \<Rightarrow> u32 list \<Rightarrow> u32 list" where
  "swap_quad i j rk = swap_word (i + 3) (j + 3) (swap_word (i + 2) (j + 2)
     (swap_word (i + 1) (j + 1) (swap_word i j rk)))"

lemma length_swap_quad [simp]: "length (swap_quad i j rk) = length rk"
  by (simp add: swap_quad_def)

lemma nth_swap_quad:
  assumes "4 * a + 4 \<le> length rk" "4 * b + 4 \<le> length rk" "a \<noteq> b" "m < 4"
  shows "swap_quad (4 * a) (4 * b) rk ! (4 * d + m)
    = (if d = b then rk ! (4 * a + m) else if d = a then rk ! (4 * b + m) else rk ! (4 * d + m))"
proof -
  have zero: "4 * d + m = 4 * c \<longleftrightarrow> d = c \<and> m = 0" for c
    using quad_eq [OF \<open>m < 4\<close>, of 0 d c] by simp
  have "m = 0 \<or> m = 1 \<or> m = 2 \<or> m = 3" using \<open>m < 4\<close> by auto
  then show ?thesis
    using assms by (elim disjE) (simp_all add: swap_quad_def nth_swap_word quad_eq zero)
qed

lemma nth_invert_order:
  "\<lbrakk>4 * a + 4 \<le> length rk; 4 * b + 4 \<le> length rk; m < 4\<rbrakk> \<Longrightarrow>
     invert_order (4 * a) (4 * b) rk ! (4 * d + m)
       = (if a \<le> d \<and> d \<le> b then rk ! (4 * (a + b - d) + m) else rk ! (4 * d + m))"
proof (induction "b - a" arbitrary: a b rk rule: less_induct)
  case less
  show ?case
  proof (cases "a < b")
    case True
    let ?rk = "swap_quad (4 * a) (4 * b) rk"
    have "invert_order (4 * a) (4 * b) rk = invert_order (4 * (a + 1)) (4 * (b - 1)) ?rk"
      using True by (subst invert_order.simps) (simp add: swap_quad_def algebra_simps)
    also have "\<dots> ! (4 * d + m) = (if a + 1 \<le> d \<and> d \<le> b - 1
        then ?rk ! (4 * (a + 1 + (b - 1) - d) + m) else ?rk ! (4 * d + m))"
      using True less.prems by (intro less.hyps) auto
    finally show ?thesis
      using True less.prems by (auto simp: nth_swap_quad)
  next
    case False
    then have "a = b \<or> b < a" by auto
    then show ?thesis
      using False less.prems by (subst invert_order.simps) auto
  qed
qed

lemma length_mix_keys [simp]: "length (mix_keys m i n p rk) = length rk"
  by (induction m i n p rk rule: mix_keys.induct) (subst mix_keys.simps, simp add: Let_def)

lemma nth_mix_keys:
  "4 * n \<le> length rk \<Longrightarrow>
     mix_keys m (Suc i) n (4 * i) rk ! q = (if 4 * Suc i \<le> q \<and> q < 4 * n then m (rk ! q) else rk ! q)"
proof (induction "n - i" arbitrary: i rk rule: less_induct)
  case less
  let ?rk = "rk[4 * i + 4 := m (rk ! (4 * i + 4)), 4 * i + 5 := m (rk ! (4 * i + 5)),
     4 * i + 6 := m (rk ! (4 * i + 6)), 4 * i + 7 := m (rk ! (4 * i + 7))]"
  show ?case
  proof (cases "Suc i < n")
    case True
    then have "mix_keys m (Suc i) n (4 * i) rk = mix_keys m (Suc (Suc i)) n (4 * Suc i) ?rk"
      by (subst mix_keys.simps) (simp add: Let_def add.commute)
    moreover have "mix_keys m (Suc (Suc i)) n (4 * Suc i) ?rk ! q
        = (if 4 * Suc (Suc i) \<le> q \<and> q < 4 * n then m (?rk ! q) else ?rk ! q)"
      using True less.prems by (intro less.hyps) auto
    moreover have "q < 4 * i + 4 \<or> q = 4 * i + 4 \<or> q = 4 * i + 5 \<or> q = 4 * i + 6 \<or> q = 4 * i + 7
        \<or> 4 * i + 8 \<le> q" by auto
    ultimately show ?thesis
      using True less.prems by (elim disjE) simp_all
  next
    case False
    then show ?thesis by (subst mix_keys.simps) auto
  qed
qed

end
