(* ===== verification/AesInverse.thy ===== *)
theory AesInverse
  imports AesCipher
begin

text \<open>
  The inverted key schedule of \<open>AES_set_decrypt_key\<close>, the agreement of the two builds' schedules
  (tables against the four-bytes-in-a-word arithmetic of the \<open>AES_ASM\<close> build), and the round trip of
  the block cipher.
\<close>

section \<open>The inverted key schedule\<close>

lemma round_key_invert_schedule:
  assumes "ready_key k" and "j \<le> rounds k"
  shows "round_key (rd_key (invert_schedule m k)) (4 * j)
    = (if 0 < j \<and> j < rounds k then map_cols m (round_key (rd_key k) (4 * (rounds k - j)))
       else round_key (rd_key k) (4 * (rounds k - j)))"
proof -
  let ?n = "rounds k" and ?inv = "invert_order 0 (4 * rounds k) (rd_key k)"
  have len: "4 * ?n + 4 \<le> length (rd_key k)"
    using assms(1) by (auto simp: ready_key_def wf_AES_KEY_def AES_MAXNR_def)
  have order: "?inv ! (4 * j + c) = rd_key k ! (4 * (?n - j) + c)" if "c < 4" for c
    using nth_invert_order [of 0 "rd_key k" ?n c j] len that assms(2) by simp
  have mixed: "rd_key (invert_schedule m k) ! (4 * j + c)
      = (if 0 < j \<and> j < ?n then m (?inv ! (4 * j + c)) else ?inv ! (4 * j + c))" if "c < 4" for c
    using nth_mix_keys [of ?n ?inv m 0 "4 * j + c"] len that by (auto simp: invert_schedule_def)
  have "rd_key (invert_schedule m k) ! (4 * j + c)
      = (if 0 < j \<and> j < ?n then m (rd_key k ! (4 * (?n - j) + c)) else rd_key k ! (4 * (?n - j) + c))"
    if "c < 4" for c
    unfolding mixed [OF that] order [OF that] ..
  from this [of 0] this [of 1] this [of 2] this [of 3] show ?thesis
    unfolding round_key_def map_cols_def by (cases "0 < j \<and> j < ?n") (simp_all only: rel_simps simp_thms if_True if_False add_0_right prod.case)
qed

lemma ready_invert_schedule: "ready_key k \<Longrightarrow> ready_key (invert_schedule m k)"
  by (simp add: ready_key_def wf_AES_KEY_def invert_schedule_def)

lemma rounds_invert_schedule [simp]: "rounds (invert_schedule m k) = rounds k"
  by (simp add: invert_schedule_def)

lemma keys_at_invert_schedule:
  assumes "ready_key k"
  shows "keys_at (rd_key (invert_schedule m k)) 1 (rounds k)
    = map (map_cols m) (rev (keys_at (rd_key k) 1 (rounds k)))"
proof (rule nth_equalityI)
  fix i assume "i < length (keys_at (rd_key (invert_schedule m k)) 1 (rounds k))"
  then have i: "i < rounds k - 1" by simp
  then have nth: "[1..<rounds k] ! (rounds k - Suc (Suc i)) = rounds k - Suc i" "Suc i < rounds k" by simp_all
  then show "keys_at (rd_key (invert_schedule m k)) 1 (rounds k) ! i
      = map (map_cols m) (rev (keys_at (rd_key k) 1 (rounds k))) ! i"
    using i nth round_key_invert_schedule [OF assms, of "i + 1" m] by (simp add: rev_nth)
qed simp

section \<open>The two builds compute the same schedules\<close>

lemma rot_sub_eq: "rot_sub_te4 = rot_sub_te" and sub_eq: "sub_te4 = sub_te"
  by (simp_all add: fun_eq_iff rot_sub_te_def rot_sub_te4_def sub_te_def sub_te4_def unat_bytes
      table_lookup sbox_def [symmetric] word_eq_bytes byte_simps)

lemma inv_mix_td_col: "inv_mix_td = inv_mix_col"
proof
  fix w
  have index: "unat (Te1 ! unat b AND 0xff) = unat (sbox b)" for b
    by (simp add: table_lookup unat_bytes byte_simps)
  show "inv_mix_td w = inv_mix_col w"
    unfolding inv_mix_td_def unat_bytes(1-3) unat_bytes(4) [of w] index
    by (simp add: table_lookup inv_mix_col_def Let_def word_eq_bytes byte_simps ac_simps)
qed

text \<open>Doubling four bytes in one word: the carries stay inside their bytes.\<close>

lemma high_bits_word:
  "tp AND 0x80808080 = word_of_bytes (byte3 tp AND 0x80) (byte2 tp AND 0x80) (byte1 tp AND 0x80) (byte0 tp AND 0x80)"
proof -
  have "byte3 0x80808080 = 0x80" "byte2 0x80808080 = 0x80" "byte1 0x80808080 = 0x80" "byte0 0x80808080 = 0x80"
    by (simp_all add: byte_defs)
  then show ?thesis by (simp add: word_eq_bytes byte_simps)
qed

lemma and_80: "(b :: byte) AND 0x80 = (if bit b 7 then 0x80 else 0)"
proof (rule bit_word_eqI)
  fix n :: nat assume "n < LENGTH(8)"
  then have "n \<in> {0, 1, 2, 3, 4, 5, 6, 7}" by auto
  then show "bit (b AND 0x80) n = bit (if bit b 7 then 0x80 else 0 :: byte) n"
    by (auto simp: bit_and_iff)
qed

lemma reduction_word:
  "(let m = word_of_bytes (if p then 0x80 else 0) (if q then 0x80 else 0) (if r then 0x80 else 0)
        (if s then 0x80 else 0)
    in (m - drop_bit 7 m) AND 0x1b1b1b1b)
   = word_of_bytes (if p then 0x1b else 0) (if q then 0x1b else 0) (if r then 0x1b else 0)
       (if s then 0x1b else 0)"
  by (cases p; cases q; cases r; cases s; simp add: word_of_bytes_def)

lemma bit_7f: "n < 32 \<Longrightarrow> bit (0x7f7f7f7f :: u32) n \<longleftrightarrow> n \<notin> {7, 15, 23, 31}"
proof -
  assume "n < 32"
  then have "n \<in> set [0..<32]" by simp
  then show ?thesis by (simp add: upt_rec) (elim disjE; simp)
qed

lemma bit_shifted:
  "bit (push_bit 1 (tp AND 0x7f7f7f7f) :: u32) m \<longleftrightarrow> 1 \<le> m \<and> m < 32 \<and> m \<notin> {8, 16, 24} \<and> bit tp (m - 1)"
proof (cases "1 \<le> m \<and> m < 32")
  case True
  then show ?thesis
    using bit_7f [of "m - 1"]
    by (auto simp: bit_push_bit_iff bit_and_iff simp del: push_bit_Suc push_bit_and)
next
  case False
  then show ?thesis
    using bit_imp_le_length [of "push_bit 1 (tp AND 0x7f7f7f7f) :: u32" m]
    by (auto simp: bit_push_bit_iff simp del: push_bit_Suc push_bit_and)
qed

lemma shifted_word:
  "byte3 (push_bit 1 (tp AND 0x7f7f7f7f)) = push_bit 1 (byte3 tp)"
  "byte2 (push_bit 1 (tp AND 0x7f7f7f7f)) = push_bit 1 (byte2 tp)"
  "byte1 (push_bit 1 (tp AND 0x7f7f7f7f)) = push_bit 1 (byte1 tp)"
  "byte0 (push_bit 1 (tp AND 0x7f7f7f7f)) = push_bit 1 (byte0 tp)"
  by (rule bit_word_eqI, unfold bit_bytes bit_shifted, unfold bit_push_bit_iff, (auto simp: bit_bytes)[1])+

lemma double4_bytes [byte_simps]:
  "byte3 (double4 w) = xtime (byte3 w)" "byte2 (double4 w) = xtime (byte2 w)"
  "byte1 (double4 w) = xtime (byte1 w)" "byte0 (double4 w) = xtime (byte0 w)"
proof -
  have "double4 w = push_bit 1 (w AND 0x7f7f7f7f)
      XOR word_of_bytes (if bit (byte3 w) 7 then 0x1b else 0) (if bit (byte2 w) 7 then 0x1b else 0)
        (if bit (byte1 w) 7 then 0x1b else 0) (if bit (byte0 w) 7 then 0x1b else 0)"
    unfolding double4_def high_bits_word and_80 by (simp only: reduction_word [unfolded Let_def] Let_def)
  then show "byte3 (double4 w) = xtime (byte3 w)" "byte2 (double4 w) = xtime (byte2 w)"
    "byte1 (double4 w) = xtime (byte1 w)" "byte0 (double4 w) = xtime (byte0 w)"
    by (simp_all only: byte_xor shifted_word byte_word_of_bytes xtime_def)
qed

lemma word_beyond: "32 \<le> n \<Longrightarrow> \<not> bit (w :: u32) n"
  using bit_imp_le_length [of w n] by auto

lemma byte_shifts [byte_simps]:
  "byte3 (drop_bit 8 w) = 0" "byte2 (drop_bit 8 w) = byte3 w" "byte1 (drop_bit 8 w) = byte2 w"
  "byte3 (drop_bit 16 w) = 0" "byte2 (drop_bit 16 w) = 0" "byte1 (drop_bit 16 w) = byte3 w"
  "byte3 (drop_bit 24 w) = 0" "byte2 (drop_bit 24 w) = 0" "byte1 (drop_bit 24 w) = 0"
  "byte3 (push_bit 8 w) = byte2 w" "byte2 (push_bit 8 w) = byte1 w" "byte1 (push_bit 8 w) = byte0 w"
  "byte0 (push_bit 8 w) = 0" "byte3 (push_bit 16 w) = byte1 w" "byte2 (push_bit 16 w) = byte0 w"
  "byte1 (push_bit 16 w) = 0" "byte0 (push_bit 16 w) = 0" "byte3 (push_bit 24 w) = byte0 w"
  "byte2 (push_bit 24 w) = 0" "byte1 (push_bit 24 w) = 0" "byte0 (push_bit 24 w) = 0"
  by (auto intro!: bit_word_eqI simp: bit_bytes bit_simps word_beyond)

lemma inv_mix_asm_col: "inv_mix_asm = inv_mix_col"
proof
  fix w
  show "inv_mix_asm w = inv_mix_col w"
    by (simp add: inv_mix_asm_def inv_mix_col_def Let_def word_eq_bytes byte_simps mul_defs ac_simps)
qed

section \<open>Keys that the set-up functions leave\<close>

lemma length_expand128 [simp]: "length (expand128 f rk p i) = length rk"
  by (induction f rk p i rule: expand128.induct) (subst expand128.simps, simp add: Let_def)

lemma length_expand192 [simp]: "length (expand192 f rk p i) = length rk"
  by (induction f rk p i rule: expand192.induct) (subst expand192.simps, simp add: Let_def)

lemma length_expand256 [simp]: "length (expand256 f g rk p i) = length rk"
  by (induction f g rk p i rule: expand256.induct) (subst expand256.simps, simp add: Let_def)

lemma schedule_ready:
  assumes "schedule f g uk bits (Some k) = (0, Some k')" "wf_AES_KEY k"
  shows "ready_key k'"
  using assms by (auto simp: schedule_def ready_key_def wf_AES_KEY_def Let_def split: option.splits if_splits)

lemma schedule_status: "schedule f g uk bits k = (st, k') \<Longrightarrow> st = 0 \<or> st = -1 \<and> k' = k \<or> st = -2 \<and> k' = k"
  by (auto simp: schedule_def Let_def split: option.splits if_splits)

lemma set_decrypt_key_inverts:
  assumes "AES_set_encrypt_key uk bits k = (0, Some ek)" "AES_set_decrypt_key uk bits k = (st, Some dk)"
  shows "dk = invert_schedule inv_mix_col ek"
  using assms by (simp add: AES_set_decrypt_key_def inv_mix_td_col)

section \<open>The round trip\<close>

text \<open>
  \<open>x i\<close> is the state before round key \<open>i\<close> is added; one decryption round turns the substituted and
  shifted state of round \<open>i + 1\<close> into that of round \<open>i\<close>.
\<close>

lemma td_round_undoes:
  "td_round (map_cols sub_col (shift_rows (te_round s k))) (map_cols inv_mix_col k)
     = map_cols sub_col (shift_rows s)"
  by (simp add: te_round_columns td_round_columns sub_shift_commute map_cols_comp inv_mix_add_key)

lemma td_rounds_undo:
  "foldl td_round (map_cols sub_col (shift_rows (foldl te_round s ks))) (map (map_cols inv_mix_col) (rev ks))
     = map_cols sub_col (shift_rows s)"
  by (induction ks rule: rev_induct) (simp_all add: td_round_undoes)

lemma decrypt_encrypt_inverted:
  assumes "ready_key k" "length b = 16"
  shows "AES_decrypt (invert_schedule inv_mix_col k) (AES_encrypt k b) = b"
proof -
  let ?d = "invert_schedule inv_mix_col k" and ?ks = "keys_at (rd_key k) 1 (rounds k)"
  let ?s = "add_key (load_state b) (round_key (rd_key k) 0)"
  have first: "round_key (rd_key ?d) 0 = round_key (rd_key k) (4 * rounds k)"
    and last: "round_key (rd_key ?d) (4 * rounds k) = round_key (rd_key k) 0"
    using round_key_invert_schedule [OF assms(1), of 0] round_key_invert_schedule [OF assms(1), of "rounds k"]
    by simp_all
  have keys: "foldl td_round (map_cols sub_col (shift_rows (foldl te_round s ?ks)))
      (keys_at (rd_key ?d) 1 (rounds k)) = map_cols sub_col (shift_rows s)" for s
    unfolding keys_at_invert_schedule [OF assms(1)] by (rule td_rounds_undo)
  have "AES_decrypt ?d (AES_encrypt k b)
      = store_state (td_last (map_cols sub_col (shift_rows ?s)) (round_key (rd_key k) 0))"
    using assms(1)
    by (simp add: AES_decrypt_fold ready_invert_schedule AES_encrypt_fold first last
        te_last_columns keys [unfolded One_nat_def])
  also have "\<dots> = b"
    using assms(2) by (simp add: td_last_columns sub_shift_commute map_cols_comp store_load)
  finally show ?thesis .
qed

end
