(* ===== verification/AesSpec.thy ===== *)
theory AesSpec
  imports AesInverse
begin

text \<open>
  The standard's own description of AES (FIPS-197: bytes of a state, key expansion by recurrence) and
  the refinement of the C code to it: the schedules that the loops write are the expanded key, and
  \<open>AES_encrypt\<close> is the cipher. The properties of the block cipher are here.
\<close>

section \<open>The cipher of the standard\<close>

text \<open>
  The state is the list of its 16 bytes, column by column: byte \<open>r\<close> of column \<open>c\<close> is entry
  \<open>4 c + r\<close>, as in the input block.
\<close>

definition fips_sub_bytes :: "byte list \<Rightarrow> byte list" where
  "fips_sub_bytes st = map sbox st"

definition fips_shift_rows :: "byte list \<Rightarrow> byte list" where
  "fips_shift_rows st = map (\<lambda>i. st ! (4 * ((i div 4 + i mod 4) mod 4) + i mod 4)) [0..<16]"

definition fips_mix_columns :: "byte list \<Rightarrow> byte list" where
  "fips_mix_columns st =
     map (\<lambda>i. let s = \<lambda>k. st ! (4 * (i div 4) + (i + k) mod 4)
              in xtime (s 0) XOR (xtime (s 1) XOR s 1) XOR s 2 XOR s 3) [0..<16]"

definition fips_add_round_key :: "byte list \<Rightarrow> byte list \<Rightarrow> byte list" where
  "fips_add_round_key st k = map2 (\<lambda>a b. a XOR b) st k"

text \<open>Round key \<open>j\<close> of a schedule \<open>w\<close> of words: the bytes of four words.\<close>

definition fips_round_key :: "(nat \<Rightarrow> u32) \<Rightarrow> nat \<Rightarrow> byte list" where
  "fips_round_key w j = concat (map (\<lambda>c. PUTU32 (w (4 * j + c))) [0..<4])"

definition fips_round :: "(nat \<Rightarrow> u32) \<Rightarrow> byte list \<Rightarrow> nat \<Rightarrow> byte list" where
  "fips_round w st j =
     fips_add_round_key (fips_mix_columns (fips_shift_rows (fips_sub_bytes st))) (fips_round_key w j)"

definition fips_cipher :: "(nat \<Rightarrow> u32) \<Rightarrow> nat \<Rightarrow> byte list \<Rightarrow> byte list" where
  "fips_cipher w Nr inp =
     fips_add_round_key
       (fips_shift_rows (fips_sub_bytes
         (foldl (fips_round w) (fips_add_round_key inp (fips_round_key w 0)) [1..<Nr])))
       (fips_round_key w Nr)"

text \<open>The key expansion: \<open>RotWord\<close>, \<open>SubWord\<close>, the round constants and the recurrence.\<close>

definition rot_word :: "u32 \<Rightarrow> u32" where
  "rot_word w = word_of_bytes (byte2 w) (byte1 w) (byte0 w) (byte3 w)"

definition fips_rcon :: "nat \<Rightarrow> u32" where
  "fips_rcon i = word_of_bytes ((xtime ^^ (i - 1)) 1) 0 0 0"

function fips_word :: "nat \<Rightarrow> byte list \<Rightarrow> nat \<Rightarrow> u32" where
  "fips_word Nk key i =
     (if i < Nk \<or> Nk = 0 then GETU32 (drop (4 * i) key)
      else
        (let temp = fips_word Nk key (i - 1)
         in fips_word Nk key (i - Nk) XOR
              (if i mod Nk = 0 then sub_col (rot_word temp) XOR fips_rcon (i div Nk)
               else if 6 < Nk \<and> i mod Nk = 4 then sub_col temp
               else temp)))"
  by pat_completeness auto
termination by (relation "measure (\<lambda>(Nk, key, i). i)") auto

declare fips_word.simps [simp del]

section \<open>The loops of the schedule write the expanded key\<close>

lemma rot_sub_spec: "rot_sub_te w = sub_col (rot_word w)" and sub_spec: "sub_te w = sub_col w"
  by (simp_all add: rot_sub_te_def sub_te_def sub_col_def rot_word_def unat_bytes table_lookup
      word_eq_bytes byte_simps)

lemma rcon_table: "rcon = map (\<lambda>i. fips_rcon (i + 1)) [0..<10]"
  by code_simp

lemma rcon_spec: "i < 10 \<Longrightarrow> rcon ! i = fips_rcon (i + 1)"
  by (simp add: rcon_table)

text \<open>Up to where the words in place are those of the recurrence.\<close>

definition expanded :: "nat \<Rightarrow> byte list \<Rightarrow> nat \<Rightarrow> u32 list \<Rightarrow> bool" where
  "expanded Nk key n rk \<longleftrightarrow> n \<le> length rk \<and> (\<forall>j<n. rk ! j = fips_word Nk key j)"

lemma expanded_step:
  "\<lbrakk>expanded Nk key n rk; n < length rk; v = fips_word Nk key n; m = Suc n\<rbrakk> \<Longrightarrow> expanded Nk key m (rk[n := v])"
  by (auto simp: expanded_def nth_list_update less_Suc_eq)

lemma expanded_nth: "expanded Nk key n rk \<Longrightarrow> j < n \<Longrightarrow> rk ! j = fips_word Nk key j"
  by (simp add: expanded_def)

lemma expanded_first:
  assumes "expanded Nk key n rk" "n < length rk" "0 < Nk" "n = Nk * (i + 1)" "i < 10"
    "a = n - Nk" "b = n - 1" "m = Suc n"
  shows "expanded Nk key m (rk[n := (rk ! a XOR rot_sub_te (rk ! b)) XOR rcon ! i])"
proof (rule expanded_step [OF assms(1,2) _ \<open>m = Suc n\<close>])
  have "Nk \<le> n" "n mod Nk = 0" "n div Nk = i + 1" "a < n" "b < n" using assms(3-7) by auto
  then show "(rk ! a XOR rot_sub_te (rk ! b)) XOR rcon ! i = fips_word Nk key n"
    using assms(3,5-7) unfolding fips_word.simps [of Nk key n]
    by (simp add: Let_def rot_sub_spec rcon_spec expanded_nth [OF assms(1)] ac_simps)
qed

lemma expanded_next:
  assumes "expanded Nk key n rk" "n < length rk" "0 < Nk" "Nk \<le> n" "n mod Nk \<noteq> 0" "\<not> (6 < Nk \<and> n mod Nk = 4)"
    "a = n - Nk" "b = n - 1" "m = Suc n"
  shows "expanded Nk key m (rk[n := rk ! a XOR rk ! b])"
proof (rule expanded_step [OF assms(1,2) _ \<open>m = Suc n\<close>])
  have "a < n" "b < n" using assms(3-8) by auto
  then show "rk ! a XOR rk ! b = fips_word Nk key n"
    using assms(3-8) unfolding fips_word.simps [of Nk key n]
    by (auto simp: Let_def expanded_nth [OF assms(1)])
qed

lemma expanded_mid:
  assumes "expanded 8 key n rk" "n < length rk" "8 \<le> n" "n mod 8 = 4" "a = n - 8" "b = n - 1" "m = Suc n"
  shows "expanded 8 key m (rk[n := rk ! a XOR sub_te (rk ! b)])"
proof (rule expanded_step [OF assms(1,2) _ \<open>m = Suc n\<close>])
  have "a < n" "b < n" using assms(3-6) by auto
  then show "rk ! a XOR sub_te (rk ! b) = fips_word 8 key n"
    using assms(3-6) unfolding fips_word.simps [of 8 key n]
    by (auto simp: Let_def expanded_nth [OF assms(1)] sub_spec)
qed

lemma expand128_expanded:
  "\<lbrakk>expanded 4 key (4 * i + 4) rk; length rk = 60; i < 10\<rbrakk> \<Longrightarrow>
     expanded 4 key 44 (expand128 rot_sub_te rk (4 * i) i)"
proof (induction "10 - i" arbitrary: i rk)
  case 0
  then show ?case by simp
next
  case (Suc n)
  let ?p = "4 * i"
  define r0 where "r0 = rk[?p + 4 := (rk ! ?p XOR rot_sub_te (rk ! (?p + 3))) XOR rcon ! i]"
  define r1 where "r1 = r0[?p + 5 := r0 ! (?p + 1) XOR r0 ! (?p + 4)]"
  define r2 where "r2 = r1[?p + 6 := r1 ! (?p + 2) XOR r1 ! (?p + 5)]"
  define r3 where "r3 = r2[?p + 7 := r2 ! (?p + 3) XOR r2 ! (?p + 6)]"
  have len: "length r0 = 60" "length r1 = 60" "length r2 = 60" "length r3 = 60"
    using Suc.prems by (simp_all add: r0_def r1_def r2_def r3_def)
  have mods: "(?p + 5) mod 4 \<noteq> 0" "(?p + 6) mod 4 \<noteq> 0" "(?p + 7) mod 4 \<noteq> 0"
    
    by presburger+
  have e0: "expanded 4 key (?p + 5) r0"
    unfolding r0_def by (rule expanded_first) (use Suc.prems in auto)
  have e1: "expanded 4 key (?p + 6) r1"
    unfolding r1_def by (rule expanded_next [OF e0]) (use Suc.prems len mods in auto)
  have e2: "expanded 4 key (?p + 7) r2"
    unfolding r2_def by (rule expanded_next [OF e1]) (use Suc.prems len mods in auto)
  have e3: "expanded 4 key (?p + 8) r3"
    unfolding r3_def by (rule expanded_next [OF e2]) (use Suc.prems len mods in auto)
  show ?case
  proof (cases "10 \<le> i + 1")
    case True
    then have "i = 9" using Suc.prems by simp
    then show ?thesis
      using e3 by (subst expand128.simps) (simp add: Let_def r0_def r1_def r2_def r3_def)
  next
    case False
    have "expanded 4 key (4 * (i + 1) + 4) r3" using e3 by (simp add: add.commute)
    then have "expanded 4 key 44 (expand128 rot_sub_te r3 (4 * (i + 1)) (i + 1))"
      using Suc.hyps(2) len False by (intro Suc.hyps(1)) auto
    then show ?thesis
      using False by (subst expand128.simps) (simp add: Let_def r0_def r1_def r2_def r3_def add.commute)
  qed
qed

lemma expand192_expanded:
  "\<lbrakk>expanded 6 key (6 * i + 6) rk; length rk = 60; i < 8\<rbrakk> \<Longrightarrow>
     expanded 6 key 52 (expand192 rot_sub_te rk (6 * i) i)"
proof (induction "8 - i" arbitrary: i rk)
  case 0
  then show ?case by simp
next
  case (Suc n)
  let ?p = "6 * i"
  define r0 where "r0 = rk[?p + 6 := (rk ! ?p XOR rot_sub_te (rk ! (?p + 5))) XOR rcon ! i]"
  define r1 where "r1 = r0[?p + 7 := r0 ! (?p + 1) XOR r0 ! (?p + 6)]"
  define r2 where "r2 = r1[?p + 8 := r1 ! (?p + 2) XOR r1 ! (?p + 7)]"
  define r3 where "r3 = r2[?p + 9 := r2 ! (?p + 3) XOR r2 ! (?p + 8)]"
  define r4 where "r4 = r3[?p + 10 := r3 ! (?p + 4) XOR r3 ! (?p + 9)]"
  define r5 where "r5 = r4[?p + 11 := r4 ! (?p + 5) XOR r4 ! (?p + 10)]"
  have len: "length r0 = 60" "length r1 = 60" "length r2 = 60" "length r3 = 60" "length r4 = 60" "length r5 = 60"
    using Suc.prems by (simp_all add: r0_def r1_def r2_def r3_def r4_def r5_def)
  have mods: "(?p + 7) mod 6 \<noteq> 0" "(?p + 8) mod 6 \<noteq> 0" "(?p + 9) mod 6 \<noteq> 0" "(?p + 10) mod 6 \<noteq> 0"
    "(?p + 11) mod 6 \<noteq> 0"
    by presburger+
  have e0: "expanded 6 key (?p + 7) r0"
    unfolding r0_def by (rule expanded_first) (use Suc.prems in auto)
  have e1: "expanded 6 key (?p + 8) r1"
    unfolding r1_def by (rule expanded_next [OF e0]) (use Suc.prems len mods in auto)
  have e2: "expanded 6 key (?p + 9) r2"
    unfolding r2_def by (rule expanded_next [OF e1]) (use Suc.prems len mods in auto)
  have e3: "expanded 6 key (?p + 10) r3"
    unfolding r3_def by (rule expanded_next [OF e2]) (use Suc.prems len mods in auto)
  show ?case
  proof (cases "8 \<le> i + 1")
    case True
    then have "i = 7" using Suc.prems by simp
    then show ?thesis
      using e3 by (subst expand192.simps) (simp add: Let_def r0_def r1_def r2_def r3_def)
  next
    case False
    have e4: "expanded 6 key (?p + 11) r4"
      unfolding r4_def by (rule expanded_next [OF e3]) (use Suc.prems len mods False in auto)
    have e5: "expanded 6 key (?p + 12) r5"
      unfolding r5_def by (rule expanded_next [OF e4]) (use Suc.prems len mods False in auto)
    have "expanded 6 key (6 * (i + 1) + 6) r5" using e5 by (simp add: add.commute)
    then have "expanded 6 key 52 (expand192 rot_sub_te r5 (6 * (i + 1)) (i + 1))"
      using Suc.hyps(2) len False by (intro Suc.hyps(1)) auto
    then show ?thesis
      using False by (subst expand192.simps) (simp add: Let_def r0_def r1_def r2_def r3_def r4_def r5_def add.commute)
  qed
qed

lemma expand256_expanded:
  "\<lbrakk>expanded 8 key (8 * i + 8) rk; length rk = 60; i < 7\<rbrakk> \<Longrightarrow>
     expanded 8 key 60 (expand256 rot_sub_te sub_te rk (8 * i) i)"
proof (induction "7 - i" arbitrary: i rk)
  case 0
  then show ?case by simp
next
  case (Suc n)
  let ?p = "8 * i"
  define r0 where "r0 = rk[?p + 8 := (rk ! ?p XOR rot_sub_te (rk ! (?p + 7))) XOR rcon ! i]"
  define r1 where "r1 = r0[?p + 9 := r0 ! (?p + 1) XOR r0 ! (?p + 8)]"
  define r2 where "r2 = r1[?p + 10 := r1 ! (?p + 2) XOR r1 ! (?p + 9)]"
  define r3 where "r3 = r2[?p + 11 := r2 ! (?p + 3) XOR r2 ! (?p + 10)]"
  define r4 where "r4 = r3[?p + 12 := r3 ! (?p + 4) XOR sub_te (r3 ! (?p + 11))]"
  define r5 where "r5 = r4[?p + 13 := r4 ! (?p + 5) XOR r4 ! (?p + 12)]"
  define r6 where "r6 = r5[?p + 14 := r5 ! (?p + 6) XOR r5 ! (?p + 13)]"
  define r7 where "r7 = r6[?p + 15 := r6 ! (?p + 7) XOR r6 ! (?p + 14)]"
  have len: "length r0 = 60" "length r1 = 60" "length r2 = 60" "length r3 = 60" "length r4 = 60" "length r5 = 60" "length r6 = 60" "length r7 = 60"
    using Suc.prems by (simp_all add: r0_def r1_def r2_def r3_def r4_def r5_def r6_def r7_def)
  have mods: "(?p + 9) mod 8 \<noteq> 0" "(?p + 10) mod 8 \<noteq> 0" "(?p + 11) mod 8 \<noteq> 0" "(?p + 12) mod 8 = 4"
    "(?p + 13) mod 8 \<noteq> 0" "(?p + 14) mod 8 \<noteq> 0" "(?p + 15) mod 8 \<noteq> 0" "(?p + 9) mod 8 \<noteq> 4" "(?p + 10) mod 8 \<noteq> 4" "(?p + 11) mod 8 \<noteq> 4" "(?p + 13) mod 8 \<noteq> 4" "(?p + 14) mod 8 \<noteq> 4" "(?p + 15) mod 8 \<noteq> 4"
    by presburger+
  have e0: "expanded 8 key (?p + 9) r0"
    unfolding r0_def by (rule expanded_first) (use Suc.prems in auto)
  have e1: "expanded 8 key (?p + 10) r1"
    unfolding r1_def by (rule expanded_next [OF e0]) (use Suc.prems len mods in auto)
  have e2: "expanded 8 key (?p + 11) r2"
    unfolding r2_def by (rule expanded_next [OF e1]) (use Suc.prems len mods in auto)
  have e3: "expanded 8 key (?p + 12) r3"
    unfolding r3_def by (rule expanded_next [OF e2]) (use Suc.prems len mods in auto)
  show ?case
  proof (cases "7 \<le> i + 1")
    case True
    then have "i = 6" using Suc.prems by simp
    then show ?thesis
      using e3 by (subst expand256.simps) (simp add: Let_def r0_def r1_def r2_def r3_def)
  next
    case False
    have e4: "expanded 8 key (?p + 13) r4"
      unfolding r4_def by (rule expanded_mid [OF e3]) (use Suc.prems len mods False in auto)
    have e5: "expanded 8 key (?p + 14) r5"
      unfolding r5_def by (rule expanded_next [OF e4]) (use Suc.prems len mods False in auto)
    have e6: "expanded 8 key (?p + 15) r6"
      unfolding r6_def by (rule expanded_next [OF e5]) (use Suc.prems len mods False in auto)
    have e7: "expanded 8 key (?p + 16) r7"
      unfolding r7_def by (rule expanded_next [OF e6]) (use Suc.prems len mods False in auto)
    have "expanded 8 key (8 * (i + 1) + 8) r7" using e7 by (simp add: add.commute)
    then have "expanded 8 key 60 (expand256 rot_sub_te sub_te r7 (8 * (i + 1)) (i + 1))"
      using Suc.hyps(2) len False by (intro Suc.hyps(1)) auto
    then show ?thesis
      using False by (subst expand256.simps) (simp add: Let_def r0_def r1_def r2_def r3_def r4_def r5_def r6_def r7_def add.commute)
  qed
qed

lemma schedule_expanded:
  assumes "AES_set_encrypt_key (Some uk) bits (Some k) = (0, Some k')" "wf_AES_KEY k" "bits = 32 * int Nk"
  shows "rounds k' = Nk + 6" "expanded Nk uk (4 * (Nk + 7)) (rd_key k')"
proof -
  have len: "length (rd_key k) = 60" using assms(2) by (simp add: wf_AES_KEY_def AES_MAXNR_def)
  have start: "expanded n uk m ((rd_key k)[0 := GETU32 uk, 1 := GETU32 (drop 4 uk), 2 := GETU32 (drop 8 uk),
      3 := GETU32 (drop 12 uk)])" if "m = 4" "4 \<le> n" for n m
    using len that by (auto simp: expanded_def fips_word.simps less_Suc_eq numeral_eq_Suc)
  have start6: "expanded n uk 6 ((rd_key k)[0 := GETU32 uk, 1 := GETU32 (drop 4 uk), 2 := GETU32 (drop 8 uk),
      3 := GETU32 (drop 12 uk), 4 := GETU32 (drop 16 uk), 5 := GETU32 (drop 20 uk)])" if "6 \<le> n" for n
    using len that by (intro expanded_step [OF expanded_step [OF start]]) (auto simp: fips_word.simps)
  have start8: "expanded 8 uk 8 ((rd_key k)[0 := GETU32 uk, 1 := GETU32 (drop 4 uk), 2 := GETU32 (drop 8 uk),
      3 := GETU32 (drop 12 uk), 4 := GETU32 (drop 16 uk), 5 := GETU32 (drop 20 uk), 6 := GETU32 (drop 24 uk),
      7 := GETU32 (drop 28 uk)])"
    using len by (intro expanded_step [OF expanded_step [OF start6]]) (auto simp: fips_word.simps)
  have "bits = 128 \<or> bits = 192 \<or> bits = 256"
    using assms(1) by (auto simp: AES_set_encrypt_key_def schedule_def split: if_splits)
  then have "Nk = 4 \<or> Nk = 6 \<or> Nk = 8" using assms(3) by auto
  then show "rounds k' = Nk + 6" "expanded Nk uk (4 * (Nk + 7)) (rd_key k')"
    using assms(1,3) expand128_expanded [of uk 0] expand192_expanded [of uk 0] expand256_expanded [of uk 0]
      start [of 4 4] start6 [of 6] start8 len
    by (auto simp: AES_set_encrypt_key_def schedule_def Let_def)
qed

section \<open>The rounds on bytes\<close>

lemma store_bytes: "store_state (a, b, c, d) =
   [byte3 a, byte2 a, byte1 a, byte0 a, byte3 b, byte2 b, byte1 b, byte0 b,
    byte3 c, byte2 c, byte1 c, byte0 c, byte3 d, byte2 d, byte1 d, byte0 d]"
  by (simp add: store_state_def PUTU32_bytes)

lemma upt16: "[0..<16] = [0, 1, 2, 3, 4, 5, 6, 7, 8, 9, 10, 11, 12, 13, 14, 15 :: nat]"
  by (simp add: upt_rec)

lemma store_sub: "store_state (map_cols sub_col s) = fips_sub_bytes (store_state s)"
  by (cases s) (simp add: store_bytes map_cols_def sub_col_def fips_sub_bytes_def byte_simps)

lemma store_shift: "store_state (shift_rows s) = fips_shift_rows (store_state s)"
  by (cases s) (simp add: store_bytes shift_rows_def fips_shift_rows_def upt16 byte_simps)

lemma store_mix: "store_state (map_cols mix_col s) = fips_mix_columns (store_state s)"
  by (cases s) (simp add: store_bytes map_cols_def mix_col_def fips_mix_columns_def upt16 byte_simps Let_def
      ac_simps)

lemma store_add: "store_state (add_key s k) = fips_add_round_key (store_state s) (store_state k)"
  by (cases s; cases k) (simp add: store_bytes add_key_def fips_add_round_key_def byte_simps)

lemma store_round_key:
  assumes "expanded Nk key n rk" "4 * j + 4 \<le> n"
  shows "store_state (round_key rk (4 * j)) = fips_round_key (fips_word Nk key) j"
  using assms(2) by (simp add: round_key_def store_state_def fips_round_key_def upt_rec
      numeral_3_eq_3 expanded_nth [OF assms(1)])

lemma store_te_round:
  assumes "expanded Nk key n rk" "4 * j + 4 \<le> n"
  shows "store_state (te_round s (round_key rk (4 * j))) = fips_round (fips_word Nk key) (store_state s) j"
  by (simp add: te_round_columns store_add store_mix store_shift store_sub sub_shift_commute fips_round_def
      store_round_key [OF assms])

lemma store_te_rounds:
  assumes "expanded Nk key n rk"
  shows "4 * m \<le> n \<Longrightarrow> store_state (foldl te_round s (keys_at rk 1 m))
     = foldl (fips_round (fips_word Nk key)) (store_state s) [1..<m]"
proof (induction m)
  case (Suc m)
  then show ?case by (cases "m = 0") (simp_all add: store_te_round [OF assms])
qed simp

section \<open>The block cipher is AES\<close>

lemma schedule_is_ready:
  assumes "wf_AES_KEY k" "AES_set_encrypt_key (Some uk) bits (Some k) = (0, Some ek)"
  shows "ready_key ek"
  using assms by (auto simp: AES_set_encrypt_key_def intro: schedule_ready)

lemma encrypt_cipher:
  assumes "wf_AES_KEY k" "AES_set_encrypt_key (Some uk) bits (Some k) = (0, Some ek)"
    "bits = 32 * int Nk" "length b = 16"
  shows "AES_encrypt ek b = fips_cipher (fips_word Nk uk) (Nk + 6) b"
proof -
  note e = schedule_expanded [OF assms(2,1,3)]
  show ?thesis
    using assms(4) e(1) store_te_rounds [OF e(2), of "Nk + 6"] store_round_key [OF e(2), of 0]
      store_round_key [OF e(2), of "Nk + 6"] schedule_is_ready [OF assms(1,2)]
    by (simp add: AES_encrypt_fold fips_cipher_def te_last_columns store_add store_shift store_sub
        sub_shift_commute store_load)
qed

lemma set_key_sizes:
  assumes "AES_set_encrypt_key (Some uk) bits (Some k) = (0, r)"
  obtains Nk where "bits = 32 * int Nk" "Nk \<in> {4, 6, 8}"
  using assms that [of 4] that [of 6] that [of 8]
  by (auto simp: AES_set_encrypt_key_def schedule_def split: if_splits)

text \<open>The words of a key structure that the set-up does not write play no part.\<close>

lemma decrypt_encrypt:
  assumes "wf_AES_KEY k" "wf_AES_KEY k'" "AES_set_encrypt_key (Some uk) bits (Some k) = (0, Some ek)"
    "AES_set_decrypt_key (Some uk) bits (Some k') = (0, Some dk)" "length b = 16"
  shows "AES_decrypt dk (AES_encrypt ek b) = b"
proof -
  obtain ek' where ek': "AES_set_encrypt_key (Some uk) bits (Some k') = (0, Some ek')"
    using assms(4) schedule_status [of rot_sub_te sub_te "Some uk" bits "Some k'"]
    by (auto simp: AES_set_decrypt_key_def AES_set_encrypt_key_def split: prod.splits if_splits)
  obtain Nk where "bits = 32 * int Nk" by (rule set_key_sizes [OF assms(3)])
  then have "AES_encrypt ek b = AES_encrypt ek' b"
    using encrypt_cipher [OF assms(1,3)] encrypt_cipher [OF assms(2) ek'] assms(5) by simp
  then show ?thesis
    using set_decrypt_key_inverts [OF ek' assms(4)]
      decrypt_encrypt_inverted [OF schedule_is_ready [OF assms(2) ek'] assms(5)] by simp
qed

lemma finite_blocks: "finite {b :: byte list. length b = 16}"
  using finite_lists_length_eq [of "UNIV :: byte set" 16] by simp

lemma encrypt_decrypt:
  assumes "wf_AES_KEY k" "wf_AES_KEY k'" "AES_set_encrypt_key (Some uk) bits (Some k) = (0, Some ek)"
    "AES_set_decrypt_key (Some uk) bits (Some k') = (0, Some dk)" "length b = 16"
  shows "AES_encrypt ek (AES_decrypt dk b) = b"
proof -
  let ?B = "{b :: byte list. length b = 16}"
  note de = decrypt_encrypt [OF assms(1-4)]
  have "inj_on (AES_encrypt ek) ?B" by (rule inj_on_inverseI [of _ "AES_decrypt dk"]) (simp add: de)
  moreover have "AES_encrypt ek ` ?B \<subseteq> ?B" by auto
  ultimately have "AES_encrypt ek ` ?B = ?B" by (intro endo_inj_surj finite_blocks)
  then obtain c where "length c = 16" "b = AES_encrypt ek c" using assms(5) by blast
  then show ?thesis by (simp add: de)
qed

text \<open>The example of FIPS-197, appendix C.1: an uninitialised key structure, the key and the block.\<close>

definition blank_key :: AES_KEY where
  "blank_key = \<lparr>rd_key = replicate 60 0, rounds = 0\<rparr>"

definition sample_key :: "byte list" where
  "sample_key = [0x00, 0x01, 0x02, 0x03, 0x04, 0x05, 0x06, 0x07, 0x08, 0x09, 0x0a, 0x0b, 0x0c, 0x0d, 0x0e, 0x0f]"

definition sample_block :: "byte list" where
  "sample_block = [0x00, 0x11, 0x22, 0x33, 0x44, 0x55, 0x66, 0x77, 0x88, 0x99, 0xaa, 0xbb, 0xcc, 0xdd, 0xee, 0xff]"

definition sample_schedule :: AES_KEY where
  "sample_schedule = the (snd (AES_set_encrypt_key (Some sample_key) 128 (Some blank_key)))"

lemma sample_facts:
  "wf_AES_KEY blank_key" "length sample_block = 16" "(128 :: int) = 32 * int 4"
  "AES_set_encrypt_key (Some sample_key) 128 (Some blank_key) = (0, Some sample_schedule)"
  by (simp_all add: wf_AES_KEY_def blank_key_def AES_MAXNR_def sample_block_def sample_schedule_def
      AES_set_encrypt_key_def schedule_def)

lemma sample_decrypt_key:
  "AES_set_decrypt_key (Some sample_key) 128 (Some blank_key)
     = (0, Some (invert_schedule inv_mix_td sample_schedule))"
  by (simp add: AES_set_decrypt_key_def sample_facts(4))

lemma schedule_none [simp]:
  "AES_set_encrypt_key None bits key = (-1, key)" "AES_set_encrypt_key uk bits None = (-1, None)"
  "AES_set_decrypt_key None bits key = (-1, key)" "AES_set_decrypt_key uk bits None = (-1, None)"
  by (simp_all add: AES_set_decrypt_key_def AES_set_encrypt_key_def schedule_def split: option.split)

lemma set_key_sizes_ok:
  assumes "wf_AES_KEY k" "bits = 32 * int Nk" "Nk \<in> {4, 6, 8}"
  obtains ek where "AES_set_encrypt_key (Some u) bits (Some k) = (0, Some ek)"
    "AES_set_decrypt_key (Some u) bits (Some k) = (0, Some (invert_schedule inv_mix_td ek))"
    "ready_key ek" "rounds ek = Nk + 6" "expanded Nk u (4 * (Nk + 7)) (rd_key ek)"
proof -
  obtain ek where ek: "AES_set_encrypt_key (Some u) bits (Some k) = (0, Some ek)"
    using assms(2,3) by (auto simp: AES_set_encrypt_key_def schedule_def Let_def)
  moreover from ek have "AES_set_decrypt_key (Some u) bits (Some k) = (0, Some (invert_schedule inv_mix_td ek))"
    by (simp add: AES_set_decrypt_key_def)
  ultimately show thesis
    using that schedule_expanded [OF ek assms(1,2)] schedule_is_ready [OF assms(1) ek] by blast
qed

section \<open>Properties\<close>

text \<open>C35: for a key of 128, 192 or 256 bits, \<open>AES_encrypt\<close> under the schedule that
  \<open>AES_set_encrypt_key\<close> leaves computes the FIPS-197 cipher of the block: the table look-ups, the
  rolled loop over two rounds and the schedule written in place refine the byte-wise description with
  its key expansion.\<close>

theorem AES_encrypt_is_fips:
  assumes "wf_AES_KEY k" "AES_set_encrypt_key (Some uk) bits (Some k) = (0, Some ek)"
    "bits = 32 * int Nk" "length b = 16"
  shows "AES_encrypt ek b = fips_cipher (fips_word Nk uk) (Nk + 6) b"
  by (rule encrypt_cipher [OF assms])

theorem AES_encrypt_is_fips_witness:
  "AES_encrypt sample_schedule sample_block = fips_cipher (fips_word 4 sample_key) 10 sample_block"
  using AES_encrypt_is_fips [OF sample_facts(1,4,3,2)] by simp

text \<open>C36: the key structures that \<open>AES_set_encrypt_key\<close> and \<open>AES_set_decrypt_key\<close> leave for the same
  user key (whatever the structures held before) make \<open>AES_decrypt\<close> and \<open>AES_encrypt\<close> inverse to each
  other on blocks of 16 bytes.\<close>

theorem AES_round_trip:
  assumes "wf_AES_KEY k" "wf_AES_KEY k'" "AES_set_encrypt_key (Some uk) bits (Some k) = (0, Some ek)"
    "AES_set_decrypt_key (Some uk) bits (Some k') = (0, Some dk)" "length b = 16"
  shows "AES_decrypt dk (AES_encrypt ek b) = b \<and> AES_encrypt ek (AES_decrypt dk b) = b"
  using decrypt_encrypt [OF assms] encrypt_decrypt [OF assms] by simp

theorem AES_round_trip_witness:
  "AES_decrypt (invert_schedule inv_mix_td sample_schedule) (AES_encrypt sample_schedule sample_block) = sample_block"
  using AES_round_trip [OF sample_facts(1,1,4) sample_decrypt_key sample_facts(2)] by simp

text \<open>The schedules of the build for \<open>AES_ASM\<close> (byte table \<open>Te4\<close>, inverse MixColumn of four bytes
  at once by masked arithmetic in one word) are those of the portable build, for every argument,
  null pointers and wrong key sizes included.\<close>

theorem AES_schedules_agree:
  "AES_set_encrypt_key_asm = AES_set_encrypt_key \<and> AES_set_decrypt_key_asm = AES_set_decrypt_key"
  unfolding fun_eq_iff AES_set_decrypt_key_asm_def AES_set_decrypt_key_def
  unfolding AES_set_encrypt_key_asm_def AES_set_encrypt_key_def rot_sub_eq sub_eq inv_mix_asm_col inv_mix_td_col
  by simp

text \<open>The \<open>FULL_UNROLL\<close> text of both directions computes what the rolled loop computes, for every
  key structure with 10, 12 or 14 rounds.\<close>

theorem AES_unrolled_agrees:
  assumes "ready_key k"
  shows "AES_encrypt_unrolled k b = AES_encrypt k b \<and> AES_decrypt_unrolled k b = AES_decrypt k b"
  by (simp add: AES_encrypt_unrolled_def AES_decrypt_unrolled_def AES_encrypt_def AES_decrypt_def
      unrolled_rounds_loop [OF assms])

theorem AES_unrolled_agrees_witness:
  "AES_encrypt_unrolled sample_schedule sample_block = AES_encrypt sample_schedule sample_block"
  using AES_unrolled_agrees [OF schedule_is_ready [OF sample_facts(1,4)]] by simp

text \<open>What the two set-up functions return: -1 for a null pointer, -2 for a key size other than
  128, 192 and 256 (the pointer check comes first), 0 otherwise; on an error the key structure is not
  touched, on success it has 60 words and 10, 12 or 14 rounds, with the words of the standard's key
  expansion in the schedule for encryption.\<close>

theorem AES_set_key_status:
  assumes "wf_AES_KEY k"
  shows "AES_set_encrypt_key None bits key = (-1, key) \<and> AES_set_encrypt_key uk bits None = (-1, None)
    \<and> AES_set_decrypt_key None bits key = (-1, key) \<and> AES_set_decrypt_key uk bits None = (-1, None)
    \<and> (if bits \<in> {128, 192, 256}
       then \<exists>ek dk Nk. bits = 32 * int Nk \<and> AES_set_encrypt_key (Some u) bits (Some k) = (0, Some ek)
         \<and> AES_set_decrypt_key (Some u) bits (Some k) = (0, Some dk) \<and> ready_key ek \<and> ready_key dk
         \<and> rounds ek = Nk + 6 \<and> rounds dk = Nk + 6 \<and> expanded Nk u (4 * (Nk + 7)) (rd_key ek)
       else AES_set_encrypt_key (Some u) bits (Some k) = (-2, Some k)
         \<and> AES_set_decrypt_key (Some u) bits (Some k) = (-2, Some k))"
proof -
  have sizes: ?thesis if Nk: "bits = 32 * int Nk" "Nk \<in> {4, 6, 8}" for Nk
  proof -
    obtain ek where ek: "AES_set_encrypt_key (Some u) bits (Some k) = (0, Some ek)"
      "AES_set_decrypt_key (Some u) bits (Some k) = (0, Some (invert_schedule inv_mix_td ek))"
      "ready_key ek" "rounds ek = Nk + 6" "expanded Nk u (4 * (Nk + 7)) (rd_key ek)"
      by (rule set_key_sizes_ok [OF assms Nk])
    have "bits \<in> {128, 192, 256}" using Nk by auto
    with ek Nk(1) ready_invert_schedule [OF ek(3), of inv_mix_td] show ?thesis by simp
  qed
  show ?thesis
  proof (cases "bits \<in> {128, 192, 256}")
    case True
    then show ?thesis using sizes [of 4] sizes [of 6] sizes [of 8] by auto
  next
    case False
    then show ?thesis
      by (simp add: AES_set_decrypt_key_def AES_set_encrypt_key_def schedule_def split: option.split)
  qed
qed

theorem AES_set_key_status_witness:
  "AES_set_encrypt_key (Some sample_key) 64 (Some blank_key) = (-2, Some blank_key)
   \<and> ready_key sample_schedule"
  using AES_set_key_status [OF sample_facts(1), of 64 None None sample_key]
    AES_set_key_status [OF sample_facts(1), of 128 None None sample_key] sample_facts(4) by auto

end
