(* ===== verification/BlockModes.thy ===== *)
theory BlockModes
  imports AesSpec
begin

text \<open>
  The modes that run a block cipher in both directions: CBC (\<open>crypto/modes/cbc128.c\<close>), the key wrap of
  RFC 3394 (\<open>crypto/modes/wrap128.c\<close>) and IGE (\<open>crypto/aes/aes_ige.c\<close>). A \<open>block128_f\<close> with its key is
  a function on blocks of 16 bytes. What the modes need of a cipher is the locale \<open>block_cipher\<close>,
  interpreted on AES with the keys that its two set-up functions leave.
\<close>

section \<open>The cipher under the modes\<close>

locale block_cipher =
  fixes enc dec :: "'k \<Rightarrow> byte list \<Rightarrow> byte list" and pair :: "'k \<Rightarrow> 'k \<Rightarrow> bool"
  assumes length_enc: "length (enc k b) = 16"
    and length_dec: "length (dec k b) = 16"
    and dec_enc: "pair ek dk \<Longrightarrow> length b = 16 \<Longrightarrow> dec dk (enc ek b) = b"
    and enc_dec: "pair ek dk \<Longrightarrow> length b = 16 \<Longrightarrow> enc ek (dec dk b) = b"

text \<open>Two key structures for one user key, from any structures the caller passed in.\<close>

definition aes_pair :: "AES_KEY \<Rightarrow> AES_KEY \<Rightarrow> bool" where
  "aes_pair ek dk \<longleftrightarrow> (\<exists>uk bits k k'. wf_AES_KEY k \<and> wf_AES_KEY k'
     \<and> AES_set_encrypt_key (Some uk) bits (Some k) = (0, Some ek)
     \<and> AES_set_decrypt_key (Some uk) bits (Some k') = (0, Some dk))"

interpretation aes: block_cipher AES_encrypt AES_decrypt aes_pair
  by unfold_locales (auto simp: aes_pair_def intro: decrypt_encrypt encrypt_decrypt)

lemma aes_pair_sample: "aes_pair sample_schedule (invert_schedule inv_mix_td sample_schedule)"
  unfolding aes_pair_def using sample_facts sample_decrypt_key by blast

section \<open>CBC\<close>

text \<open>
  \<open>inp\<close> is what the pointer \<open>in\<close> refers to and \<open>len\<close> the length argument; the list that a loop returns is
  what it writes from \<open>out\<close> on. The loops on \<open>size_t\<close> words XOR 16 bytes, as the loops on bytes do.
\<close>

function cbc_encrypt_blocks ::
  "(byte list \<Rightarrow> byte list) \<Rightarrow> byte list \<Rightarrow> nat \<Rightarrow> byte list \<Rightarrow> byte list \<times> byte list \<times> nat \<times> byte list"
where
  "cbc_encrypt_blocks block inp len iv =
     (if 16 \<le> len
      then let out = block (xor_bytes (take 16 inp) iv);
               (outs, r) = cbc_encrypt_blocks block (drop 16 inp) (len - 16) out
           in (out @ outs, r)
      else ([], inp, len, iv))"
  by pat_completeness auto
termination by (relation "measure (\<lambda>(block, inp, len, iv). len)") auto

text \<open>The tail: a block of fewer than 16 bytes is filled up with the bytes of \<open>iv\<close>.\<close>

function cbc_encrypt_tail ::
  "(byte list \<Rightarrow> byte list) \<Rightarrow> byte list \<Rightarrow> nat \<Rightarrow> byte list \<Rightarrow> byte list \<times> byte list"
where
  "cbc_encrypt_tail block inp len iv =
     (if 0 < len
      then let n = min 16 len;
               out = block (xor_bytes (take n inp) (take n iv) @ drop n iv)
           in if len \<le> 16 then (out, out)
              else let (outs, iv') = cbc_encrypt_tail block (drop 16 inp) (len - 16) out in (out @ outs, iv')
      else ([], iv))"
  by pat_completeness auto
termination by (relation "measure (\<lambda>(block, inp, len, iv). len)") auto

definition CRYPTO_cbc128_encrypt ::
  "(byte list \<Rightarrow> byte list) \<Rightarrow> byte list \<Rightarrow> nat \<Rightarrow> byte list \<Rightarrow> byte list \<times> byte list"
where
  "CRYPTO_cbc128_encrypt block inp len ivec =
     (let (out, inp, len, iv) = cbc_encrypt_blocks block inp len ivec;
          (out', iv) = cbc_encrypt_tail block inp len iv
      in (out @ out', iv))"

text \<open>Decryption with \<open>in != out\<close>.\<close>

function cbc_decrypt_blocks ::
  "(byte list \<Rightarrow> byte list) \<Rightarrow> byte list \<Rightarrow> nat \<Rightarrow> byte list \<Rightarrow> byte list \<times> byte list \<times> nat \<times> byte list"
where
  "cbc_decrypt_blocks block inp len iv =
     (if 16 \<le> len
      then let out = xor_bytes (block (take 16 inp)) iv;
               (outs, r) = cbc_decrypt_blocks block (drop 16 inp) (len - 16) (take 16 inp)
           in (out @ outs, r)
      else ([], inp, len, iv))"
  by pat_completeness auto
termination by (relation "measure (\<lambda>(block, inp, len, iv). len)") auto

text \<open>
  The tail decrypts a whole block of input for the last \<open>len\<close> bytes: the first loop moves \<open>min 16 len\<close>
  bytes of the input into \<open>ivec\<close>, the second one the others.
\<close>

function cbc_decrypt_tail ::
  "(byte list \<Rightarrow> byte list) \<Rightarrow> byte list \<Rightarrow> nat \<Rightarrow> byte list \<Rightarrow> byte list \<times> byte list"
where
  "cbc_decrypt_tail block inp len ivec =
     (if 0 < len
      then let tmp = block (take 16 inp);
               n = min 16 len;
               out = xor_bytes (take n tmp) (take n ivec);
               ivec = take n inp @ drop n ivec
           in if len \<le> 16 then (out, take n ivec @ drop n (take 16 inp))
              else let (outs, iv') = cbc_decrypt_tail block (drop 16 inp) (len - 16) ivec in (out @ outs, iv')
      else ([], ivec))"
  by pat_completeness auto
termination by (relation "measure (\<lambda>(block, inp, len, iv). len)") auto

definition CRYPTO_cbc128_decrypt ::
  "(byte list \<Rightarrow> byte list) \<Rightarrow> byte list \<Rightarrow> nat \<Rightarrow> byte list \<Rightarrow> byte list \<times> byte list"
where
  "CRYPTO_cbc128_decrypt block inp len ivec =
     (let (out, inp, len, iv) = cbc_decrypt_blocks block inp len ivec;
          (out', iv) = cbc_decrypt_tail block inp len iv
      in (out @ out', iv))"

text \<open>
  Decryption with \<open>in == out\<close>: one buffer \<open>buf\<close> that is read and overwritten at position \<open>p\<close>, the cipher's
  output in \<open>tmp\<close>, and the loop that saves each byte of the input in \<open>c\<close> before the output takes its place.
\<close>

primrec swap_in :: "nat \<Rightarrow> nat \<Rightarrow> byte list \<Rightarrow> byte list \<Rightarrow> byte list \<Rightarrow> byte list \<times> byte list" where
  "swap_in 0 p tmp buf ivec = (buf, ivec)"
| "swap_in (Suc n) p tmp buf ivec =
     (let (buf, ivec) = swap_in n p tmp buf ivec;
          c = buf ! (p + n);
          buf = buf[p + n := tmp ! n XOR ivec ! n]
      in (buf, ivec[n := c]))"

function cbc_decrypt_inplace_blocks ::
  "(byte list \<Rightarrow> byte list) \<Rightarrow> byte list \<Rightarrow> nat \<Rightarrow> nat \<Rightarrow> byte list \<Rightarrow> byte list \<times> nat \<times> nat \<times> byte list"
where
  "cbc_decrypt_inplace_blocks block buf p len ivec =
     (if 16 \<le> len
      then let tmp = block (take 16 (drop p buf));
               (buf, ivec) = swap_in 16 p tmp buf ivec
           in cbc_decrypt_inplace_blocks block buf (p + 16) (len - 16) ivec
      else (buf, p, len, ivec))"
  by pat_completeness auto
termination by (relation "measure (\<lambda>(block, buf, p, len, iv). len)") auto

primrec copy_rest :: "nat \<Rightarrow> nat \<Rightarrow> nat \<Rightarrow> byte list \<Rightarrow> byte list \<Rightarrow> byte list" where
  "copy_rest 0 n p buf ivec = ivec"
| "copy_rest (Suc k) n p buf ivec = copy_rest k (n + 1) p buf (ivec[n := buf ! (p + n)])"

function cbc_decrypt_inplace_tail ::
  "(byte list \<Rightarrow> byte list) \<Rightarrow> byte list \<Rightarrow> nat \<Rightarrow> nat \<Rightarrow> byte list \<Rightarrow> byte list \<times> byte list"
where
  "cbc_decrypt_inplace_tail block buf p len ivec =
     (if 0 < len
      then let tmp = block (take 16 (drop p buf));
               n = min 16 len;
               (buf, ivec) = swap_in n p tmp buf ivec
           in if len \<le> 16 then (buf, copy_rest (16 - n) n p buf ivec)
              else cbc_decrypt_inplace_tail block buf (p + 16) (len - 16) ivec
      else (buf, ivec))"
  by pat_completeness auto
termination by (relation "measure (\<lambda>(block, buf, p, len, iv). len)") auto

definition cbc128_decrypt_inplace ::
  "(byte list \<Rightarrow> byte list) \<Rightarrow> byte list \<Rightarrow> nat \<Rightarrow> byte list \<Rightarrow> byte list \<times> byte list"
where
  "cbc128_decrypt_inplace block buf len ivec =
     (let (buf, p, len, ivec) = cbc_decrypt_inplace_blocks block buf 0 len ivec
      in cbc_decrypt_inplace_tail block buf p len ivec)"

declare cbc_encrypt_blocks.simps [simp del] cbc_encrypt_tail.simps [simp del]
  cbc_decrypt_blocks.simps [simp del] cbc_decrypt_tail.simps [simp del]
  cbc_decrypt_inplace_blocks.simps [simp del] cbc_decrypt_inplace_tail.simps [simp del]

subsection \<open>The block loops are the tail loop at whole blocks\<close>

lemma xor_take: "xor_bytes (take n a) b = xor_bytes (take n a) (take n b)"
  by (rule nth_equalityI) auto

lemma cbc_encrypt_small:
  assumes "\<And>b. length (block b) = 16"
  shows "length iv = 16 \<Longrightarrow> CRYPTO_cbc128_encrypt block inp len iv = cbc_encrypt_tail block inp len iv"
proof (induction len arbitrary: inp iv rule: less_induct)
  case (less len)
  show ?case
  proof (cases "16 \<le> len")
    case True
    let ?out = "block (xor_bytes (take 16 inp) iv)"
    have "CRYPTO_cbc128_encrypt block inp len iv
        = (let (outs, iv') = CRYPTO_cbc128_encrypt block (drop 16 inp) (len - 16) ?out in (?out @ outs, iv'))"
      using True
      by (simp add: CRYPTO_cbc128_encrypt_def cbc_encrypt_blocks.simps [of block inp len] Let_def
          split: prod.split)
    also have "\<dots> = (let (outs, iv') = cbc_encrypt_tail block (drop 16 inp) (len - 16) ?out in (?out @ outs, iv'))"
      using True assms by (subst less.IH) simp_all
    also have "\<dots> = cbc_encrypt_tail block inp len iv"
      using True less.prems
      by (cases "len = 16") (simp_all add: cbc_encrypt_tail.simps [of block inp] cbc_encrypt_tail.simps [of block _ 0] Let_def)
    finally show ?thesis .
  next
    case False
    then show ?thesis by (simp add: CRYPTO_cbc128_encrypt_def cbc_encrypt_blocks.simps)
  qed
qed

text \<open>Whole blocks of input that a length needs.\<close>

abbreviation whole :: "nat \<Rightarrow> nat" where "whole len \<equiv> 16 * ((len + 15) div 16)"

lemma whole_step: "16 \<le> len \<Longrightarrow> whole len = 16 + whole (len - 16)"
  by (simp add: le_div_geq)

lemma whole_small: "0 < len \<Longrightarrow> len \<le> 16 \<Longrightarrow> whole len = 16"
proof -
  assume "0 < len" "len \<le> 16"
  then have "(len + 15) div 16 = 1" by (intro div_nat_eqI) auto
  then show ?thesis by simp
qed

lemma cbc_decrypt_small:
  assumes "\<And>b. length (block b) = 16"
  shows "length iv = 16 \<Longrightarrow> whole len \<le> length inp \<Longrightarrow>
    CRYPTO_cbc128_decrypt block inp len iv = cbc_decrypt_tail block inp len iv"
proof (induction len arbitrary: inp iv rule: less_induct)
  case (less len)
  show ?case
  proof (cases "16 \<le> len")
    case True
    have inp: "16 \<le> length inp" "whole (len - 16) \<le> length (drop 16 inp)"
      using less.prems whole_step [OF True] by auto
    let ?out = "xor_bytes (block (take 16 inp)) iv"
    have "CRYPTO_cbc128_decrypt block inp len iv
        = (let (outs, iv') = CRYPTO_cbc128_decrypt block (drop 16 inp) (len - 16) (take 16 inp) in (?out @ outs, iv'))"
      using True
      by (simp add: CRYPTO_cbc128_decrypt_def cbc_decrypt_blocks.simps [of block inp len] Let_def
          split: prod.split)
    also have "\<dots> = (let (outs, iv') = cbc_decrypt_tail block (drop 16 inp) (len - 16) (take 16 inp) in (?out @ outs, iv'))"
      using True inp by (subst less.IH) simp_all
    also have "\<dots> = cbc_decrypt_tail block inp len iv"
      using True less.prems assms
      by (cases "len = 16") (simp_all add: cbc_decrypt_tail.simps [of block inp] cbc_decrypt_tail.simps [of block _ 0] Let_def)
    finally show ?thesis .
  next
    case False
    then show ?thesis by (simp add: CRYPTO_cbc128_decrypt_def cbc_decrypt_blocks.simps)
  qed
qed

subsection \<open>Decryption undoes encryption, partial blocks included\<close>

context block_cipher
begin

lemma cbc_tail_round_trip:
  assumes pair: "pair ek dk"
  shows "length iv = 16 \<Longrightarrow> length inp = len \<Longrightarrow> cbc_encrypt_tail (enc ek) inp len iv = (c, iv') \<Longrightarrow>
    length c = whole len \<and> length iv' = 16 \<and> cbc_decrypt_tail (dec dk) c len iv = (inp, iv')"
proof (induction len arbitrary: inp iv c iv' rule: less_induct)
  case (less len)
  let ?n = "min 16 len"
  let ?x = "xor_bytes (take ?n inp) (take ?n iv) @ drop ?n iv"
  have x: "length ?x = 16" using less.prems by auto
  have undo: "xor_bytes (take ?n ?x) (take ?n iv) = take ?n inp"
    using less.prems by (simp add: xor_bytes_cancel)
  consider "len = 0" | "0 < len" "len \<le> 16" | "16 < len" by linarith
  then show ?case
  proof cases
    case 1
    then show ?thesis using less.prems by (simp add: cbc_encrypt_tail.simps cbc_decrypt_tail.simps)
  next
    case 2
    then have c: "c = enc ek ?x" "iv' = c"
      using less.prems by (auto simp: cbc_encrypt_tail.simps Let_def)
    have "cbc_decrypt_tail (dec dk) (enc ek ?x) len iv = (inp, enc ek ?x)"
      using 2 less.prems(1,2) undo
      by (subst cbc_decrypt_tail.simps) (simp add: Let_def dec_enc [OF pair] length_enc)
    then show ?thesis
      using 2 c by (simp add: whole_small length_enc)
  next
    case 3
    let ?out = "enc ek ?x"
    obtain cs where cs: "cbc_encrypt_tail (enc ek) (drop 16 inp) (len - 16) ?out = (cs, iv')" "c = ?out @ cs"
      using 3 less.prems(3) by (auto simp: cbc_encrypt_tail.simps [of _ inp len] Let_def split: prod.splits)
    then have IH: "length cs = whole (len - 16)" "length iv' = 16"
        "cbc_decrypt_tail (dec dk) cs (len - 16) ?out = (drop 16 inp, iv')"
      using less.IH [of "len - 16" ?out "drop 16 inp" cs iv'] less.prems 3 length_enc by auto
    have "cbc_decrypt_tail (dec dk) (?out @ cs) len iv = (take 16 inp @ drop 16 inp, iv')"
      using 3 IH(3) undo less.prems(1,2)
      by (subst cbc_decrypt_tail.simps) (simp add: Let_def dec_enc [OF pair] length_enc)
    then show ?thesis
      using 3 IH cs(2) whole_step [of len] length_enc by simp
  qed
qed

lemma cbc_round_trip:
  assumes "pair ek dk" "length iv = 16" "length inp = len"
    "CRYPTO_cbc128_encrypt (enc ek) inp len iv = (c, iv')"
  shows "length c = whole len" "CRYPTO_cbc128_decrypt (dec dk) c len iv = (inp, iv')"
  using cbc_tail_round_trip [OF assms(1-3), of c iv'] assms(2,4) length_enc length_dec
  by (simp_all add: cbc_encrypt_small cbc_decrypt_small)

end

subsection \<open>Decryption in place\<close>

lemma length_swap_in:
  "swap_in n p tmp buf ivec = (b, iv) \<Longrightarrow> length b = length buf \<and> length iv = length ivec"
  by (induction n arbitrary: b iv) (auto simp: Let_def split: prod.splits)

lemma swap_in_nth:
  "\<lbrakk>p + n \<le> length buf; n \<le> length ivec; swap_in n p tmp buf ivec = (b, iv)\<rbrakk> \<Longrightarrow>
     (\<forall>i. b ! i = (if p \<le> i \<and> i < p + n then tmp ! (i - p) XOR ivec ! (i - p) else buf ! i))
   \<and> (\<forall>i. iv ! i = (if i < n then buf ! (p + i) else ivec ! i))"
proof (induction n arbitrary: b iv)
  case (Suc n)
  obtain b1 iv1 where 1: "swap_in n p tmp buf ivec = (b1, iv1)" by fastforce
  note IH = Suc.IH [OF _ _ 1] length_swap_in [OF 1]
  have "b = b1[p + n := tmp ! n XOR iv1 ! n]" "iv = iv1[n := b1 ! (p + n)]"
    using Suc.prems(3) 1 by (simp_all add: Let_def)
  then show ?case
    using IH Suc.prems(1,2) by (auto simp: nth_list_update)
qed auto

lemma swap_in_split:
  assumes "length tmp = 16" "length ivec = 16" "n \<le> 16" "p + n \<le> length buf"
  shows "swap_in n p tmp buf ivec =
    (take p buf @ xor_bytes (take n tmp) (take n ivec) @ drop (p + n) buf,
     take n (drop p buf) @ drop n ivec)"
proof -
  obtain b iv where r: "swap_in n p tmp buf ivec = (b, iv)" by fastforce
  have lens: "length b = length buf" "length iv = length ivec" using length_swap_in [OF r] by auto
  note nth = swap_in_nth [OF assms(4) _ r]
  have "b = take p buf @ xor_bytes (take n tmp) (take n ivec) @ drop (p + n) buf"
    using nth assms lens by (intro nth_equalityI) (auto simp: nth_append)
  moreover have "iv = take n (drop p buf) @ drop n ivec"
    using nth assms lens by (intro nth_equalityI) (auto simp: nth_append)
  ultimately show ?thesis using r by simp
qed

lemma copy_rest_split:
  "\<lbrakk>n + k = length ivec; p + n + k \<le> length buf\<rbrakk> \<Longrightarrow>
     copy_rest k n p buf ivec = take n ivec @ take k (drop (p + n) buf)"
proof (induction k arbitrary: n ivec)
  case (Suc k)
  have "copy_rest (Suc k) n p buf ivec
      = take (n + 1) (ivec[n := buf ! (p + n)]) @ take k (drop (p + (n + 1)) buf)"
    using Suc.prems Suc.IH [of "n + 1" "ivec[n := buf ! (p + n)]"] by simp
  also have "\<dots> = take n ivec @ take (Suc k) (drop (p + n) buf)"
    using Suc.prems Cons_nth_drop_Suc [of "p + n" buf]
    by (simp add: take_Suc_conv_app_nth flip: Cons_nth_drop_Suc)
  finally show ?case .
qed simp

text \<open>The buffer after decryption in place holds what decryption into another buffer writes.\<close>

lemma inplace_tail:
  assumes "\<And>b. length (block b) = 16"
  shows "length iv = 16 \<Longrightarrow> p + whole len \<le> length buf \<Longrightarrow>
    cbc_decrypt_inplace_tail block buf p len iv =
      (let (out, iv') = cbc_decrypt_tail block (drop p buf) len iv in (take p buf @ out @ drop (p + len) buf, iv'))
    \<and> length (fst (cbc_decrypt_tail block (drop p buf) len iv)) = len"
proof (induction len arbitrary: buf p iv rule: less_induct)
  case (less len)
  let ?n = "min 16 len" and ?tmp = "block (take 16 (drop p buf))"
  consider "len = 0" | "0 < len" "len \<le> 16" | "16 < len" by linarith
  then show ?case
  proof cases
    case 1
    then show ?thesis by (simp add: cbc_decrypt_inplace_tail.simps cbc_decrypt_tail.simps)
  next
    case 2
    then have len: "p + 16 \<le> length buf" using less.prems(2) by (simp add: whole_small)
    let ?iv = "take len (drop p buf) @ drop len iv"
    let ?buf = "take p buf @ xor_bytes (take len ?tmp) (take len iv) @ drop (p + len) buf"
    have swap: "swap_in len p ?tmp buf iv = (?buf, ?iv)"
      using 2 len less.prems(1) assms by (intro swap_in_split) auto
    have "copy_rest (16 - len) len p ?buf ?iv = take len (drop p buf) @ take (16 - len) (drop (p + len) ?buf)"
      using 2 len less.prems(1) assms by (subst copy_rest_split) auto
    also have "drop (p + len) ?buf = drop (p + len) buf"
      using 2 len less.prems(1) assms by simp
    finally show ?thesis
      using 2 len less.prems(1) assms swap
      by (simp add: cbc_decrypt_inplace_tail.simps cbc_decrypt_tail.simps Let_def drop_take add.commute)
  next
    case 3
    have len: "p + 16 \<le> length buf" "p + 16 + whole (len - 16) \<le> length buf"
      using less.prems(2) 3 whole_step [of len] by auto
    let ?out = "xor_bytes ?tmp iv"
    let ?buf = "take p buf @ ?out @ drop (p + 16) buf"
    have swap: "swap_in 16 p ?tmp buf iv = (?buf, take 16 (drop p buf))"
      using swap_in_split [of ?tmp iv 16 p buf] len less.prems(1) assms by simp
    have drops: "drop (p + 16) ?buf = drop (p + 16) buf" "take (p + 16) ?buf = take p buf @ ?out"
      "drop (p + 16 + (len - 16)) ?buf = drop (p + len) buf"
      using len 3 less.prems(1) assms by (simp_all add: add.commute)
    obtain outs iv' where outs: "cbc_decrypt_tail block (drop (p + 16) buf) (len - 16) (take 16 (drop p buf)) = (outs, iv')"
      by fastforce
    have "cbc_decrypt_inplace_tail block buf p len iv
        = cbc_decrypt_inplace_tail block ?buf (p + 16) (len - 16) (take 16 (drop p buf))"
      using 3 swap by (subst cbc_decrypt_inplace_tail.simps) (simp add: Let_def)
    also have "\<dots> = (take p buf @ ?out @ outs @ drop (p + len) buf, iv')"
      using less.IH [of "len - 16" "take 16 (drop p buf)" "p + 16" ?buf] 3 len less.prems(1) assms outs
      unfolding drops by simp
    finally have "cbc_decrypt_inplace_tail block buf p len iv = (take p buf @ ?out @ outs @ drop (p + len) buf, iv')" .
    moreover have "length outs = len - 16"
      using less.IH [of "len - 16" "take 16 (drop p buf)" "p + 16" ?buf] 3 len less.prems(1) assms outs
      unfolding drops by simp
    moreover have "cbc_decrypt_tail block (drop p buf) len iv = (?out @ outs, iv')"
      using 3 outs assms less.prems(1) len
      by (subst cbc_decrypt_tail.simps) (simp add: Let_def add.commute)
    ultimately show ?thesis
      using 3 assms less.prems(1) by (simp add: add.commute)
  qed
qed

lemma inplace_blocks:
  assumes "\<And>b. length (block b) = 16"
  shows "length iv = 16 \<Longrightarrow> p + whole len \<le> length buf \<Longrightarrow>
    (let (buf, p, len, ivec) = cbc_decrypt_inplace_blocks block buf p len iv
     in cbc_decrypt_inplace_tail block buf p len ivec) = cbc_decrypt_inplace_tail block buf p len iv"
proof (induction len arbitrary: buf p iv rule: less_induct)
  case (less len)
  show ?case
  proof (cases "16 \<le> len")
    case True
    have room: "p + 16 + whole (len - 16) \<le> length buf"
      using less.prems(2) whole_step [OF True] by simp
    obtain buf' iv' where swap: "swap_in 16 p (block (take 16 (drop p buf))) buf iv = (buf', iv')" by fastforce
    have lens: "length buf' = length buf" "length iv' = 16"
      using length_swap_in [OF swap] less.prems(1) by auto
    have "cbc_decrypt_inplace_tail block buf p len iv = cbc_decrypt_inplace_tail block buf' (p + 16) (len - 16) iv'"
      using True swap by (cases "len = 16")
        (simp_all add: cbc_decrypt_inplace_tail.simps [of block buf] cbc_decrypt_inplace_tail.simps [of block _ _ 0] Let_def)
    moreover have "(let (buf, p, len, ivec) = cbc_decrypt_inplace_blocks block buf' (p + 16) (len - 16) iv'
        in cbc_decrypt_inplace_tail block buf p len ivec) = cbc_decrypt_inplace_tail block buf' (p + 16) (len - 16) iv'"
      using True room lens by (intro less.IH) auto
    ultimately show ?thesis
      using True swap by (subst cbc_decrypt_inplace_blocks.simps) (simp add: Let_def)
  next
    case False
    then show ?thesis by (subst cbc_decrypt_inplace_blocks.simps) simp
  qed
qed

lemma inplace_decrypt:
  assumes "\<And>b. length (block b) = 16" "length iv = 16" "whole len \<le> length buf"
  shows "cbc128_decrypt_inplace block buf len iv =
    (let (out, iv') = CRYPTO_cbc128_decrypt block buf len iv in (out @ drop len buf, iv'))"
  using inplace_blocks [OF assms(1), where p = 0] inplace_tail [OF assms(1), where p = 0]
    cbc_decrypt_small [OF assms(1)] assms(2,3)
  by (simp add: cbc128_decrypt_inplace_def)

section \<open>Properties of CBC\<close>



text \<open>Decryption in place (\<open>in == out\<close>, the loop that saves each input byte in \<open>c\<close>) leaves in the
  buffer what decryption into another buffer writes, with the bytes behind \<open>len\<close> untouched, and the same
  chaining value; both are the byte loop of \<open>OPENSSL_SMALL_FOOTPRINT\<close>, and so is encryption.\<close>

theorem cbc128_variants_agree:
  assumes "length iv = 16" "whole len \<le> length buf"
  shows "cbc128_decrypt_inplace (AES_decrypt k) buf len iv =
      (let (out, iv') = CRYPTO_cbc128_decrypt (AES_decrypt k) buf len iv in (out @ drop len buf, iv'))
    \<and> CRYPTO_cbc128_decrypt (AES_decrypt k) buf len iv = cbc_decrypt_tail (AES_decrypt k) buf len iv
    \<and> CRYPTO_cbc128_encrypt (AES_encrypt k) buf len iv = cbc_encrypt_tail (AES_encrypt k) buf len iv"
  by (simp add: inplace_decrypt [OF _ assms] cbc_decrypt_small [OF _ assms] cbc_encrypt_small [OF _ assms(1)])

theorem cbc128_variants_agree_witness:
  "cbc_decrypt_tail (AES_decrypt sample_schedule) (replicate 32 1) 20 (replicate 16 7)
     = CRYPTO_cbc128_decrypt (AES_decrypt sample_schedule) (replicate 32 1) 20 (replicate 16 7)"
  using cbc128_variants_agree [of "replicate 16 7" 20 "replicate 32 1" sample_schedule] by simp

end
