(* ===== verification/KeyWrap.thy ===== *)
theory KeyWrap
  imports BlockModes
begin

text \<open>
  The key wrap of RFC 3394 as \<open>crypto/modes/wrap128.c\<close> has it: the six passes over the registers in
  the output buffer, forwards and backwards, the size checks on \<open>size_t\<close> values and the comparison with
  the initial value.
\<close>

section \<open>The passes\<close>

definition default_iv :: "byte list" where
  "default_iv = [0xA6, 0xA6, 0xA6, 0xA6, 0xA6, 0xA6, 0xA6, 0xA6]"

definition CRYPTO128_WRAP_MAX :: nat where "CRYPTO128_WRAP_MAX = 2 ^ 31"

text \<open>\<open>A[7] ^= t\<close>, and the three bytes above it when \<open>t\<close> is larger than a byte.\<close>

definition xor_t :: "nat \<Rightarrow> byte list \<Rightarrow> byte list" where
  "xor_t t A =
     (let A = A[7 := A ! 7 XOR word_of_nat t]
      in if 0xff < t
         then let A = A[6 := A ! 6 XOR word_of_nat (t div 2 ^ 8)];
                  A = A[5 := A ! 5 XOR word_of_nat (t div 2 ^ 16)]
              in A[4 := A ! 4 XOR word_of_nat (t div 2 ^ 24)]
         else A)"

text \<open>
  \<open>A\<close> is the first half of the buffer \<open>B\<close>; \<open>r\<close> is the output from \<open>out + 8\<close> (wrap) or from \<open>out\<close>
  (unwrap), \<open>p\<close> the offset of the register \<open>R\<close> in it.
\<close>

definition wrap_step ::
  "(byte list \<Rightarrow> byte list) \<Rightarrow> nat \<Rightarrow> nat \<Rightarrow> byte list \<times> byte list \<Rightarrow> byte list \<times> byte list"
where
  "wrap_step block p t = (\<lambda>(A, r).
     let B = block (A @ take 8 (drop p r))
     in (xor_t t (take 8 B), take p r @ drop 8 B @ drop (p + 8) r))"

function wrap_pass ::
  "(byte list \<Rightarrow> byte list) \<Rightarrow> nat \<Rightarrow> nat \<Rightarrow> nat \<Rightarrow> byte list \<times> byte list \<Rightarrow> nat \<times> byte list \<times> byte list"
where
  "wrap_pass block inlen i t s =
     (if i < inlen then wrap_pass block inlen (i + 8) (t + 1) (wrap_step block i t s) else (t, s))"
  by pat_completeness auto
termination by (relation "measure (\<lambda>(block, inlen, i, t, s). inlen - i)") auto

primrec wrap_passes ::
  "nat \<Rightarrow> (byte list \<Rightarrow> byte list) \<Rightarrow> nat \<Rightarrow> nat \<Rightarrow> byte list \<times> byte list \<Rightarrow> byte list \<times> byte list"
where
  "wrap_passes 0 block inlen t s = s"
| "wrap_passes (Suc j) block inlen t s =
     (let (t, s) = wrap_pass block inlen 0 t s in wrap_passes j block inlen t s)"

text \<open>The result is the size that the function returns and what \<open>out\<close> holds (\<open>None\<close>: no output).\<close>

definition CRYPTO_128_wrap ::
  "(byte list \<Rightarrow> byte list) \<Rightarrow> byte list option \<Rightarrow> byte list \<Rightarrow> nat \<Rightarrow> nat \<times> byte list option"
where
  "CRYPTO_128_wrap block iv inp inlen =
     (if inlen mod 8 \<noteq> 0 \<or> inlen < 8 \<or> CRYPTO128_WRAP_MAX < inlen then (0, None)
      else
        (let iv = (case iv of None \<Rightarrow> default_iv | Some iv \<Rightarrow> iv);
             (A, r) = wrap_passes 6 block inlen 1 (take 8 iv, take inlen inp)
         in (inlen + 8, Some (A @ r))))"

definition unwrap_step ::
  "(byte list \<Rightarrow> byte list) \<Rightarrow> nat \<Rightarrow> nat \<Rightarrow> byte list \<times> byte list \<Rightarrow> byte list \<times> byte list"
where
  "unwrap_step block p t = (\<lambda>(A, r).
     let B = block (xor_t t A @ take 8 (drop p r))
     in (take 8 B, take p r @ drop 8 B @ drop (p + 8) r))"

function unwrap_pass ::
  "(byte list \<Rightarrow> byte list) \<Rightarrow> nat \<Rightarrow> nat \<Rightarrow> nat \<Rightarrow> byte list \<times> byte list \<Rightarrow> nat \<times> byte list \<times> byte list"
where
  "unwrap_pass block inlen i t s =
     (if i < inlen then unwrap_pass block inlen (i + 8) (t - 1) (unwrap_step block (inlen - 8 - i) t s)
      else (t, s))"
  by pat_completeness auto
termination by (relation "measure (\<lambda>(block, inlen, i, t, s). inlen - i)") auto

primrec unwrap_passes ::
  "nat \<Rightarrow> (byte list \<Rightarrow> byte list) \<Rightarrow> nat \<Rightarrow> nat \<Rightarrow> byte list \<times> byte list \<Rightarrow> byte list \<times> byte list"
where
  "unwrap_passes 0 block inlen t s = s"
| "unwrap_passes (Suc j) block inlen t s =
     (let (t, s) = unwrap_pass block inlen 0 t s in unwrap_passes j block inlen t s)"

text \<open>\<open>inlen -= 8\<close> wraps round for an input of fewer than eight bytes, and the size check then fails.\<close>

definition CRYPTO_128_unwrap ::
  "(byte list \<Rightarrow> byte list) \<Rightarrow> byte list option \<Rightarrow> byte list \<Rightarrow> nat \<Rightarrow> nat \<times> byte list option"
where
  "CRYPTO_128_unwrap block iv inp inlen =
     (let inlen = (inlen + 2 ^ 64 - 8) mod 2 ^ 64
      in if inlen mod 8 \<noteq> 0 \<or> inlen < 16 \<or> CRYPTO128_WRAP_MAX < inlen then (0, None)
         else
           (let (A, r) = unwrap_passes 6 block inlen (6 * (inlen div 8)) (take 8 inp, take inlen (drop 8 inp));
                iv = (case iv of None \<Rightarrow> default_iv | Some iv \<Rightarrow> iv)
            in if take 8 A \<noteq> take 8 iv then (0, None) else (inlen, Some r)))"

declare wrap_pass.simps [simp del] unwrap_pass.simps [simp del]

section \<open>The passes as folds over the steps\<close>

abbreviation steps :: "(nat \<Rightarrow> nat \<Rightarrow> 's \<Rightarrow> 's) \<Rightarrow> (nat \<times> nat) list \<Rightarrow> 's \<Rightarrow> 's" where
  "steps step pts s \<equiv> foldl (\<lambda>s (p, t). step p t s) s pts"

lemma wrap_pass_steps:
  "wrap_pass block (8 * n) (8 * i) t s
     = (t + (n - i), steps (wrap_step block) (map (\<lambda>k. (8 * k, t + (k - i))) [i..<n]) s)"
proof (induction "n - i" arbitrary: i t s)
  case 0
  then show ?case by (simp add: wrap_pass.simps)
next
  case (Suc m)
  then have "i < n" by simp
  have "wrap_pass block (8 * n) (8 * i) t s = wrap_pass block (8 * n) (8 * (i + 1)) (t + 1) (wrap_step block (8 * i) t s)"
    using \<open>i < n\<close> by (subst wrap_pass.simps) (simp add: algebra_simps)
  also have "\<dots> = (t + 1 + (n - (i + 1)), steps (wrap_step block) (map (\<lambda>k. (8 * k, t + 1 + (k - (i + 1)))) [i + 1..<n])
      (wrap_step block (8 * i) t s))"
    using Suc by (intro Suc.hyps(1)) simp
  also have "map (\<lambda>k. (8 * k, t + 1 + (k - (i + 1)))) [i + 1..<n] = map (\<lambda>k. (8 * k, t + (k - i))) [i + 1..<n]"
    by (rule map_cong) auto
  finally show ?case using \<open>i < n\<close> by (simp add: upt_conv_Cons)
qed

lemma unwrap_pass_steps:
  "unwrap_pass block (8 * n) (8 * i) t s
     = (t - (n - i), steps (unwrap_step block) (map (\<lambda>k. (8 * (n - 1 - k), t - (k - i))) [i..<n]) s)"
proof (induction "n - i" arbitrary: i t s)
  case 0
  then show ?case by (simp add: unwrap_pass.simps)
next
  case (Suc m)
  then have "i < n" by simp
  have "8 * n - 8 - 8 * i = 8 * (n - 1 - i)" by (simp add: algebra_simps)
  then have "unwrap_pass block (8 * n) (8 * i) t s
      = unwrap_pass block (8 * n) (8 * (i + 1)) (t - 1) (unwrap_step block (8 * (n - 1 - i)) t s)"
    using \<open>i < n\<close> by (subst unwrap_pass.simps) (simp add: algebra_simps)
  also have "\<dots> = (t - 1 - (n - (i + 1)), steps (unwrap_step block)
      (map (\<lambda>k. (8 * (n - 1 - k), t - 1 - (k - (i + 1)))) [i + 1..<n]) (unwrap_step block (8 * (n - 1 - i)) t s))"
    using Suc by (intro Suc.hyps(1)) simp
  also have "map (\<lambda>k. (8 * (n - 1 - k), t - 1 - (k - (i + 1)))) [i + 1..<n]
      = map (\<lambda>k. (8 * (n - 1 - k), t - (k - i))) [i + 1..<n]"
    by (rule map_cong) auto
  finally show ?case using \<open>i < n\<close> by (simp add: upt_conv_Cons)
qed

text \<open>The steps of pass \<open>j\<close> of \<open>n\<close> registers, numbered through all passes.\<close>

definition pass :: "nat \<Rightarrow> nat \<Rightarrow> (nat \<times> nat) list" where
  "pass n j = map (\<lambda>k. (8 * k, n * j + 1 + k)) [0..<n]"

lemma wrap_passes_steps:
  "wrap_passes m block (8 * n) (n * j + 1) s
     = steps (wrap_step block) (concat (map (pass n) [j..<j + m])) s"
proof (induction m arbitrary: j s)
  case (Suc m)
  have "wrap_pass block (8 * n) 0 (n * j + 1) s = (n * (j + 1) + 1, steps (wrap_step block) (pass n j) s)"
    using wrap_pass_steps [of block n 0 "n * j + 1" s] by (simp add: pass_def add.commute)
  then show ?case
    using Suc.IH [of "j + 1"] by (simp add: upt_conv_Cons del: upt_Suc)
qed simp

lemma unwrap_passes_steps:
  "unwrap_passes m block (8 * n) (n * m) s
     = steps (unwrap_step block) (rev (concat (map (pass n) [0..<m]))) s"
proof (induction m arbitrary: s)
  case (Suc m)
  have "unwrap_pass block (8 * n) 0 (n * Suc m) s = (n * m, steps (unwrap_step block) (rev (pass n m)) s)"
  proof -
    have "map (\<lambda>k. (8 * (n - 1 - k), n * Suc m - k)) [0..<n] = rev (pass n m)"
      by (rule nth_equalityI) (auto simp: pass_def rev_nth)
    then show ?thesis
      using unwrap_pass_steps [of block n 0 "n * Suc m" s] by simp
  qed
  then show ?case using Suc.IH by simp
qed simp

section \<open>Every step is undone\<close>

text \<open>Registers: eight bytes in \<open>A\<close>, \<open>8 n\<close> bytes in the buffer.\<close>

definition wrap_state :: "nat \<Rightarrow> byte list \<times> byte list \<Rightarrow> bool" where
  "wrap_state n = (\<lambda>(A, r). length A = 8 \<and> length r = 8 * n)"

lemma length_xor_t [simp]: "length (xor_t t A) = length A"
  by (simp add: xor_t_def Let_def)

lemma xor_t_twice: "length A = 8 \<Longrightarrow> xor_t t (xor_t t A) = A"
  by (rule nth_equalityI) (auto simp: xor_t_def Let_def nth_list_update)

lemma pass_bound: "(p, t) \<in> set (pass n j) \<Longrightarrow> p + 8 \<le> 8 * n"
  by (auto simp: pass_def)

context block_cipher
begin

lemma wrap_step_state: "wrap_state n s \<Longrightarrow> p + 8 \<le> 8 * n \<Longrightarrow> wrap_state n (wrap_step (enc k) p t s)"
  by (auto simp: wrap_state_def wrap_step_def Let_def length_enc)

lemma unwrap_wrap_step:
  assumes "pair ek dk" "wrap_state n s" "p + 8 \<le> 8 * n"
  shows "unwrap_step (dec dk) p t (wrap_step (enc ek) p t s) = s"
proof -
  obtain A r where s: "s = (A, r)" "length A = 8" "length r = 8 * n"
    using assms(2) by (cases s) (auto simp: wrap_state_def)
  let ?B = "enc ek (A @ take 8 (drop p r))"
  have B: "length ?B = 16" "dec dk ?B = A @ take 8 (drop p r)"
    using s assms by (simp_all add: length_enc dec_enc)
  have r: "take p r @ take 8 (drop p r) @ drop (p + 8) r = r"
    using s assms(3) by (metis add.commute append_take_drop_id drop_drop)
  have "xor_t t (xor_t t (take 8 ?B)) = take 8 ?B"
    using B(1) by (intro xor_t_twice) simp
  then show ?thesis
    using s assms(3) B r by (simp add: wrap_step_def unwrap_step_def Let_def)
qed

lemma unwrap_wrap_steps:
  assumes "pair ek dk"
  shows "\<lbrakk>\<And>p t. (p, t) \<in> set pts \<Longrightarrow> p + 8 \<le> 8 * n; wrap_state n s\<rbrakk> \<Longrightarrow>
    wrap_state n (steps (wrap_step (enc ek)) pts s)
    \<and> steps (unwrap_step (dec dk)) (rev pts) (steps (wrap_step (enc ek)) pts s) = s"
proof (induction pts arbitrary: s)
  case (Cons pt pts)
  obtain p t where pt: "pt = (p, t)" by fastforce
  have p: "p + 8 \<le> 8 * n" and rest: "\<And>p t. (p, t) \<in> set pts \<Longrightarrow> p + 8 \<le> 8 * n"
    using Cons.prems(1) pt by auto
  show ?case
    using Cons.IH [OF rest wrap_step_state [OF Cons.prems(2) p]] unwrap_wrap_step [OF assms Cons.prems(2) p] pt
    by simp
qed simp

lemma unwrap_wrap:
  assumes "pair ek dk" "length iv = 8" "length inp = inlen" "16 \<le> inlen" "inlen mod 8 = 0"
    "inlen \<le> CRYPTO128_WRAP_MAX" "ivo = Some iv \<or> ivo = None \<and> iv = default_iv"
  shows "\<exists>out. CRYPTO_128_wrap (enc ek) ivo inp inlen = (inlen + 8, Some out) \<and> length out = inlen + 8
    \<and> CRYPTO_128_unwrap (dec dk) ivo out (inlen + 8) = (inlen, Some inp)"
proof -
  obtain n where n: "inlen = 8 * n" using assms(5) by (metis mod_0_imp_dvd dvdE)
  let ?pts = "concat (map (pass n) [0..<6])"
  obtain A r where w: "steps (wrap_step (enc ek)) ?pts (iv, inp) = (A, r)" by fastforce
  have "wrap_state n (iv, inp)" using assms(2,3) n by (simp add: wrap_state_def)
  then have inv: "wrap_state n (A, r)" "steps (unwrap_step (dec dk)) (rev ?pts) (A, r) = (iv, inp)"
    using unwrap_wrap_steps [OF assms(1), of ?pts n "(iv, inp)"] w pass_bound by auto
  have lens: "length A = 8" "length r = inlen" using inv(1) n by (simp_all add: wrap_state_def)
  have iv: "(case ivo of None \<Rightarrow> default_iv | Some iv \<Rightarrow> iv) = iv" using assms(7) by auto
  have "inlen < 2 ^ 64" using assms(6) by (simp add: CRYPTO128_WRAP_MAX_def)
  then have sz: "(inlen + 8 + 2 ^ 64 - 8) mod 2 ^ 64 = inlen" by simp
  have fwd: "wrap_passes 6 (enc ek) inlen 1 (iv, inp) = (A, r)"
    using wrap_passes_steps [of 6 "enc ek" n 0 "(iv, inp)"] w n by simp
  have bwd: "unwrap_passes 6 (dec dk) inlen (6 * (inlen div 8)) (A, r) = (iv, inp)"
    using unwrap_passes_steps [of 6 "dec dk" n "(A, r)"] inv(2) n by (simp add: mult.commute)
  have "CRYPTO_128_wrap (enc ek) ivo inp inlen = (inlen + 8, Some (A @ r))"
    using assms(2-6) fwd iv by (simp add: CRYPTO_128_wrap_def Let_def)
  moreover have "CRYPTO_128_unwrap (dec dk) ivo (A @ r) (inlen + 8) = (inlen, Some inp)"
    using assms(2-6) bwd iv lens unfolding CRYPTO_128_unwrap_def sz by (simp add: Let_def)
  ultimately show ?thesis using lens by simp
qed

end

section \<open>Properties of the key wrap\<close>

text \<open>A key of at least 16 bytes, in units of eight and within the size limit, that
  \<open>CRYPTO_128_wrap\<close> wraps comes back from \<open>CRYPTO_128_unwrap\<close> with its length, for a given initial value
  and for the default one; the integrity check passes.\<close>

theorem key_wrap_round_trip:
  assumes "aes_pair ek dk" "length iv = 8" "length inp = inlen" "16 \<le> inlen" "inlen mod 8 = 0"
    "inlen \<le> CRYPTO128_WRAP_MAX" "ivo = Some iv \<or> ivo = None \<and> iv = default_iv"
  shows "\<exists>out. CRYPTO_128_wrap (AES_encrypt ek) ivo inp inlen = (inlen + 8, Some out) \<and> length out = inlen + 8
    \<and> CRYPTO_128_unwrap (AES_decrypt dk) ivo out (inlen + 8) = (inlen, Some inp)"
  by (rule aes.unwrap_wrap [OF assms])

theorem key_wrap_round_trip_witness:
  "\<exists>out. CRYPTO_128_unwrap (AES_decrypt (invert_schedule inv_mix_td sample_schedule)) None out 24
     = (16, Some sample_key)"
  using key_wrap_round_trip [OF aes_pair_sample, of default_iv sample_key 16 None]
  by (auto simp: default_iv_def sample_key_def CRYPTO128_WRAP_MAX_def)

text \<open>The two functions disagree on a key of eight bytes: wrapping accepts it and reports 16 bytes of
  output, and unwrapping refuses every 16-byte input whatever the cipher, the initial value and the
  bytes are.\<close>

theorem key_wrap_eight_bytes:
  "fst (CRYPTO_128_wrap block ivo inp 8) = 16 \<and> CRYPTO_128_unwrap block' ivo' out 16 = (0, None)"
  by (simp add: CRYPTO_128_wrap_def CRYPTO_128_unwrap_def CRYPTO128_WRAP_MAX_def Let_def split: prod.split)

text \<open>Which lengths the two functions accept: wrapping multiples of eight from 8 to \<open>2 ^ 31\<close>,
  unwrapping eight more than multiples of eight from 16 to \<open>2 ^ 31\<close>; an input of fewer than eight bytes,
  whose length wraps round in \<open>inlen -= 8\<close>, is refused.\<close>

theorem key_wrap_lengths:
  assumes "inlen < 2 ^ 64"
  shows "(fst (CRYPTO_128_wrap block ivo inp inlen) \<noteq> 0
      \<longleftrightarrow> inlen mod 8 = 0 \<and> 8 \<le> inlen \<and> inlen \<le> 2 ^ 31)
    \<and> (CRYPTO_128_unwrap block ivo inp inlen \<noteq> (0, None)
      \<longrightarrow> inlen mod 8 = 0 \<and> 24 \<le> inlen \<and> inlen \<le> 2 ^ 31 + 8
          \<and> fst (CRYPTO_128_unwrap block ivo inp inlen) = inlen - 8)"
proof -
  have "(inlen + 2 ^ 64 - 8) mod 2 ^ 64 = (if 8 \<le> inlen then inlen - 8 else inlen + 2 ^ 64 - 8)"
    using assms by (auto simp: le_mod_geq)
  moreover have "8 \<le> inlen \<Longrightarrow> (inlen - 8) mod 8 = inlen mod 8"
    by (simp add: le_mod_geq)
  ultimately show ?thesis
    using assms by (auto simp: CRYPTO_128_wrap_def CRYPTO_128_unwrap_def CRYPTO128_WRAP_MAX_def Let_def
        split: prod.splits if_splits)
qed

theorem key_wrap_lengths_witness:
  "CRYPTO_128_unwrap (AES_decrypt sample_schedule) None [] 3 = (0, None)"
  using key_wrap_lengths [of 3 "AES_decrypt sample_schedule" None "[]"] by auto

end
