(* ===== verification/IgeMode.thy ===== *)
theory IgeMode
  imports BlockModes
begin

text \<open>
  IGE and bi-directional IGE of \<open>crypto/aes/aes_ige.c\<close>. A failed \<open>OPENSSL_assert\<close> ends the program:
  \<open>None\<close>. The chaining values are the two halves of \<open>ivec\<close>; a pointer to one is the block it points to.
\<close>

section \<open>IGE\<close>

abbreviation block_at :: "nat \<Rightarrow> byte list \<Rightarrow> byte list" where
  "block_at p buf \<equiv> take 16 (drop p buf)"

definition put_block :: "nat \<Rightarrow> byte list \<Rightarrow> byte list \<Rightarrow> byte list" where
  "put_block p b buf = take p buf @ b @ drop (p + 16) buf"

text \<open>The branches for \<open>in != out\<close>: the blocks written, and the two chaining pointers at the end.\<close>

primrec ige_encrypt_far ::
  "(byte list \<Rightarrow> byte list) \<Rightarrow> nat \<Rightarrow> byte list \<Rightarrow> byte list \<Rightarrow> byte list \<Rightarrow> byte list \<times> byte list \<times> byte list"
where
  "ige_encrypt_far block 0 inp ivp iv2p = ([], ivp, iv2p)"
| "ige_encrypt_far block (Suc len) inp ivp iv2p =
     (let outp = block (xor_bytes (take 16 inp) ivp);
          outp = xor_bytes outp iv2p;
          (outs, r) = ige_encrypt_far block len (drop 16 inp) outp (take 16 inp)
      in (outp @ outs, r))"

primrec ige_decrypt_far ::
  "(byte list \<Rightarrow> byte list) \<Rightarrow> nat \<Rightarrow> byte list \<Rightarrow> byte list \<Rightarrow> byte list \<Rightarrow> byte list \<times> byte list \<times> byte list"
where
  "ige_decrypt_far block 0 inp ivp iv2p = ([], ivp, iv2p)"
| "ige_decrypt_far block (Suc len) inp ivp iv2p =
     (let tmp = xor_bytes (take 16 inp) iv2p;
          outp = block tmp;
          outp = xor_bytes outp ivp;
          (outs, r) = ige_decrypt_far block len (drop 16 inp) (take 16 inp) outp
      in (outp @ outs, r))"

text \<open>The branches for \<open>in == out\<close>, with the copies \<open>tmp\<close>, \<open>tmp2\<close>, \<open>iv\<close> and \<open>iv2\<close>.\<close>

primrec ige_encrypt_near ::
  "(byte list \<Rightarrow> byte list) \<Rightarrow> nat \<Rightarrow> nat \<Rightarrow> byte list \<Rightarrow> byte list \<Rightarrow> byte list \<Rightarrow> byte list \<times> byte list \<times> byte list"
where
  "ige_encrypt_near block 0 p buf iv iv2 = (buf, iv, iv2)"
| "ige_encrypt_near block (Suc len) p buf iv iv2 =
     (let tmp = block_at p buf;
          tmp2 = xor_bytes tmp iv;
          tmp2 = block tmp2;
          tmp2 = xor_bytes tmp2 iv2;
          buf = put_block p tmp2 buf
      in ige_encrypt_near block len (p + 16) buf tmp2 tmp)"

primrec ige_decrypt_near ::
  "(byte list \<Rightarrow> byte list) \<Rightarrow> nat \<Rightarrow> nat \<Rightarrow> byte list \<Rightarrow> byte list \<Rightarrow> byte list \<Rightarrow> byte list \<times> byte list \<times> byte list"
where
  "ige_decrypt_near block 0 p buf iv iv2 = (buf, iv, iv2)"
| "ige_decrypt_near block (Suc len) p buf iv iv2 =
     (let tmp = block_at p buf;
          tmp2 = tmp;
          tmp = xor_bytes tmp iv2;
          tmp = block tmp;
          tmp = xor_bytes tmp iv;
          buf = put_block p tmp buf
      in ige_decrypt_near block len (p + 16) buf tmp2 tmp)"

text \<open>
  \<open>AES_ige_encrypt\<close> with \<open>in != out\<close> and with \<open>in == out\<close>; the result is the output and the new \<open>ivec\<close>.
\<close>

definition AES_ige_encrypt ::
  "byte list \<Rightarrow> nat \<Rightarrow> AES_KEY \<Rightarrow> byte list \<Rightarrow> int \<Rightarrow> (byte list \<times> byte list) option"
where
  "AES_ige_encrypt inp len key ivec enc =
     (if (enc = 1 \<or> enc = 0) \<and> len mod 16 = 0
      then let (out, iv, iv2) =
                 (if enc = 1 then ige_encrypt_far (AES_encrypt key) else ige_decrypt_far (AES_decrypt key))
                   (len div 16) inp (take 16 ivec) (block_at 16 ivec)
           in Some (out, iv @ iv2)
      else None)"

definition AES_ige_encrypt_inplace ::
  "byte list \<Rightarrow> nat \<Rightarrow> AES_KEY \<Rightarrow> byte list \<Rightarrow> int \<Rightarrow> (byte list \<times> byte list) option"
where
  "AES_ige_encrypt_inplace buf len key ivec enc =
     (if (enc = 1 \<or> enc = 0) \<and> len mod 16 = 0
      then let (out, iv, iv2) =
                 (if enc = 1 then ige_encrypt_near (AES_encrypt key) else ige_decrypt_near (AES_decrypt key))
                   (len div 16) 0 buf (take 16 ivec) (block_at 16 ivec)
           in Some (out, iv @ iv2)
      else None)"

section \<open>Bi-directional IGE\<close>

text \<open>
  The forward pass writes the output; with \<open>in == out\<close> the copy \<open>prev\<close> is taken after the block has been
  overwritten. The backward pass runs over the output from its end; \<open>iv\<close> points to the block just
  written.
\<close>

primrec bi_forward ::
  "(byte list \<Rightarrow> byte list) \<Rightarrow> nat \<Rightarrow> byte list \<Rightarrow> byte list \<Rightarrow> byte list \<Rightarrow> byte list"
where
  "bi_forward block 0 inp iv iv2 = []"
| "bi_forward block (Suc n) inp iv iv2 =
     (let out = xor_bytes (block (xor_bytes (take 16 inp) iv)) iv2;
          prev = take 16 inp
      in out @ bi_forward block n (drop 16 inp) out prev)"

primrec bi_forward_inplace ::
  "(byte list \<Rightarrow> byte list) \<Rightarrow> nat \<Rightarrow> nat \<Rightarrow> byte list \<Rightarrow> byte list \<Rightarrow> byte list \<Rightarrow> byte list"
where
  "bi_forward_inplace block 0 p buf iv iv2 = buf"
| "bi_forward_inplace block (Suc n) p buf iv iv2 =
     (let buf = put_block p (xor_bytes (block_at p buf) iv) buf;
          buf = put_block p (block (block_at p buf)) buf;
          buf = put_block p (xor_bytes (block_at p buf) iv2) buf;
          iv = block_at p buf;
          prev = block_at p buf
      in bi_forward_inplace block n (p + 16) buf iv prev)"

primrec bi_backward ::
  "(byte list \<Rightarrow> byte list) \<Rightarrow> nat \<Rightarrow> byte list \<Rightarrow> byte list \<Rightarrow> byte list \<Rightarrow> byte list"
where
  "bi_backward block 0 buf iv iv2 = buf"
| "bi_backward block (Suc n) buf iv iv2 =
     (let p = 16 * n;
          tmp = block_at p buf;
          buf = put_block p (xor_bytes (block (xor_bytes (block_at p buf) iv)) iv2) buf
      in bi_backward block n buf (block_at p buf) tmp)"

text \<open>Decryption: backwards from the input into the output, then forwards over the output in place.\<close>

primrec bi_undo_backward ::
  "(byte list \<Rightarrow> byte list) \<Rightarrow> nat \<Rightarrow> byte list \<Rightarrow> byte list \<Rightarrow> byte list \<Rightarrow> byte list"
where
  "bi_undo_backward block 0 inp iv iv2 = []"
| "bi_undo_backward block (Suc n) inp iv iv2 =
     (let tmp2 = block_at (16 * n) inp;
          tmp = xor_bytes tmp2 iv2;
          out = xor_bytes (block tmp) iv
      in bi_undo_backward block n inp tmp2 out @ out)"

primrec bi_undo_forward ::
  "(byte list \<Rightarrow> byte list) \<Rightarrow> nat \<Rightarrow> byte list \<Rightarrow> byte list \<Rightarrow> byte list \<Rightarrow> byte list"
where
  "bi_undo_forward block 0 buf iv iv2 = []"
| "bi_undo_forward block (Suc n) buf iv iv2 =
     (let tmp2 = take 16 buf;
          tmp = xor_bytes tmp2 iv2;
          out = xor_bytes (block tmp) iv
      in out @ bi_undo_forward block n (drop 16 buf) tmp2 out)"

definition AES_bi_ige_encrypt ::
  "byte list \<Rightarrow> nat \<Rightarrow> AES_KEY \<Rightarrow> byte list \<Rightarrow> int \<Rightarrow> byte list option"
where
  "AES_bi_ige_encrypt inp len key ivec enc =
     (if (enc = 1 \<or> enc = 0) \<and> len mod 16 = 0
      then let n = len div 16
           in Some (if enc = 1
                then bi_backward (AES_encrypt key) n
                       (bi_forward (AES_encrypt key) n inp (take 16 ivec) (block_at 16 ivec))
                       (block_at 32 ivec) (block_at 48 ivec)
                else bi_undo_forward (AES_decrypt key) n
                       (bi_undo_backward (AES_decrypt key) n inp (block_at 32 ivec) (block_at 48 ivec))
                       (take 16 ivec) (block_at 16 ivec))
      else None)"

definition AES_bi_ige_encrypt_inplace :: "byte list \<Rightarrow> nat \<Rightarrow> AES_KEY \<Rightarrow> byte list \<Rightarrow> byte list" where
  "AES_bi_ige_encrypt_inplace buf len key ivec =
     (let n = len div 16
      in bi_backward (AES_encrypt key) n
           (bi_forward_inplace (AES_encrypt key) n 0 buf (take 16 ivec) (block_at 16 ivec))
           (block_at 32 ivec) (block_at 48 ivec))"

section \<open>Both directions are inverse\<close>

context block_cipher
begin

lemma ige_far_round_trip:
  assumes "pair ek dk"
  shows "\<lbrakk>length ivp = 16; length iv2p = 16; length inp = 16 * len;
      ige_encrypt_far (enc ek) len inp ivp iv2p = (out, iv, iv2)\<rbrakk> \<Longrightarrow>
    length out = 16 * len \<and> length iv = 16 \<and> length iv2 = 16
    \<and> ige_decrypt_far (dec dk) len out ivp iv2p = (inp, iv, iv2)"
proof (induction len arbitrary: inp ivp iv2p out)
  case (Suc len)
  let ?x = "xor_bytes (take 16 inp) ivp"
  let ?o = "xor_bytes (enc ek ?x) iv2p"
  have lens: "length ?x = 16" "length ?o = 16" using Suc.prems by (simp_all add: length_enc)
  have undo: "xor_bytes ?o iv2p = enc ek ?x" "xor_bytes ?x ivp = take 16 inp" "dec dk (enc ek ?x) = ?x"
    using Suc.prems lens by (simp_all add: xor_bytes_cancel length_enc dec_enc [OF assms])
  obtain outs where outs: "ige_encrypt_far (enc ek) len (drop 16 inp) ?o (take 16 inp) = (outs, iv, iv2)"
    "out = ?o @ outs"
    using Suc.prems(4) by (auto simp: Let_def split: prod.splits)
  have "length outs = 16 * len \<and> length iv = 16 \<and> length iv2 = 16
      \<and> ige_decrypt_far (dec dk) len outs ?o (take 16 inp) = (drop 16 inp, iv, iv2)"
    using Suc.prems lens outs(1) by (intro Suc.IH) auto
  then show ?case
    using lens undo outs(2) by (simp add: Let_def)
qed simp

lemma bi_forward_round_trip:
  assumes "pair ek dk"
  shows "\<lbrakk>length iv = 16; length iv2 = 16; length inp = 16 * n\<rbrakk> \<Longrightarrow>
    length (bi_forward (enc ek) n inp iv iv2) = 16 * n
    \<and> bi_undo_forward (dec dk) n (bi_forward (enc ek) n inp iv iv2) iv iv2 = inp"
proof (induction n arbitrary: inp iv iv2)
  case (Suc n)
  let ?x = "xor_bytes (take 16 inp) iv"
  let ?o = "xor_bytes (enc ek ?x) iv2"
  have lens: "length ?x = 16" "length ?o = 16" using Suc.prems by (simp_all add: length_enc)
  have undo: "xor_bytes ?o iv2 = enc ek ?x" "xor_bytes ?x iv = take 16 inp" "dec dk (enc ek ?x) = ?x"
    using Suc.prems lens by (simp_all add: xor_bytes_cancel length_enc dec_enc [OF assms])
  show ?case
    using Suc.IH [of ?o "take 16 inp" "drop 16 inp"] Suc.prems lens undo by (simp add: Let_def)
qed simp

lemma bi_backward_step:
  assumes "length a = 16 * n" "length t = 16" "length iv2 = 16" "length iv = 16"
    "x = xor_bytes (enc k (xor_bytes t iv)) iv2"
  shows "bi_backward (enc k) (Suc n) (a @ t @ b) iv iv2 = bi_backward (enc k) n (a @ x @ b) x t"
proof -
  have x: "length x = 16" using assms by (simp add: length_enc)
  have "block_at (16 * n) (a @ t @ b) = t" "put_block (16 * n) x (a @ t @ b) = a @ x @ b"
    "block_at (16 * n) (a @ x @ b) = x"
    using assms(1,2) x by (simp_all add: put_block_def)
  then show ?thesis
    by (simp only: bi_backward.simps Let_def assms(5) [symmetric])
qed

lemma bi_backward_append:
  "\<lbrakk>length a = 16 * n; length iv = 16; length iv2 = 16\<rbrakk> \<Longrightarrow>
     bi_backward (enc k) n (a @ b) iv iv2 = bi_backward (enc k) n a iv iv2 @ b"
proof (induction n arbitrary: a b iv iv2)
  case (Suc n)
  define c t where "c = take (16 * n) a" and "t = drop (16 * n) a"
  have a: "a = c @ t" "length c = 16 * n" "length t = 16"
    using Suc.prems(1) by (simp_all add: c_def t_def)
  let ?x = "xor_bytes (enc k (xor_bytes t iv)) iv2"
  have x: "length ?x = 16" using a Suc.prems by (simp add: length_enc)
  show ?case
    using bi_backward_step [OF a(2,3) Suc.prems(3,2) refl, of k] bi_backward_step [OF a(2,3) Suc.prems(3,2) refl, of k "[]"]
      Suc.IH [OF a(2) x a(3)] unfolding a(1) by simp
qed simp

lemma bi_undo_backward_append:
  "length a = 16 * n \<Longrightarrow> bi_undo_backward f n (a @ b) iv iv2 = bi_undo_backward f n a iv iv2"
proof (induction n arbitrary: a b iv iv2)
  case (Suc n)
  have take: "a = take (16 * n) a @ drop (16 * n) a" by simp
  have IH: "bi_undo_backward f n (a @ b) iv iv2 = bi_undo_backward f n (take (16 * n) a) iv iv2"
    "bi_undo_backward f n a iv iv2 = bi_undo_backward f n (take (16 * n) a) iv iv2" for iv iv2
    using Suc.IH [of "take (16 * n) a" "drop (16 * n) a @ b"] Suc.IH [of "take (16 * n) a" "drop (16 * n) a"]
      Suc.prems append_take_drop_id [of "16 * n" a] by (simp_all flip: append_assoc)
  then show ?case using Suc.prems by (simp add: Let_def)
qed simp

lemma bi_backward_round_trip:
  assumes "pair ek dk"
  shows "\<lbrakk>length iv = 16; length iv2 = 16; length a = 16 * n\<rbrakk> \<Longrightarrow>
    length (bi_backward (enc ek) n a iv iv2) = 16 * n
    \<and> bi_undo_backward (dec dk) n (bi_backward (enc ek) n a iv iv2) iv iv2 = a"
proof (induction n arbitrary: a iv iv2)
  case (Suc n)
  define c t where "c = take (16 * n) a" and "t = drop (16 * n) a"
  have a: "a = c @ t" "length c = 16 * n" "length t = 16"
    using Suc.prems(3) by (simp_all add: c_def t_def)
  let ?o = "xor_bytes (enc ek (xor_bytes t iv)) iv2"
  have o: "length ?o = 16" using a Suc.prems by (simp add: length_enc)
  have undo: "xor_bytes (dec dk (xor_bytes ?o iv2)) iv = t"
    using a Suc.prems by (simp add: xor_bytes_cancel length_enc dec_enc [OF assms])
  have r: "bi_backward (enc ek) (Suc n) a iv iv2 = bi_backward (enc ek) n c ?o t @ ?o"
    using bi_backward_step [OF a(2,3) Suc.prems(2,1) refl, of ek "[]"] bi_backward_append [OF a(2) o a(3), of ek ?o]
    unfolding a(1) by simp
  have IH: "length (bi_backward (enc ek) n c ?o t) = 16 * n"
      "bi_undo_backward (dec dk) n (bi_backward (enc ek) n c ?o t) ?o t = c"
    using Suc.IH [OF o a(3,2)] by auto
  then have "bi_undo_backward (dec dk) (Suc n) (bi_backward (enc ek) n c ?o t @ ?o) iv iv2 = c @ t"
    using o undo bi_undo_backward_append [OF IH(1), of "dec dk" ?o ?o t] by (simp add: Let_def)
  then show ?case using r IH o a(1) by simp
qed simp

end

text \<open>In place and into another buffer.\<close>

lemma block_at_put: "length b = 16 \<Longrightarrow> p + 16 \<le> length buf \<Longrightarrow> block_at p (put_block p b buf) = b"
  by (simp add: put_block_def)

lemma ige_encrypt_near_far:
  assumes "\<And>b. length (block b) = 16"
  shows "\<lbrakk>length iv = 16; length iv2 = 16; p + 16 * len \<le> length buf\<rbrakk> \<Longrightarrow>
    ige_encrypt_near block len p buf iv iv2 =
      (let (out, r) = ige_encrypt_far block len (drop p buf) iv iv2
       in (take p buf @ out @ drop (p + 16 * len) buf, r))"
proof (induction len arbitrary: p buf iv iv2)
  case (Suc len)
  let ?o = "xor_bytes (block (xor_bytes (block_at p buf) iv)) iv2"
  have o: "length ?o = 16" "length (block_at p buf) = 16" using Suc.prems assms by simp_all
  have put: "take (p + 16) (put_block p ?o buf) = take p buf @ ?o"
    "drop (p + 16) (put_block p ?o buf) = drop (p + 16) buf"
    "drop (p + 16 + 16 * len) (put_block p ?o buf) = drop (p + 16 * Suc len) buf"
    "p + 16 + 16 * len \<le> length (put_block p ?o buf)"
    using Suc.prems o by (simp_all add: put_block_def ac_simps)
  show ?case
    using Suc.IH [OF o put(4)] Suc.prems unfolding put(1-3)
    by (simp add: Let_def add.commute [of 16] split: prod.split)
qed simp

lemma ige_decrypt_near_far:
  assumes "\<And>b. length (block b) = 16"
  shows "\<lbrakk>length iv = 16; length iv2 = 16; p + 16 * len \<le> length buf\<rbrakk> \<Longrightarrow>
    ige_decrypt_near block len p buf iv iv2 =
      (let (out, r) = ige_decrypt_far block len (drop p buf) iv iv2
       in (take p buf @ out @ drop (p + 16 * len) buf, r))"
proof (induction len arbitrary: p buf iv iv2)
  case (Suc len)
  let ?o = "xor_bytes (block (xor_bytes (block_at p buf) iv2)) iv"
  have o: "length (block_at p buf) = 16" "length ?o = 16" using Suc.prems assms by simp_all
  have put: "take (p + 16) (put_block p ?o buf) = take p buf @ ?o"
    "drop (p + 16) (put_block p ?o buf) = drop (p + 16) buf"
    "drop (p + 16 + 16 * len) (put_block p ?o buf) = drop (p + 16 * Suc len) buf"
    "p + 16 + 16 * len \<le> length (put_block p ?o buf)"
    using Suc.prems o by (simp_all add: put_block_def ac_simps)
  show ?case
    using Suc.IH [OF o put(4)] Suc.prems unfolding put(1-3)
    by (simp add: Let_def add.commute [of 16] split: prod.split)
qed simp

section \<open>Properties of IGE\<close>

text \<open>For input of whole blocks, \<open>AES_ige_encrypt\<close> in the decryption direction undoes the
  encryption direction under the same initial values and leaves the same chaining values; working in
  place gives the same output and chaining values in both directions; any other direction argument or a
  length that is not a multiple of 16 fails the assertion.\<close>

theorem AES_ige_round_trip:
  assumes "aes_pair ek dk" "length ivec = 32" "length inp = len"
  shows "if len mod 16 = 0
    then \<exists>out iv'. AES_ige_encrypt inp len ek ivec 1 = Some (out, iv') \<and> length out = len
      \<and> AES_ige_encrypt out len dk ivec 0 = Some (inp, iv')
      \<and> AES_ige_encrypt_inplace inp len ek ivec 1 = Some (out, iv')
      \<and> AES_ige_encrypt_inplace out len dk ivec 0 = Some (inp, iv')
    else AES_ige_encrypt inp len ek ivec enc = None"
proof (cases "len mod 16 = 0")
  case True
  then have n: "length inp = 16 * (len div 16)" "len = 16 * (len div 16)"
    using assms(3) by auto
  have iv: "length (take 16 ivec) = 16" "length (block_at 16 ivec) = 16" using assms(2) by simp_all
  obtain out iv1 iv2 where far: "ige_encrypt_far (AES_encrypt ek) (len div 16) inp (take 16 ivec) (block_at 16 ivec)
      = (out, iv1, iv2)"
    by (metis prod_cases3)
  have undo: "length out = 16 * (len div 16)"  "ige_decrypt_far (AES_decrypt dk) (len div 16) out (take 16 ivec) (block_at 16 ivec) = (inp, iv1, iv2)"
    using aes.ige_far_round_trip [OF assms(1) iv n(1) far] by auto
  have "ige_encrypt_near (AES_encrypt ek) (len div 16) 0 inp (take 16 ivec) (block_at 16 ivec) = (out, iv1, iv2)"
    using ige_encrypt_near_far [OF length_AES_encrypt iv, of 0 "len div 16" inp] n far by simp
  moreover have "ige_decrypt_near (AES_decrypt dk) (len div 16) 0 out (take 16 ivec) (block_at 16 ivec) = (inp, iv1, iv2)"
    using ige_decrypt_near_far [OF length_AES_decrypt iv, of 0 "len div 16" out] n undo by simp
  ultimately show ?thesis
    using True far undo n by (simp add: AES_ige_encrypt_def AES_ige_encrypt_inplace_def)
next
  case False
  then show ?thesis by (simp add: AES_ige_encrypt_def)
qed

theorem AES_ige_round_trip_witness:
  "\<exists>out iv'. AES_ige_encrypt out 16 (invert_schedule inv_mix_td sample_schedule) (replicate 32 5) 0
     = Some (sample_block, iv')"
  using AES_ige_round_trip [OF aes_pair_sample, of "replicate 32 5" sample_block 16]
  by (auto simp: sample_facts(2))

text \<open>Bi-directional IGE decryption undoes its encryption for input of whole blocks, under the four
  initial values of \<open>ivec\<close>.\<close>

theorem AES_bi_ige_round_trip:
  assumes "aes_pair ek dk" "length ivec = 64" "length inp = len" "len mod 16 = 0"
  shows "\<exists>out. AES_bi_ige_encrypt inp len ek ivec 1 = Some out \<and> length out = len
    \<and> AES_bi_ige_encrypt out len dk ivec 0 = Some inp"
proof -
  have n: "length inp = 16 * (len div 16)" "len = 16 * (len div 16)" using assms(3,4) by auto
  have iv: "length (take 16 ivec) = 16" "length (block_at 16 ivec) = 16" "length (block_at 32 ivec) = 16"
    "length (block_at 48 ivec) = 16" using assms(2) by simp_all
  note fwd = aes.bi_forward_round_trip [OF assms(1) iv(1,2) n(1)]
  note bwd = aes.bi_backward_round_trip [OF assms(1) iv(3,4) conjunct1 [OF fwd]]
  show ?thesis using assms(4) n fwd bwd by (simp add: AES_bi_ige_encrypt_def Let_def)
qed

theorem AES_bi_ige_round_trip_witness:
  "\<exists>out. AES_bi_ige_encrypt out 16 (invert_schedule inv_mix_td sample_schedule) (replicate 64 5) 0 = Some sample_block"
  using AES_bi_ige_round_trip [OF aes_pair_sample, of "replicate 64 5" sample_block 16]
  by (auto simp: sample_facts(2))

text \<open>With \<open>in == out\<close> the forward pass of bi-directional IGE chains a block with the cipher text of
  the block before on both sides, since the copy of the plain text is taken after it was overwritten:
  each block is XORed with it before and after the cipher, where the pass into another buffer XORs the
  plain text of the block before after the cipher.\<close>

theorem bi_ige_inplace_chains_output:
  assumes "length iv = 16" "length a = 16" "length b = 16" "length iv2 = 16"
  shows "bi_forward_inplace (AES_encrypt k) 2 0 (a @ b) iv iv2 =
      (let c = xor_bytes (AES_encrypt k (xor_bytes a iv)) iv2 in c @ xor_bytes (AES_encrypt k (xor_bytes b c)) c)
    \<and> bi_forward (AES_encrypt k) 2 (a @ b) iv iv2 =
      (let c = xor_bytes (AES_encrypt k (xor_bytes a iv)) iv2 in c @ xor_bytes (AES_encrypt k (xor_bytes b c)) a)"
proof -
  define c where "c = xor_bytes (AES_encrypt k (xor_bytes a iv)) iv2"
  define d where "d = xor_bytes (AES_encrypt k (xor_bytes b c)) c"
  have lens: "length c = 16" "length d = 16" using assms by (simp_all add: c_def d_def)
  have put: "put_block 0 x (y @ z) = x @ z" "put_block 16 z (x @ y) = x @ z"
    if "length x = 16" "length y = 16" "length z = 16" for x y z
    using that by (simp_all add: put_block_def)
  have "bi_forward_inplace (AES_encrypt k) 2 0 (a @ b) iv iv2 = c @ d"
    unfolding numeral_2_eq_2 bi_forward_inplace.simps Let_def add_0
    by (simp add: put assms lens c_def [symmetric] d_def [symmetric])
  moreover have "bi_forward (AES_encrypt k) 2 (a @ b) iv iv2 = c @ xor_bytes (AES_encrypt k (xor_bytes b c)) a"
    unfolding numeral_2_eq_2 bi_forward.simps Let_def using assms by (simp add: c_def)
  ultimately show ?thesis by (simp only: Let_def c_def [symmetric] d_def [symmetric])
qed

theorem bi_ige_inplace_chains_output_witness:
  "bi_forward_inplace (AES_encrypt sample_schedule) 2 0 (sample_block @ sample_block) sample_block sample_block
    = (let c = xor_bytes (AES_encrypt sample_schedule (xor_bytes sample_block sample_block)) sample_block
       in c @ xor_bytes (AES_encrypt sample_schedule (xor_bytes sample_block c)) c)"
  using bi_ige_inplace_chains_output [OF sample_facts(2) sample_facts(2) sample_facts(2) sample_facts(2)] by simp

end
