(* ===== verification/Streams.thy ===== *)
theory Streams
  imports Prelude
begin

text \<open>
  The common shape of the stream modes of \<open>crypto/modes/\<close>: a state with the number \<open>num\<close> of bytes of
  the buffered block that are used up. The body of each mode has three loops (the rest of the buffer,
  whole blocks, the last bytes), and a loop on single bytes for small builds. The locale gives what
  the steps of a mode promise, and that the three loops then are the loop on bytes, which can be cut
  anywhere.
\<close>

section \<open>The loops\<close>

text \<open>\<open>while (n && len)\<close>: the output, the input left, the state.\<close>

fun drain ::
  "('s \<Rightarrow> nat) \<Rightarrow> ('s \<Rightarrow> byte \<Rightarrow> byte \<times> 's) \<Rightarrow> byte list \<Rightarrow> 's \<Rightarrow> byte list \<times> byte list \<times> 's"
where
  "drain num use [] s = ([], [], s)"
| "drain num use (b # inp) s =
     (if num s \<noteq> 0
      then let (c, s) = use s b; (out, r) = drain num use inp s in (c # out, r)
      else ([], b # inp, s))"

text \<open>\<open>while (len >= 16)\<close>\<close>

function chunks ::
  "(byte list \<Rightarrow> 's \<Rightarrow> byte list \<times> 's) \<Rightarrow> byte list \<Rightarrow> 's \<Rightarrow> byte list \<times> byte list \<times> 's"
where
  "chunks blk inp s =
     (if 16 \<le> length inp
      then let (out, s) = blk (take 16 inp) s; (outs, r) = chunks blk (drop 16 inp) s in (out @ outs, r)
      else ([], inp, s))"
  by pat_completeness auto
termination by (relation "measure (\<lambda>(blk, inp, s). length inp)") auto

declare chunks.simps [simp del]

definition three_loops ::
  "('s \<Rightarrow> nat) \<Rightarrow> ('s \<Rightarrow> byte \<Rightarrow> byte \<times> 's) \<Rightarrow> (byte list \<Rightarrow> 's \<Rightarrow> byte list \<times> 's)
     \<Rightarrow> (byte list \<Rightarrow> 's \<Rightarrow> byte list \<times> 's) \<Rightarrow> byte list \<Rightarrow> 's \<Rightarrow> byte list \<times> 's"
where
  "three_loops num use blk rest inp s =
     (let (out1, inp, s) = drain num use inp s;
          (out2, inp, s) = chunks blk inp s;
          (out3, s) = (if 0 < length inp then rest inp s else ([], s))
      in (out1 @ out2 @ out3, s))"

text \<open>\<open>while (l < len)\<close>: one unit (a byte, or a bit) at a time.\<close>

primrec bytewise :: "('s \<Rightarrow> 'a \<Rightarrow> 'b \<times> 's) \<Rightarrow> 'a list \<Rightarrow> 's \<Rightarrow> 'b list \<times> 's" where
  "bytewise step [] s = ([], s)"
| "bytewise step (b # inp) s = (let (c, s) = step s b; (out, s) = bytewise step inp s in (c # out, s))"

lemma bytewise_Cons [simp]:
  "bytewise step (b # inp) s = (fst (step s b) # fst (bytewise step inp (snd (step s b))),
     snd (bytewise step inp (snd (step s b))))"
  by (simp add: case_prod_beta Let_def)

declare bytewise.simps(2) [simp del]

lemma bytewise_append:
  "bytewise step (a @ b) s =
     (let (x, s) = bytewise step a s; (y, s) = bytewise step b s in (x @ y, s))"
  by (induction a arbitrary: s) (simp_all add: case_prod_beta Let_def)

lemma length_bytewise [simp]: "length (fst (bytewise step inp s)) = length inp"
  by (induction inp arbitrary: s) simp_all

lemma bytewise_invariant:
  assumes "\<And>s b. ok s \<Longrightarrow> ok (snd (step s b))"
  shows "ok s \<Longrightarrow> ok (snd (bytewise step inp s))"
  by (induction inp arbitrary: s) (simp_all add: assms)

text \<open>Two steps that undo each other, in the states that occur.\<close>

lemma bytewise_undo:
  assumes "\<And>s b. ok s \<Longrightarrow> ok (snd (step s b))"
    and "\<And>s b. ok s \<Longrightarrow> back s (fst (step s b)) = (b, snd (step s b))"
  shows "ok s \<Longrightarrow> bytewise back (fst (bytewise step inp s)) s = (inp, snd (bytewise step inp s))"
proof (induction inp arbitrary: s)
  case (Cons b inp)
  have "ok (snd (step s b))" using assms(1) Cons.prems by simp
  note IH = Cons.IH [OF this]
  show ?case using IH assms(2) [OF Cons.prems, of b] by (simp add: case_prod_beta Let_def)
qed simp

section \<open>What a mode promises\<close>

text \<open>
  \<open>use\<close> takes one byte of the buffered block, \<open>refill\<close> runs the cipher for the next block; \<open>blk\<close> and \<open>rest\<close>
  must do what a refill and single bytes do.
\<close>

locale stream_mode =
  fixes ok :: "'s \<Rightarrow> bool" and num :: "'s \<Rightarrow> nat" and use :: "'s \<Rightarrow> byte \<Rightarrow> byte \<times> 's"
    and refill :: "'s \<Rightarrow> 's" and blk rest :: "byte list \<Rightarrow> 's \<Rightarrow> byte list \<times> 's"
  assumes ok_num: "ok s \<Longrightarrow> num s < 16"
    and ok_use: "ok s \<Longrightarrow> ok (snd (use s b))"
    and ok_refill: "ok s \<Longrightarrow> ok (refill s)"
    and num_use: "ok s \<Longrightarrow> num (snd (use s b)) = (num s + 1) mod 16"
    and num_refill: "num (refill s) = num s"
    and blk_uses: "\<lbrakk>ok s; num s = 0; length x = 16\<rbrakk> \<Longrightarrow> blk x s = bytewise use x (refill s)"
    and rest_uses: "\<lbrakk>ok s; num s = 0; x \<noteq> []; length x < 16\<rbrakk> \<Longrightarrow> rest x s = bytewise use x (refill s)"
begin

definition step :: "'s \<Rightarrow> byte \<Rightarrow> byte \<times> 's" where
  "step s b = use (if num s = 0 then refill s else s) b"

lemma ok_step: "ok s \<Longrightarrow> ok (snd (step s b))"
  by (simp add: step_def ok_use ok_refill)

lemma num_step: "ok s \<Longrightarrow> num (snd (step s b)) = (num s + 1) mod 16"
  using num_use [of "refill s" b] by (simp add: step_def num_use ok_refill num_refill)

lemma uses_steps:
  "\<lbrakk>ok s; num s \<noteq> 0; num s + length x \<le> 16\<rbrakk> \<Longrightarrow>
     bytewise use x s = bytewise step x s \<and> num (snd (bytewise step x s)) = (num s + length x) mod 16"
proof (induction x arbitrary: s)
  case (Cons b x)
  have s: "step s b = use s b" using Cons.prems(2) by (simp add: step_def)
  have 1: "num (snd (step s b)) = (num s + 1) mod 16" "ok (snd (step s b))"
    using Cons.prems num_step ok_step by auto
  show ?case
  proof (cases "x = []")
    case True
    then show ?thesis using s 1 by (simp add: case_prod_beta Let_def)
  next
    case False
    then have "num s + 1 < 16" using Cons.prems(3) by (cases x) auto
    then have "num (snd (step s b)) = num s + 1" using 1 by simp
    then show ?thesis
      using Cons.IH [of "snd (step s b)"] Cons.prems s 1 by (simp add: case_prod_beta Let_def)
  qed
qed (simp add: ok_num)

lemma refill_steps:
  assumes "ok s" "num s = 0" "0 < length x" "length x \<le> 16"
  shows "bytewise use x (refill s) = bytewise step x s"
    "num (snd (bytewise step x s)) = length x mod 16"
proof -
  obtain b y where x: "x = b # y" using assms(3) by (cases x) auto
  have b: "step s b = use (refill s) b" using assms(2) by (simp add: step_def)
  have n: "num (snd (step s b)) = 1" "ok (snd (step s b))"
    using num_step [OF assms(1), of b] assms(2) ok_step [OF assms(1)] by simp_all
  have "bytewise use y (snd (step s b)) = bytewise step y (snd (step s b))
      \<and> num (snd (bytewise step y (snd (step s b)))) = (1 + length y) mod 16"
    using uses_steps [of "snd (step s b)" y] n assms(4) x by simp
  then show "bytewise use x (refill s) = bytewise step x s"
    "num (snd (bytewise step x s)) = length x mod 16"
    using b x by (simp_all add: case_prod_beta Let_def)
qed

lemma drain_steps:
  "\<lbrakk>ok s; drain num use inp s = (out, inp', s')\<rbrakk> \<Longrightarrow>
     bytewise step inp s = (let (y, t) = bytewise step inp' s' in (out @ y, t))
     \<and> ok s' \<and> (inp' = [] \<or> num s' = 0)"
proof (induction inp arbitrary: s out)
  case (Cons b inp)
  show ?case
  proof (cases "num s = 0")
    case False
    then have b: "step s b = use s b" by (simp add: step_def)
    obtain c t where c: "use s b = (c, t)" by fastforce
    then obtain out' where out': "drain num use inp t = (out', inp', s')" "out = c # out'"
      using Cons.prems(2) False by (auto split: prod.splits)
    have "ok t" using ok_use [OF Cons.prems(1), of b] c by simp
    then show ?thesis using Cons.IH [OF _ out'(1)] out'(2) b c by (simp add: case_prod_beta Let_def)
  next
    case True
    then show ?thesis using Cons.prems by simp
  qed
qed simp

lemma chunks_steps:
  "\<lbrakk>ok s; inp = [] \<or> num s = 0; chunks blk inp s = (out, inp', s')\<rbrakk> \<Longrightarrow>
     bytewise step inp s = (let (y, t) = bytewise step inp' s' in (out @ y, t))
     \<and> ok s' \<and> (inp' = [] \<or> num s' = 0) \<and> length inp' < 16"
proof (induction "length inp" arbitrary: inp s out rule: less_induct)
  case less
  show ?case
  proof (cases "16 \<le> length inp")
    case True
    let ?x = "take 16 inp"
    have s: "num s = 0" using less.prems(2) True by auto
    have x: "blk ?x s = bytewise step ?x s" "num (snd (bytewise step ?x s)) = 0"
      using refill_steps [OF less.prems(1) s, of ?x] blk_uses [OF less.prems(1) s, of ?x] True by auto
    have "ok (snd (bytewise step ?x s))" by (rule bytewise_invariant [of ok, OF ok_step less.prems(1)])
    moreover obtain outs where "chunks blk (drop 16 inp) (snd (bytewise step ?x s)) = (outs, inp', s')"
        "out = fst (bytewise step ?x s) @ outs"
      using less.prems(3) True x by (subst (asm) chunks.simps) (auto simp: Let_def split: prod.splits)
    ultimately show ?thesis
      using less.hyps [of "drop 16 inp"] True x bytewise_append [of step ?x "drop 16 inp" s]
      by (simp add: case_prod_beta Let_def)
  next
    case False
    then show ?thesis using less.prems by (subst (asm) chunks.simps) auto
  qed
qed

lemma three_loops_bytewise:
  assumes "ok s"
  shows "three_loops num use blk rest inp s = bytewise step inp s"
proof -
  obtain out1 inp1 s1 where 1: "drain num use inp s = (out1, inp1, s1)" by (metis prod_cases3)
  obtain out2 inp2 s2 where 2: "chunks blk inp1 s1 = (out2, inp2, s2)" by (metis prod_cases3)
  note d = drain_steps [OF assms 1]
  note c = chunks_steps [OF _ _ 2]
  have "rest inp2 s2 = bytewise step inp2 s2" if "inp2 \<noteq> []"
    using that d c rest_uses [of s2 inp2] refill_steps [of s2 inp2] by auto
  then show ?thesis
    using 1 2 d c by (auto simp: three_loops_def Let_def split: prod.splits)
qed

end

end
