(* ===== verification/StreamModes.thy ===== *)
theory StreamModes
  imports Streams BlockModes
begin

text \<open>
  OFB, CFB (\<open>crypto/modes/ofb128.c\<close>, \<open>cfb128.c\<close>) over a \<open>block128_f\<close> with its key, a function on
  blocks of 16 bytes, as interpretations of the stream modes; and CFB on 8 and on single bits.
\<close>

record feedback =
  ivec :: "byte list"
  num :: nat

definition ok_feedback :: "feedback \<Rightarrow> bool" where
  "ok_feedback s \<longleftrightarrow> length (ivec s) = 16 \<and> num s < 16"

section \<open>OFB\<close>

definition ofb_use :: "feedback \<Rightarrow> byte \<Rightarrow> byte \<times> feedback" where
  "ofb_use s b = (b XOR ivec s ! num s, s\<lparr>num := (num s + 1) mod 16\<rparr>)"

definition feedback_refill :: "(byte list \<Rightarrow> byte list) \<Rightarrow> feedback \<Rightarrow> feedback" where
  "feedback_refill block s = s\<lparr>ivec := block (ivec s)\<rparr>"

text \<open>Behind the first loop \<open>n\<close> is 0 or no input is left, so that both loops start at the first byte.\<close>

definition ofb_blk :: "(byte list \<Rightarrow> byte list) \<Rightarrow> byte list \<Rightarrow> feedback \<Rightarrow> byte list \<times> feedback" where
  "ofb_blk block inp s =
     (let iv = block (ivec s) in (xor_bytes inp iv, s\<lparr>ivec := iv, num := 0\<rparr>))"

definition ofb_rest :: "(byte list \<Rightarrow> byte list) \<Rightarrow> byte list \<Rightarrow> feedback \<Rightarrow> byte list \<times> feedback" where
  "ofb_rest block inp s =
     (let iv = block (ivec s) in (xor_bytes inp iv, s\<lparr>ivec := iv, num := length inp\<rparr>))"

definition CRYPTO_ofb128_encrypt ::
  "(byte list \<Rightarrow> byte list) \<Rightarrow> byte list \<Rightarrow> feedback \<Rightarrow> byte list \<times> feedback"
where
  "CRYPTO_ofb128_encrypt block = three_loops num ofb_use (ofb_blk block) (ofb_rest block)"

text \<open>The loop for \<open>OPENSSL_SMALL_FOOTPRINT\<close> (lines 114-121).\<close>

definition ofb_byte :: "(byte list \<Rightarrow> byte list) \<Rightarrow> feedback \<Rightarrow> byte \<Rightarrow> byte \<times> feedback" where
  "ofb_byte block s b = ofb_use (if num s = 0 then feedback_refill block s else s) b"

section \<open>CFB\<close>

text \<open>\<open>*(out++) = ivec[n] ^= *(in++)\<close> and \<open>*(out++) = ivec[n] ^ (c = *(in++)); ivec[n] = c\<close>.\<close>

definition cfb_enc_use :: "feedback \<Rightarrow> byte \<Rightarrow> byte \<times> feedback" where
  "cfb_enc_use s b =
     (let c = ivec s ! num s XOR b
      in (c, s\<lparr>ivec := (ivec s)[num s := c], num := (num s + 1) mod 16\<rparr>))"

definition cfb_enc_blk :: "(byte list \<Rightarrow> byte list) \<Rightarrow> byte list \<Rightarrow> feedback \<Rightarrow> byte list \<times> feedback" where
  "cfb_enc_blk block inp s =
     (let iv = block (ivec s); iv = xor_bytes iv inp in (iv, s\<lparr>ivec := iv, num := 0\<rparr>))"

definition cfb_enc_rest :: "(byte list \<Rightarrow> byte list) \<Rightarrow> byte list \<Rightarrow> feedback \<Rightarrow> byte list \<times> feedback" where
  "cfb_enc_rest block inp s =
     (let iv = block (ivec s); n = length inp; out = xor_bytes (take n iv) inp
      in (out, s\<lparr>ivec := out @ drop n iv, num := n\<rparr>))"

definition cfb_dec_use :: "feedback \<Rightarrow> byte \<Rightarrow> byte \<times> feedback" where
  "cfb_dec_use s c =
     (ivec s ! num s XOR c, s\<lparr>ivec := (ivec s)[num s := c], num := (num s + 1) mod 16\<rparr>)"

definition cfb_dec_blk :: "(byte list \<Rightarrow> byte list) \<Rightarrow> byte list \<Rightarrow> feedback \<Rightarrow> byte list \<times> feedback" where
  "cfb_dec_blk block inp s =
     (let iv = block (ivec s) in (xor_bytes iv inp, s\<lparr>ivec := inp, num := 0\<rparr>))"

definition cfb_dec_rest :: "(byte list \<Rightarrow> byte list) \<Rightarrow> byte list \<Rightarrow> feedback \<Rightarrow> byte list \<times> feedback" where
  "cfb_dec_rest block inp s =
     (let iv = block (ivec s); n = length inp
      in (xor_bytes (take n iv) inp, s\<lparr>ivec := inp @ drop n iv, num := n\<rparr>))"

definition CRYPTO_cfb128_encrypt ::
  "(byte list \<Rightarrow> byte list) \<Rightarrow> byte list \<Rightarrow> feedback \<Rightarrow> bool \<Rightarrow> byte list \<times> feedback"
where
  "CRYPTO_cfb128_encrypt block inp s enc =
     (if enc then three_loops num cfb_enc_use (cfb_enc_blk block) (cfb_enc_rest block) inp s
      else three_loops num cfb_dec_use (cfb_dec_blk block) (cfb_dec_rest block) inp s)"

definition cfb_byte :: "(byte list \<Rightarrow> byte list) \<Rightarrow> bool \<Rightarrow> feedback \<Rightarrow> byte \<Rightarrow> byte \<times> feedback" where
  "cfb_byte block enc s b =
     (if enc then cfb_enc_use else cfb_dec_use) (if num s = 0 then feedback_refill block s else s) b"

section \<open>CFB on fewer bits\<close>

text \<open>
  \<open>cfbr_encrypt_block\<close>: \<open>ovec\<close> is the old \<open>ivec\<close> followed by the cipher text, shifted left by \<open>nbits\<close>.
  The result is \<open>out\<close> and the new \<open>ivec\<close>; nothing is written for a number of bits out of range.
\<close>

definition cfbr_encrypt_block ::
  "(byte list \<Rightarrow> byte list) \<Rightarrow> byte list \<Rightarrow> int \<Rightarrow> byte list \<Rightarrow> bool \<Rightarrow> byte list \<times> byte list"
where
  "cfbr_encrypt_block block inp nbits iv0 enc =
     (if nbits \<le> 0 \<or> 128 < nbits then ([], iv0)
      else
        (let iv = block iv0;
             k = nat ((nbits + 7) div 8);
             mixed = xor_bytes (take k inp) iv;
             ovec = iv0 @ (if enc then mixed else take k inp);
             rem = nat (nbits mod 8);
             k = nat (nbits div 8)
         in (mixed,
             if rem = 0 then take 16 (drop k ovec)
             else map (\<lambda>n. push_bit rem (ovec ! (n + k)) OR drop_bit (8 - rem) (ovec ! (n + k + 1))) [0..<16])))"

definition cfb8_byte :: "(byte list \<Rightarrow> byte list) \<Rightarrow> bool \<Rightarrow> byte list \<Rightarrow> byte \<Rightarrow> byte \<times> byte list" where
  "cfb8_byte block enc iv b = (let (out, iv) = cfbr_encrypt_block block [b] 8 iv enc in (out ! 0, iv))"

definition CRYPTO_cfb128_8_encrypt ::
  "(byte list \<Rightarrow> byte list) \<Rightarrow> byte list \<Rightarrow> byte list \<Rightarrow> bool \<Rightarrow> byte list \<times> byte list"
where
  "CRYPTO_cfb128_8_encrypt block inp iv enc = bytewise (cfb8_byte block enc) inp iv"

text \<open>One bit per call, most significant bit of a byte first; \<open>r\<close> counts the bits left.\<close>

primrec cfb1_loop ::
  "(byte list \<Rightarrow> byte list) \<Rightarrow> bool \<Rightarrow> byte list \<Rightarrow> nat \<Rightarrow> nat \<Rightarrow> byte list \<Rightarrow> byte list \<Rightarrow> byte list \<times> byte list"
where
  "cfb1_loop block enc inp 0 n out iv = (out, iv)"
| "cfb1_loop block enc inp (Suc r) n out iv =
     (let c = (if inp ! (n div 8) AND push_bit (7 - n mod 8) 1 \<noteq> 0 then 0x80 else 0);
          (d, iv) = cfbr_encrypt_block block [c] 1 iv enc;
          out = out[n div 8 := (out ! (n div 8) AND NOT (push_bit (7 - n mod 8) 1))
                                 OR drop_bit (n mod 8) (d ! 0 AND 0x80)]
      in cfb1_loop block enc inp r (n + 1) out iv)"

definition CRYPTO_cfb128_1_encrypt ::
  "(byte list \<Rightarrow> byte list) \<Rightarrow> byte list \<Rightarrow> nat \<Rightarrow> byte list \<Rightarrow> bool \<Rightarrow> byte list \<Rightarrow> byte list \<times> byte list"
where
  "CRYPTO_cfb128_1_encrypt block inp bits iv enc out = cfb1_loop block enc inp bits 0 out iv"

section \<open>The modes keep the promise\<close>

lemma ofb_uses:
  "\<lbrakk>ok_feedback s; num s + length x \<le> 16\<rbrakk> \<Longrightarrow> bytewise ofb_use x s
     = (xor_bytes x (drop (num s) (ivec s)), s\<lparr>num := (num s + length x) mod 16\<rparr>)"
proof (induction x arbitrary: s)
  case (Cons b x)
  show ?case
  proof (cases "x = []")
    case True
    then show ?thesis
      using Cons.prems by (simp add: ofb_use_def ok_feedback_def flip: Cons_nth_drop_Suc)
  next
    case False
    then have n: "Suc (num s) < 16" using Cons.prems(2) by (cases x) auto
    then show ?thesis
      using Cons.IH [of "snd (ofb_use s b)"] Cons.prems
      by (simp add: ofb_use_def ok_feedback_def Cons_nth_drop_Suc [symmetric, of "num s"])
  qed
qed (simp add: ok_feedback_def)

lemma cfb_enc_uses:
  "\<lbrakk>ok_feedback s; num s + length x \<le> 16\<rbrakk> \<Longrightarrow> bytewise cfb_enc_use x s
     = (let out = xor_bytes (take (length x) (drop (num s) (ivec s))) x
        in (out, s\<lparr>ivec := take (num s) (ivec s) @ out @ drop (num s + length x) (ivec s),
                   num := (num s + length x) mod 16\<rparr>))"
proof (induction x arbitrary: s)
  case (Cons b x)
  have d: "drop (num s) (ivec s) = ivec s ! num s # drop (Suc (num s)) (ivec s)"
    using Cons.prems(1) by (simp add: Cons_nth_drop_Suc ok_feedback_def)
  show ?case
  proof (cases "x = []")
    case True
    then show ?thesis
      using Cons.prems d by (simp add: cfb_enc_use_def ok_feedback_def Let_def upd_conv_take_nth_drop)
  next
    case False
    then have n: "Suc (num s) < 16" using Cons.prems(2) by (cases x) auto
    then show ?thesis
      using Cons.IH [of "snd (cfb_enc_use s b)"] Cons.prems d
      by (simp add: cfb_enc_use_def ok_feedback_def Let_def take_Suc_conv_app_nth)
  qed
qed (simp add: ok_feedback_def Let_def)

lemma cfb_dec_uses:
  "\<lbrakk>ok_feedback s; num s + length x \<le> 16\<rbrakk> \<Longrightarrow> bytewise cfb_dec_use x s
     = (xor_bytes (take (length x) (drop (num s) (ivec s))) x,
        s\<lparr>ivec := take (num s) (ivec s) @ x @ drop (num s + length x) (ivec s),
          num := (num s + length x) mod 16\<rparr>)"
proof (induction x arbitrary: s)
  case (Cons b x)
  have d: "drop (num s) (ivec s) = ivec s ! num s # drop (Suc (num s)) (ivec s)"
    using Cons.prems(1) by (simp add: Cons_nth_drop_Suc ok_feedback_def)
  show ?case
  proof (cases "x = []")
    case True
    then show ?thesis
      using Cons.prems d by (simp add: cfb_dec_use_def ok_feedback_def Let_def upd_conv_take_nth_drop)
  next
    case False
    then have n: "Suc (num s) < 16" using Cons.prems(2) by (cases x) auto
    then show ?thesis
      using Cons.IH [of "snd (cfb_dec_use s b)"] Cons.prems d
      by (simp add: cfb_dec_use_def ok_feedback_def Let_def take_Suc_conv_app_nth)
  qed
qed (simp add: ok_feedback_def Let_def)

interpretation ofb: stream_mode ok_feedback num ofb_use "feedback_refill (AES_encrypt k)"
  "ofb_blk (AES_encrypt k)" "ofb_rest (AES_encrypt k)" for k
proof (unfold_locales, goal_cases)
  case (6 s x)
  then show ?case
    using ofb_uses [of "feedback_refill (AES_encrypt k) s" x]
    by (simp add: ok_feedback_def feedback_refill_def ofb_blk_def Let_def)
next
  case (7 s x)
  then show ?case
    using ofb_uses [of "feedback_refill (AES_encrypt k) s" x]
    by (simp add: ok_feedback_def feedback_refill_def ofb_rest_def Let_def)
qed (auto simp: ok_feedback_def ofb_use_def feedback_refill_def)

interpretation cfb_enc: stream_mode ok_feedback num cfb_enc_use "feedback_refill (AES_encrypt k)"
  "cfb_enc_blk (AES_encrypt k)" "cfb_enc_rest (AES_encrypt k)" for k
proof (unfold_locales, goal_cases)
  case (6 s x)
  then show ?case
    using cfb_enc_uses [of "feedback_refill (AES_encrypt k) s" x]
    by (simp add: ok_feedback_def feedback_refill_def cfb_enc_blk_def Let_def)
next
  case (7 s x)
  then show ?case
    using cfb_enc_uses [of "feedback_refill (AES_encrypt k) s" x]
    by (simp add: ok_feedback_def feedback_refill_def cfb_enc_rest_def Let_def)
qed (auto simp: ok_feedback_def cfb_enc_use_def feedback_refill_def Let_def)

interpretation cfb_dec: stream_mode ok_feedback num cfb_dec_use "feedback_refill (AES_encrypt k)"
  "cfb_dec_blk (AES_encrypt k)" "cfb_dec_rest (AES_encrypt k)" for k
proof (unfold_locales, goal_cases)
  case (6 s x)
  then show ?case
    using cfb_dec_uses [of "feedback_refill (AES_encrypt k) s" x]
    by (simp add: ok_feedback_def feedback_refill_def cfb_dec_blk_def Let_def)
next
  case (7 s x)
  then show ?case
    using cfb_dec_uses [of "feedback_refill (AES_encrypt k) s" x]
    by (simp add: ok_feedback_def feedback_refill_def cfb_dec_rest_def Let_def)
qed (auto simp: ok_feedback_def cfb_dec_use_def feedback_refill_def Let_def)

section \<open>CFB on bits, as a machine on bits\<close>

definition bit_at :: "byte list \<Rightarrow> nat \<Rightarrow> bool" where
  "bit_at l n = bit (l ! (n div 8)) (7 - n mod 8)"

definition cfb1_bit :: "(byte list \<Rightarrow> byte list) \<Rightarrow> bool \<Rightarrow> byte list \<Rightarrow> bool \<Rightarrow> bool \<times> byte list" where
  "cfb1_bit block enc iv b =
     (let (d, iv) = cfbr_encrypt_block block [if b then 0x80 else 0] 1 iv enc in (bit (d ! 0) 7, iv))"

lemma and_bit: "(x :: byte) AND push_bit j 1 \<noteq> 0 \<longleftrightarrow> bit x j"
proof -
  have "x AND push_bit j 1 = (if bit x j then push_bit j 1 else 0)"
    by (rule bit_word_eqI) (auto simp: bit_simps)
  moreover have "bit x j \<Longrightarrow> (push_bit j 1 :: byte) \<noteq> 0"
    using bit_imp_le_length [of x j] bit_push_bit_iff [of j "1 :: byte" j] by force
  ultimately show ?thesis by simp
qed

lemma bit_80: "bit (0x80 :: byte) n \<longleftrightarrow> n = 7"
proof (cases "n < 8")
  case True
  then have "n \<in> {0, 1, 2, 3, 4, 5, 6, 7}" by auto
  then show ?thesis by auto
next
  case False
  then show ?thesis by (simp add: byte_beyond)
qed

lemma bit_put:
  fixes x d :: byte
  assumes "i < 8"
  shows "bit ((x AND NOT (push_bit (7 - i) 1)) OR drop_bit i (d AND 0x80)) j
    \<longleftrightarrow> (if j = 7 - i then bit d 7 else bit x j)"
  unfolding bit_or_iff bit_and_iff bit_not_iff bit_push_bit_iff bit_drop_bit_eq o_def bit_80 bit_1_iff
  using assms byte_beyond [of j x] byte_beyond [of "i + j" d] by (cases "j < 8") auto

lemma bit_at_update:
  fixes v :: byte
  assumes "n div 8 < length out" "\<And>j. bit v j \<longleftrightarrow> (if j = 7 - n mod 8 then b else bit (out ! (n div 8)) j)"
  shows "bit_at (out[n div 8 := v]) m = (if m = n then b else bit_at out m)"
proof (cases "m div 8 = n div 8")
  case True
  have "m mod 8 < 8" "n mod 8 < 8" by simp_all
  then have "7 - m mod 8 = 7 - n mod 8 \<longleftrightarrow> m mod 8 = n mod 8" by linarith
  moreover have "m = n \<longleftrightarrow> m mod 8 = n mod 8" using True by (metis div_mult_mod_eq)
  ultimately show ?thesis using True assms by (simp add: bit_at_def)
next
  case False
  then have "m \<noteq> n" by auto
  then show ?thesis using False by (simp add: bit_at_def)
qed

lemma cfb1_loop_bits:
  "\<lbrakk>n + r \<le> 8 * length out\<rbrakk> \<Longrightarrow>
     \<exists>out' iv' bs. cfb1_loop block enc inp r n out iv = (out', iv') \<and> length out' = length out
       \<and> bytewise (cfb1_bit block enc) (map (bit_at inp) [n..<n + r]) iv = (bs, iv')
       \<and> (\<forall>m. bit_at out' m = (if n \<le> m \<and> m < n + r then bs ! (m - n) else bit_at out m))"
proof (induction r arbitrary: n out iv)
  case (Suc r)
  let ?c = "(if bit_at inp n then 0x80 else 0) :: byte"
  obtain d iv1 where d: "cfbr_encrypt_block block [?c] 1 iv enc = (d, iv1)" by fastforce
  let ?v = "(out ! (n div 8) AND NOT (push_bit (7 - n mod 8) 1)) OR drop_bit (n mod 8) (d ! 0 AND 0x80)"
  let ?out = "out[n div 8 := ?v]"
  have n: "n div 8 < length out" using Suc.prems by (simp add: div_less_iff_less_mult)
  have upd: "bit_at ?out m = (if m = n then bit (d ! 0) 7 else bit_at out m)" for m
    by (rule bit_at_update [OF n], rule bit_put) simp
  have b: "cfb1_bit block enc iv (bit_at inp n) = (bit (d ! 0) 7, iv1)" using d by (simp add: cfb1_bit_def)
  have step: "cfb1_loop block enc inp (Suc r) n out iv = cfb1_loop block enc inp r (n + 1) ?out iv1"
    using d unfolding cfb1_loop.simps and_bit Let_def bit_at_def [symmetric] by simp
  have upt: "[n..<n + Suc r] = n # [n + 1..<(n + 1) + r]" by (simp add: upt_conv_Cons del: upt_Suc)
  obtain out' iv' bs where IH: "cfb1_loop block enc inp r (n + 1) ?out iv1 = (out', iv')"
    "length out' = length ?out" "bytewise (cfb1_bit block enc) (map (bit_at inp) [n + 1..<(n + 1) + r]) iv1 = (bs, iv')"
    "\<forall>m. bit_at out' m = (if n + 1 \<le> m \<and> m < n + 1 + r then bs ! (m - (n + 1)) else bit_at ?out m)"
    using Suc.IH [of "n + 1" ?out iv1] Suc.prems by auto
  have "\<forall>m. bit_at out' m = (if n \<le> m \<and> m < n + Suc r then (bit (d ! 0) 7 # bs) ! (m - n) else bit_at out m)"
    using IH(4) upd by (auto simp: nth_Cons')
  then show ?case
    unfolding upt step IH(1) using IH(2,3) b by auto
qed auto

text \<open>Only the leading bit of the unit enters the shifted \<open>ivec\<close>.\<close>

lemma drop_7: "drop_bit 7 (x :: byte) = (if bit x 7 then 1 else 0)"
proof (rule bit_word_eqI)
  fix n :: nat assume "n < LENGTH(8)"
  then show "bit (drop_bit 7 x) n = bit (if bit x 7 then 1 else 0 :: byte) n"
    using byte_beyond [of "7 + n" x] by (cases "n = 0") (auto simp: bit_simps)
qed

lemma cfb1_bit_shift:
  assumes "length iv = 16" "length (block iv) = 16"
  defines "shifted \<equiv> \<lambda>q. map (\<lambda>n. push_bit 1 (iv ! n) OR (if n < 15 then drop_bit 7 (iv ! (n + 1)) else if q then 1 else 0)) [0..<16]"
  shows "cfb1_bit block True iv b = (b \<noteq> bit (block iv ! 0) 7, shifted (b \<noteq> bit (block iv ! 0) 7))"
    "cfb1_bit block False iv b = (b \<noteq> bit (block iv ! 0) 7, shifted b)"
proof -
  obtain z zs where z: "block iv = z # zs" using assms(2) by (cases "block iv") auto
  have m: "bit (if b then 0x80 else 0 :: byte) 7 = b" by simp
  have n: "nat ((1 + 7) div 8 :: int) = Suc 0" "nat (1 mod 8 :: int) = 1" "nat (1 div 8 :: int) = 0" by simp_all
  have shift: "map (\<lambda>n. push_bit 1 ((iv @ [x]) ! n) OR drop_bit (8 - 1) ((iv @ [x]) ! (n + 1))) [0..<16] = shifted (bit x 7)" for x
    unfolding shifted_def using assms(1) by (intro map_cong) (auto simp: nth_append drop_7)
  show "cfb1_bit block True iv b = (b \<noteq> bit (block iv ! 0) 7, shifted (b \<noteq> bit (block iv ! 0) 7))"
    "cfb1_bit block False iv b = (b \<noteq> bit (block iv ! 0) 7, shifted b)"
    unfolding cfb1_bit_def cfbr_encrypt_block_def Let_def n
    using shift [of "(if b then 0x80 else 0) XOR z"] shift [of "if b then 0x80 else 0"]
    by (simp_all add: z bit_xor_iff m del: One_nat_def)
qed

lemma cfb1_bit_undo:
  assumes "length iv = 16"
  shows "cfb1_bit (AES_encrypt k) False iv (fst (cfb1_bit (AES_encrypt k) True iv b))
    = (b, snd (cfb1_bit (AES_encrypt k) True iv b))" "length (snd (cfb1_bit (AES_encrypt k) True iv b)) = 16"
  using cfb1_bit_shift [of iv "AES_encrypt k"] assms by auto

lemma cfb8_byte_shift:
  assumes "length iv = 16" "length (block iv) = 16"
  shows "cfb8_byte block True iv b = (b XOR block iv ! 0, drop 1 iv @ [b XOR block iv ! 0])"
    "cfb8_byte block False iv b = (b XOR block iv ! 0, drop 1 iv @ [b])"
proof -
  obtain z zs where z: "block iv = z # zs" using assms(2) by (cases "block iv") auto
  show "cfb8_byte block True iv b = (b XOR block iv ! 0, drop 1 iv @ [b XOR block iv ! 0])"
    "cfb8_byte block False iv b = (b XOR block iv ! 0, drop 1 iv @ [b])"
    using assms(1) by (simp_all add: cfb8_byte_def cfbr_encrypt_block_def Let_def z)
qed

lemma byte_steps:
  "ofb.step k = ofb_byte (AES_encrypt k)" "cfb_enc.step k = cfb_byte (AES_encrypt k) True"
  "cfb_dec.step k = cfb_byte (AES_encrypt k) False"
  by (auto simp: fun_eq_iff ofb.step_def cfb_enc.step_def cfb_dec.step_def ofb_byte_def cfb_byte_def)

lemma ofb_bytewise:
  "ok_feedback s \<Longrightarrow> CRYPTO_ofb128_encrypt (AES_encrypt k) inp s = bytewise (ofb_byte (AES_encrypt k)) inp s"
  by (simp add: CRYPTO_ofb128_encrypt_def ofb.three_loops_bytewise byte_steps)

lemma cfb_bytewise:
  "ok_feedback s \<Longrightarrow> CRYPTO_cfb128_encrypt (AES_encrypt k) inp s enc = bytewise (cfb_byte (AES_encrypt k) enc) inp s"
  by (cases enc) (simp_all add: CRYPTO_cfb128_encrypt_def cfb_enc.three_loops_bytewise
      cfb_dec.three_loops_bytewise byte_steps)

lemma ok_ofb_bytes: "ok_feedback s \<Longrightarrow> ok_feedback (snd (bytewise (ofb_byte (AES_encrypt k)) inp s))"
  unfolding byte_steps(1) [symmetric] by (rule bytewise_invariant) (rule ofb.ok_step)

lemma ok_cfb_bytes:
  assumes "ok_feedback s"
  shows "ok_feedback (snd (bytewise (cfb_byte (AES_encrypt k) enc) inp s))"
proof (rule bytewise_invariant [where ok = ok_feedback, OF _ assms])
  fix t b assume "ok_feedback t"
  then show "ok_feedback (snd (cfb_byte (AES_encrypt k) enc t b))"
    using cfb_enc.ok_step [of t k b] cfb_dec.ok_step [of t k b] by (cases enc) (simp_all add: byte_steps)
qed

lemma ok_sample: "ok_feedback \<lparr>ivec = sample_block, num = 3\<rparr>"
  by (simp add: ok_feedback_def sample_facts(2))

section \<open>Properties of the feedback modes\<close>

text \<open>\<open>CRYPTO_ofb128_encrypt\<close> with its three loops is the loop on single bytes of small builds; a
  message may be cut into calls anywhere, the state \<open>(ivec, num)\<close> carrying over; and applying it to
  its own output from the same state gives the message back.\<close>

theorem ofb128_stream:
  assumes "ok_feedback s"
  shows "CRYPTO_ofb128_encrypt (AES_encrypt k) inp s = bytewise (ofb_byte (AES_encrypt k)) inp s
    \<and> CRYPTO_ofb128_encrypt (AES_encrypt k) (a @ b) s =
        (let (x, t) = CRYPTO_ofb128_encrypt (AES_encrypt k) a s;
             (y, u) = CRYPTO_ofb128_encrypt (AES_encrypt k) b t in (x @ y, u))
    \<and> CRYPTO_ofb128_encrypt (AES_encrypt k) (fst (CRYPTO_ofb128_encrypt (AES_encrypt k) inp s)) s
        = (inp, snd (CRYPTO_ofb128_encrypt (AES_encrypt k) inp s))"
proof -
  have ok: "ok_feedback t \<Longrightarrow> ok_feedback (snd (ofb_byte (AES_encrypt k) t c))" for t c
    using ofb.ok_step by (simp add: byte_steps)
  have undo: "bytewise (ofb_byte (AES_encrypt k)) (fst (bytewise (ofb_byte (AES_encrypt k)) inp s)) s
      = (inp, snd (bytewise (ofb_byte (AES_encrypt k)) inp s))"
    by (rule bytewise_undo [of ok_feedback, OF ok _ assms]) (auto simp: ofb_byte_def ofb_use_def)
  show ?thesis
    using assms undo ok_ofb_bytes [OF assms, of k a]
    by (simp add: ofb_bytewise bytewise_append case_prod_beta Let_def)
qed

theorem ofb128_stream_witness:
  "fst (CRYPTO_ofb128_encrypt (AES_encrypt sample_schedule)
     (fst (CRYPTO_ofb128_encrypt (AES_encrypt sample_schedule) (replicate 40 9) \<lparr>ivec = sample_block, num = 3\<rparr>))
     \<lparr>ivec = sample_block, num = 3\<rparr>) = replicate 40 9"
  using conjunct2 [OF conjunct2 [OF ofb128_stream [OF ok_sample, of sample_schedule "replicate 40 9"]]]
  by (metis fst_conv)

text \<open>\<open>CRYPTO_cfb128_encrypt\<close> in both directions is the loop on single bytes, can be cut into calls
  anywhere, and decryption of what encryption wrote, from the same state, gives the message and the
  same state.\<close>

theorem cfb128_stream:
  assumes "ok_feedback s"
  shows "CRYPTO_cfb128_encrypt (AES_encrypt k) inp s enc = bytewise (cfb_byte (AES_encrypt k) enc) inp s
    \<and> CRYPTO_cfb128_encrypt (AES_encrypt k) (a @ b) s enc =
        (let (x, t) = CRYPTO_cfb128_encrypt (AES_encrypt k) a s enc;
             (y, u) = CRYPTO_cfb128_encrypt (AES_encrypt k) b t enc in (x @ y, u))
    \<and> CRYPTO_cfb128_encrypt (AES_encrypt k) (fst (CRYPTO_cfb128_encrypt (AES_encrypt k) inp s True)) s False
        = (inp, snd (CRYPTO_cfb128_encrypt (AES_encrypt k) inp s True))"
proof -
  have ok: "ok_feedback t \<Longrightarrow> ok_feedback (snd (cfb_byte (AES_encrypt k) True t c))" for t c
    using cfb_enc.ok_step by (simp add: byte_steps)
  have undo: "bytewise (cfb_byte (AES_encrypt k) False) (fst (bytewise (cfb_byte (AES_encrypt k) True) inp s)) s
      = (inp, snd (bytewise (cfb_byte (AES_encrypt k) True) inp s))"
    by (rule bytewise_undo [of ok_feedback, OF ok _ assms])
      (auto simp: cfb_byte_def cfb_enc_use_def cfb_dec_use_def Let_def)
  show ?thesis
    using assms undo ok_cfb_bytes [OF assms, of k enc a]
    by (simp add: cfb_bytewise bytewise_append case_prod_beta Let_def)
qed

theorem cfb128_stream_witness:
  "fst (CRYPTO_cfb128_encrypt (AES_encrypt sample_schedule)
     (fst (CRYPTO_cfb128_encrypt (AES_encrypt sample_schedule) (replicate 40 9) \<lparr>ivec = sample_block, num = 3\<rparr> True))
     \<lparr>ivec = sample_block, num = 3\<rparr> False) = replicate 40 9"
  using conjunct2 [OF conjunct2 [OF cfb128_stream [OF ok_sample, of sample_schedule "replicate 40 9"]]]
  by (metis fst_conv)

text \<open>CFB on 8 bits and on single bits decrypts what it encrypted: all bytes, and the given number
  of leading bits of the buffer with the bits behind them untouched; the shift of \<open>ivec\<close> keeps both
  directions in step although the unit for one bit carries seven bits that are not used.\<close>

theorem cfb_bits_round_trip:
  assumes "length iv = 16" "bits \<le> 8 * length out" "length out2 = length out"
  shows "CRYPTO_cfb128_8_encrypt (AES_encrypt k) (fst (CRYPTO_cfb128_8_encrypt (AES_encrypt k) inp iv True)) iv False
      = (inp, snd (CRYPTO_cfb128_8_encrypt (AES_encrypt k) inp iv True))
    \<and> (let (c, iv1) = CRYPTO_cfb128_1_encrypt (AES_encrypt k) inp bits iv True out;
            (p, iv2) = CRYPTO_cfb128_1_encrypt (AES_encrypt k) c bits iv False out2
        in iv1 = iv2 \<and> (\<forall>m. bit_at p m = bit_at (if m < bits then inp else out2) m)
          \<and> (\<forall>m. bits \<le> m \<longrightarrow> bit_at c m = bit_at out m))"
proof
  let ?B = "AES_encrypt k"
  show "CRYPTO_cfb128_8_encrypt ?B (fst (CRYPTO_cfb128_8_encrypt ?B inp iv True)) iv False
      = (inp, snd (CRYPTO_cfb128_8_encrypt ?B inp iv True))"
    unfolding CRYPTO_cfb128_8_encrypt_def
    by (rule bytewise_undo [of "\<lambda>iv. length iv = 16", OF _ _ assms(1)]) (auto simp: cfb8_byte_shift)
  obtain c iv1 bs where c: "cfb1_loop ?B True inp bits 0 out iv = (c, iv1)" "length c = length out"
      "bytewise (cfb1_bit ?B True) (map (bit_at inp) [0..<bits]) iv = (bs, iv1)"
      "\<forall>m. bit_at c m = (if m < bits then bs ! m else bit_at out m)"
    using cfb1_loop_bits [of 0 bits out ?B True inp iv] assms(2) by auto
  obtain p iv2 bs2 where p: "cfb1_loop ?B False c bits 0 out2 iv = (p, iv2)"
      "bytewise (cfb1_bit ?B False) (map (bit_at c) [0..<bits]) iv = (bs2, iv2)"
      "\<forall>m. bit_at p m = (if m < bits then bs2 ! m else bit_at out2 m)"
    using cfb1_loop_bits [of 0 bits out2 ?B False c iv] assms(2,3) by auto
  have "length bs = bits" using length_bytewise [of "cfb1_bit ?B True" "map (bit_at inp) [0..<bits]" iv] c(3) by simp
  then have "map (bit_at c) [0..<bits] = bs" using c(4) by (intro nth_equalityI) auto
  moreover have "bytewise (cfb1_bit ?B False) bs iv = (map (bit_at inp) [0..<bits], iv1)"
    using bytewise_undo [of "\<lambda>iv. length iv = 16" "cfb1_bit ?B True" "cfb1_bit ?B False" iv "map (bit_at inp) [0..<bits]"]
      cfb1_bit_undo [of _ k] assms(1) c(3) by simp
  ultimately have "bs2 = map (bit_at inp) [0..<bits]" "iv2 = iv1" using p(2) by simp_all
  then show "let (c, iv1) = CRYPTO_cfb128_1_encrypt ?B inp bits iv True out;
            (p, iv2) = CRYPTO_cfb128_1_encrypt ?B c bits iv False out2
        in iv1 = iv2 \<and> (\<forall>m. bit_at p m = bit_at (if m < bits then inp else out2) m)
          \<and> (\<forall>m. bits \<le> m \<longrightarrow> bit_at c m = bit_at out m)"
    using c(1,4) p(1,3) by (simp add: CRYPTO_cfb128_1_encrypt_def Let_def)
qed

theorem cfb_bits_round_trip_witness:
  "fst (CRYPTO_cfb128_8_encrypt (AES_encrypt sample_schedule)
     (fst (CRYPTO_cfb128_8_encrypt (AES_encrypt sample_schedule) [1, 2] sample_block True)) sample_block False) = [1, 2]"
  using cfb_bits_round_trip [OF sample_facts(2), of 11 "[0, 0]" "[0, 0]" sample_schedule "[1, 2]"] by simp

end
