(* ===== verification/CtrMode.thy ===== *)
theory CtrMode
  imports StreamModes
begin

text \<open>
  Counter mode of \<open>crypto/modes/ctr128.c\<close>: the increment of the 128-bit big-endian counter (on bytes,
  and on machine words for big-endian machines), the stream mode over it, and the variant over a
  routine that counts in 32 bits only (\<open>ctr128_f\<close>) with the overflow handled by the caller.
\<close>

section \<open>The counter\<close>

text \<open>\<open>do { --n; c += counter[n]; counter[n] = (u8)c; c >>= 8; } while (n);\<close> from \<open>n\<close> down.\<close>

primrec carry_loop :: "nat \<Rightarrow> u32 \<Rightarrow> byte list \<Rightarrow> byte list" where
  "carry_loop 0 c counter = counter"
| "carry_loop (Suc n) c counter =
     (let c = c + ucast (counter ! n)
      in carry_loop n (drop_bit 8 c) (counter[n := ucast c]))"

definition ctr128_inc :: "byte list \<Rightarrow> byte list" where
  "ctr128_inc counter = carry_loop 16 1 counter"

definition ctr96_inc :: "byte list \<Rightarrow> byte list" where
  "ctr96_inc counter = carry_loop 12 1 counter"

text \<open>
  \<open>ctr128_inc_aligned\<close> on a big-endian machine with 64-bit words and an aligned counter: \<open>data[0]\<close> is the
  high word. Elsewhere it calls \<open>ctr128_inc\<close>, as the mode below does.
\<close>

primrec word_carry_loop :: "nat \<Rightarrow> u64 \<Rightarrow> u64 list \<Rightarrow> u64 list" where
  "word_carry_loop 0 c data = data"
| "word_carry_loop (Suc n) c data =
     (let d = data ! n + c
      in word_carry_loop n (drop_bit 63 ((d - c) XOR d)) (data[n := d]))"

definition ctr128_inc_words :: "u64 list \<Rightarrow> u64 list" where
  "ctr128_inc_words data = word_carry_loop 2 1 data"

section \<open>The mode\<close>

record counter =
  ctr_ivec :: "byte list"
  ecount_buf :: "byte list"
  ctr_num :: nat

definition ok_counter :: "counter \<Rightarrow> bool" where
  "ok_counter s \<longleftrightarrow> length (ctr_ivec s) = 16 \<and> length (ecount_buf s) = 16 \<and> ctr_num s < 16"

definition ctr_use :: "counter \<Rightarrow> byte \<Rightarrow> byte \<times> counter" where
  "ctr_use s b = (b XOR ecount_buf s ! ctr_num s, s\<lparr>ctr_num := (ctr_num s + 1) mod 16\<rparr>)"

definition ctr_refill :: "(byte list \<Rightarrow> byte list) \<Rightarrow> counter \<Rightarrow> counter" where
  "ctr_refill block s = s\<lparr>ecount_buf := block (ctr_ivec s), ctr_ivec := ctr128_inc (ctr_ivec s)\<rparr>"

definition ctr_blk :: "(byte list \<Rightarrow> byte list) \<Rightarrow> byte list \<Rightarrow> counter \<Rightarrow> byte list \<times> counter" where
  "ctr_blk block inp s =
     (let s = ctr_refill block s in (xor_bytes inp (ecount_buf s), s\<lparr>ctr_num := 0\<rparr>))"

definition ctr_rest :: "(byte list \<Rightarrow> byte list) \<Rightarrow> byte list \<Rightarrow> counter \<Rightarrow> byte list \<times> counter" where
  "ctr_rest block inp s =
     (let s = ctr_refill block s in (xor_bytes inp (ecount_buf s), s\<lparr>ctr_num := length inp\<rparr>))"

definition CRYPTO_ctr128_encrypt ::
  "(byte list \<Rightarrow> byte list) \<Rightarrow> byte list \<Rightarrow> counter \<Rightarrow> byte list \<times> counter"
where
  "CRYPTO_ctr128_encrypt block = three_loops ctr_num ctr_use (ctr_blk block) (ctr_rest block)"

definition ctr_byte :: "(byte list \<Rightarrow> byte list) \<Rightarrow> counter \<Rightarrow> byte \<Rightarrow> byte \<times> counter" where
  "ctr_byte block s b = ctr_use (if ctr_num s = 0 then ctr_refill block s else s) b"

section \<open>The variant over a 32-bit counter\<close>

text \<open>
  \<open>func inp blocks ivec\<close> is what \<open>(*func)(in, out, blocks, key, ivec)\<close> writes. The loop limits the number
  of blocks to \<open>2 ^ 28\<close> and to the point where the low 32 bits of the counter overflow.
\<close>

definition limit_blocks :: "u32 \<Rightarrow> nat \<Rightarrow> nat \<times> u32" where
  "limit_blocks ctr32 len =
     (let blocks = len div 16;
          blocks = (if 2 ^ 28 < blocks then 2 ^ 28 else blocks);
          ctr32 = ctr32 + word_of_nat blocks
      in if unat ctr32 < blocks then (blocks - unat ctr32, 0) else (blocks, ctr32))"

definition put_ctr32 :: "byte list \<Rightarrow> u32 \<Rightarrow> byte list" where
  "put_ctr32 iv ctr32 =
     (let iv = take 12 iv @ PUTU32 ctr32 in if ctr32 = 0 then ctr96_inc iv else iv)"

lemma limit_blocks_progress: "16 \<le> len \<Longrightarrow> limit_blocks ctr32 len = (blocks, c) \<Longrightarrow> 0 < blocks \<and> 16 * blocks \<le> len"
  by (auto simp: limit_blocks_def Let_def split: if_splits)

function ctr32_blocks ::
  "(byte list \<Rightarrow> nat \<Rightarrow> byte list \<Rightarrow> byte list) \<Rightarrow> byte list \<Rightarrow> byte list \<Rightarrow> u32
     \<Rightarrow> byte list \<times> byte list \<times> byte list \<times> u32"
where
  "ctr32_blocks func inp iv ctr32 =
     (if 16 \<le> length inp
      then let (blocks, ctr32) = limit_blocks ctr32 (length inp);
               out = func (take (16 * blocks) inp) blocks iv;
               iv = put_ctr32 iv ctr32;
               (outs, r) = ctr32_blocks func (drop (16 * blocks) inp) iv ctr32
           in (out @ outs, r)
      else ([], inp, iv, ctr32))"
  by pat_completeness auto
termination
proof (relation "measure (\<lambda>(func, inp, iv, ctr32). length inp)")
  fix func :: "byte list \<Rightarrow> nat \<Rightarrow> byte list \<Rightarrow> byte list" and inp iv :: "byte list" and ctr32 ctr32' :: u32
    and blocks :: nat and x out ivx
  assume "16 \<le> length inp" "x = limit_blocks ctr32 (length inp)" "(blocks, ctr32') = x"
  then show "((func, drop (16 * blocks) inp, ivx, ctr32'), (func, inp, iv, ctr32))
      \<in> measure (\<lambda>(func, inp, iv, ctr32). length inp)"
    using limit_blocks_progress [of "length inp" ctr32 blocks ctr32'] by auto
qed simp

declare ctr32_blocks.simps [simp del]

definition CRYPTO_ctr128_encrypt_ctr32 ::
  "(byte list \<Rightarrow> nat \<Rightarrow> byte list \<Rightarrow> byte list) \<Rightarrow> byte list \<Rightarrow> counter \<Rightarrow> byte list \<times> counter"
where
  "CRYPTO_ctr128_encrypt_ctr32 func inp s =
     (let (out1, inp, s) = drain ctr_num ctr_use inp s;
          (out2, inp, iv, ctr32) = ctr32_blocks func inp (ctr_ivec s) (GETU32 (drop 12 (ctr_ivec s)));
          s = s\<lparr>ctr_ivec := iv\<rparr>
      in if 0 < length inp
         then let ecount = func (replicate 16 0) 1 iv
              in (out1 @ out2 @ xor_bytes inp ecount,
                  s\<lparr>ecount_buf := ecount, ctr_ivec := put_ctr32 iv (ctr32 + 1), ctr_num := ctr_num s + length inp\<rparr>)
         else (out1 @ out2, s))"

section \<open>The increment is addition on the number\<close>

definition be_val :: "byte list \<Rightarrow> nat" where
  "be_val l = foldl (\<lambda>a b. 256 * a + unat b) 0 l"

lemma be_val_snoc [simp]: "be_val (l @ [b]) = 256 * be_val l + unat b" and be_val_Nil [simp]: "be_val [] = 0"
  by (simp_all add: be_val_def)

lemma be_val_append: "be_val (a @ b) = be_val a * 256 ^ length b + be_val b"
  by (induction b rule: rev_induct) (simp_all add: append_assoc [symmetric] algebra_simps del: append_assoc)

lemma be_val_less: "be_val l < 256 ^ length l"
proof (induction l rule: rev_induct)
  case (snoc b l)
  have "be_val l + 1 \<le> 256 ^ length l" using snoc by simp
  then have "256 * be_val l + 256 \<le> 256 ^ length (l @ [b])" by simp
  then show ?case using unat_byte_less [of b] unfolding be_val_snoc by linarith
qed simp

lemma be_val_inject: "length a = length b \<Longrightarrow> be_val a = be_val b \<Longrightarrow> a = b"
proof (induction a arbitrary: b rule: rev_induct)
  case (snoc x a)
  then obtain y c where b: "b = c @ [y]" by (cases b rule: rev_cases) auto
  have "256 * be_val a + unat x = 256 * be_val c + unat y" using snoc.prems b by simp
  from arg_cong [OF this, of "\<lambda>n. n div 256"] arg_cong [OF this, of "\<lambda>n. n mod 256"]
  have "be_val a = be_val c" "unat x = unat y" by simp_all
  then show ?case using snoc b by (simp add: unsigned_word_eqI)
qed simp

lemma length_carry_loop [simp]: "length (carry_loop n c l) = length l"
  by (induction n arbitrary: c l) (simp_all add: Let_def)

lemma nth_carry_loop: "n \<le> i \<Longrightarrow> carry_loop n c l ! i = l ! i"
  by (induction n arbitrary: c l) (simp_all add: Let_def)

lemma carry_add: "256 * (x mod m) + r = (256 * x + r) mod (256 * m)" if "r < 256" for x m r :: nat
proof -
  have "(256 * x + r) mod (256 * m) = 256 * ((256 * x + r) div 256 mod m) + (256 * x + r) mod 256"
    by (rule mod_mult2_eq)
  then show ?thesis using that by simp
qed

lemma div_mod_split: "256 * (a + u div 256) + u mod 256 = 256 * a + u" for a u :: nat
  by (simp add: distrib_left)

lemma carry_loop_val:
  "\<lbrakk>n \<le> length l; unat c \<le> 1\<rbrakk> \<Longrightarrow> be_val (take n (carry_loop n c l)) = (be_val (take n l) + unat c) mod 256 ^ n"
proof (induction n arbitrary: c l)
  case (Suc n)
  let ?c = "c + ucast (l ! n) :: u32" and ?b = "l ! n"
  have uc: "unat ?c = unat c + unat ?b"
  proof -
    have "unat ?b < 2 ^ 32" by (rule order.strict_trans [OF unat_byte_less]) simp
    then have "unat (ucast ?b :: u32) = unat ?b" by (simp add: unsigned_ucast_eq take_bit_nat_eq_self)
    moreover have "unat c + unat ?b < 4294967296" using Suc.prems(2) unat_byte_less [of ?b] by linarith
    ultimately show ?thesis by (simp add: unat_word_ariths)
  qed
  have carry: "unat (drop_bit 8 ?c) = (unat c + unat ?b) div 256"
    using uc by (simp add: drop_bit_eq_div unat_div)
  have low: "unat (ucast ?c :: byte) = (unat c + unat ?b) mod 256"
    by (simp add: unsigned_ucast_eq take_bit_eq_mod uc)
  let ?l = "l[n := ucast ?c]" and ?r = "carry_loop n (drop_bit 8 ?c) (l[n := ucast ?c])"
  have "unat (drop_bit 8 ?c) \<le> 1" unfolding carry using div_le_mono [of "unat c + unat ?b" 256 256] Suc.prems unat_byte_less [of ?b] by linarith
  then have IH: "be_val (take n ?r) = (be_val (take n l) + (unat c + unat ?b) div 256) mod 256 ^ n"
    using Suc.IH [of ?l "drop_bit 8 ?c"] Suc.prems unfolding carry by simp
  have take: "take (Suc n) ?r = take n ?r @ [ucast ?c]" "take (Suc n) l = take n l @ [?b]"
    using Suc.prems by (simp_all add: take_Suc_conv_app_nth nth_carry_loop)
  have "be_val (take (Suc n) ?r) = 256 * ((be_val (take n l) + (unat c + unat ?b) div 256) mod 256 ^ n)
      + (unat c + unat ?b) mod 256"
    unfolding take be_val_snoc IH low ..
  also have "\<dots> = (256 * (be_val (take n l) + (unat c + unat ?b) div 256) + (unat c + unat ?b) mod 256) mod (256 * 256 ^ n)"
    by (rule carry_add) simp
  also have "256 * (be_val (take n l) + (unat c + unat ?b) div 256) + (unat c + unat ?b) mod 256
      = be_val (take (Suc n) l) + unat c"
    unfolding take be_val_snoc div_mod_split by simp
  finally show ?case by (simp add: Let_def)
qed simp

lemma length_inc [simp]: "length (ctr128_inc l) = length l" "length (ctr96_inc l) = length l"
  by (simp_all add: ctr128_inc_def ctr96_inc_def)

lemma ctr128_inc_val: "length l = 16 \<Longrightarrow> be_val (ctr128_inc l) = (be_val l + 1) mod 2 ^ 128"
  using carry_loop_val [of 16 l 1] by (simp add: ctr128_inc_def)

lemma ctr96_inc_val:
  assumes "length l = 16"
  shows "be_val (take 12 (ctr96_inc l)) = (be_val (take 12 l) + 1) mod 2 ^ 96" "drop 12 (ctr96_inc l) = drop 12 l"
proof -
  show "be_val (take 12 (ctr96_inc l)) = (be_val (take 12 l) + 1) mod 2 ^ 96"
    using carry_loop_val [of 12 l 1] assms by (simp add: ctr96_inc_def)
  show "drop 12 (ctr96_inc l) = drop 12 l"
    using assms by (intro nth_equalityI) (simp_all add: ctr96_inc_def nth_carry_loop)
qed

section \<open>The key stream\<close>

text \<open>Byte \<open>i\<close> is XORed with byte \<open>i mod 16\<close> of the encrypted counter, \<open>i div 16\<close> increments on.\<close>

definition key_stream :: "(byte list \<Rightarrow> byte list) \<Rightarrow> byte list \<Rightarrow> byte list \<Rightarrow> byte list" where
  "key_stream block iv inp =
     map (\<lambda>i. inp ! i XOR block ((ctr128_inc ^^ (i div 16)) iv) ! (i mod 16)) [0..<length inp]"

lemma length_key_stream [simp]: "length (key_stream block iv inp) = length inp"
  by (simp add: key_stream_def)

lemma length_incs [simp]: "length ((ctr128_inc ^^ n) iv) = length iv"
  by (induction n) simp_all

lemma key_stream_short:
  assumes "length inp \<le> 16" "\<And>b. length (block b) = 16"
  shows "key_stream block iv inp = xor_bytes inp (block iv)"
proof (rule nth_equalityI)
  fix i assume "i < length (key_stream block iv inp)"
  then have "i < length inp" "i div 16 = 0" "i mod 16 = i" "i < 16" using assms(1) by auto
  then show "key_stream block iv inp ! i = xor_bytes inp (block iv) ! i"
    using assms(2) by (simp add: key_stream_def)
qed (use assms in simp)

lemma key_stream_append:
  assumes "length a = 16 * m"
  shows "key_stream block iv (a @ b) = key_stream block iv a @ key_stream block ((ctr128_inc ^^ m) iv) b"
proof (rule nth_equalityI)
  fix i assume i: "i < length (key_stream block iv (a @ b))"
  show "key_stream block iv (a @ b) ! i = (key_stream block iv a @ key_stream block ((ctr128_inc ^^ m) iv) b) ! i"
  proof (cases "i < 16 * m")
    case True
    then show ?thesis using i assms by (simp add: key_stream_def nth_append)
  next
    case False
    then obtain j where j: "i = 16 * m + j" using le_Suc_ex by (metis not_less)
    have d: "i div 16 = j div 16 + m" "i mod 16 = j mod 16" using j by simp_all
    have "key_stream block iv (a @ b) ! i = b ! j XOR block ((ctr128_inc ^^ (j div 16 + m)) iv) ! (j mod 16)"
      unfolding d [symmetric] using i assms j by (simp add: key_stream_def nth_append)
    then show ?thesis using i assms j by (simp add: key_stream_def nth_append funpow_add)
  qed
qed simp

lemma ctr_uses:
  "\<lbrakk>ok_counter s; ctr_num s + length x \<le> 16\<rbrakk> \<Longrightarrow> bytewise ctr_use x s
     = (xor_bytes x (drop (ctr_num s) (ecount_buf s)), s\<lparr>ctr_num := (ctr_num s + length x) mod 16\<rparr>)"
proof (induction x arbitrary: s)
  case (Cons b x)
  show ?case
  proof (cases "x = []")
    case True
    then show ?thesis
      using Cons.prems by (simp add: ctr_use_def ok_counter_def flip: Cons_nth_drop_Suc)
  next
    case False
    then have n: "Suc (ctr_num s) < 16" using Cons.prems(2) by (cases x) auto
    then show ?thesis
      using Cons.IH [of "snd (ctr_use s b)"] Cons.prems
      by (simp add: ctr_use_def ok_counter_def Cons_nth_drop_Suc [symmetric, of "ctr_num s"])
  qed
qed (simp add: ok_counter_def)

interpretation ctr: stream_mode ok_counter ctr_num ctr_use "ctr_refill (AES_encrypt k)"
  "ctr_blk (AES_encrypt k)" "ctr_rest (AES_encrypt k)" for k
proof (unfold_locales, goal_cases)
  case (6 s x)
  then show ?case
    using ctr_uses [of "ctr_refill (AES_encrypt k) s" x]
    by (simp add: ok_counter_def ctr_refill_def ctr_blk_def Let_def)
next
  case (7 s x)
  then show ?case
    using ctr_uses [of "ctr_refill (AES_encrypt k) s" x]
    by (simp add: ok_counter_def ctr_refill_def ctr_rest_def Let_def)
qed (auto simp: ok_counter_def ctr_use_def ctr_refill_def)

lemma ctr_step_byte: "ctr.step k = ctr_byte (AES_encrypt k)"
  by (auto simp: fun_eq_iff ctr.step_def ctr_byte_def)

lemma ctr_bytewise:
  "ok_counter s \<Longrightarrow> CRYPTO_ctr128_encrypt (AES_encrypt k) inp s = bytewise (ctr_byte (AES_encrypt k)) inp s"
  by (simp add: CRYPTO_ctr128_encrypt_def ctr.three_loops_bytewise ctr_step_byte)

lemma chunks_key_stream:
  assumes "\<And>b. length (block b) = 16"
  shows "\<exists>s'. chunks (ctr_blk block) inp s =
      (key_stream block (ctr_ivec s) (take (16 * (length inp div 16)) inp), drop (16 * (length inp div 16)) inp, s')
    \<and> ctr_ivec s' = (ctr128_inc ^^ (length inp div 16)) (ctr_ivec s)
    \<and> ctr_num s' = (if 16 \<le> length inp then 0 else ctr_num s)"
proof (induction "length inp" arbitrary: inp s rule: less_induct)
  case less
  show ?case
  proof (cases "16 \<le> length inp")
    case True
    have lt: "length (drop 16 inp) < length inp" using True by simp
    let ?n = "length (drop 16 inp) div 16"
    have n: "length inp div 16 = Suc ?n" using True by (simp add: le_div_geq)
    let ?s = "snd (ctr_blk block (take 16 inp) s)"
    obtain s' where IH: "chunks (ctr_blk block) (drop 16 inp) ?s =
        (key_stream block (ctr_ivec ?s) (take (16 * ?n) (drop 16 inp)), drop (16 * ?n) (drop 16 inp), s')"
      "ctr_ivec s' = (ctr128_inc ^^ ?n) (ctr_ivec ?s)"
      "ctr_num s' = (if 16 \<le> length (drop 16 inp) then 0 else ctr_num ?s)"
      using less [OF lt, of ?s] by blast
    have iv: "ctr_ivec ?s = ctr128_inc (ctr_ivec s)" "ctr_num ?s = 0"
      "fst (ctr_blk block (take 16 inp) s) = key_stream block (ctr_ivec s) (take 16 inp)"
      using key_stream_short [of "take 16 inp" block "ctr_ivec s"] assms
      by (simp_all add: ctr_blk_def ctr_refill_def Let_def)
    have "chunks (ctr_blk block) inp s = (key_stream block (ctr_ivec s) (take 16 inp)
        @ key_stream block ((ctr128_inc ^^ 1) (ctr_ivec s)) (take (16 * ?n) (drop 16 inp)), drop (16 * ?n) (drop 16 inp), s')"
      using True IH(1) iv by (subst chunks.simps) (simp add: case_prod_beta Let_def)
    also have "key_stream block (ctr_ivec s) (take 16 inp) @ key_stream block ((ctr128_inc ^^ 1) (ctr_ivec s)) (take (16 * ?n) (drop 16 inp))
        = key_stream block (ctr_ivec s) (take 16 inp @ take (16 * ?n) (drop 16 inp))"
      using True by (intro key_stream_append [symmetric]) simp
    finally show ?thesis
      using True IH(2,3) iv unfolding n by (simp add: take_add [symmetric] funpow_swap1 add.commute)
  next
    case False
    then show ?thesis by (subst chunks.simps) (simp add: key_stream_def)
  qed
qed

section \<open>Counting in 32 bits with a carry\<close>

lemma unat_word_bytes:
  "unat (w :: u32) = 2 ^ 24 * unat (byte3 w) + 2 ^ 16 * unat (byte2 w) + 2 ^ 8 * unat (byte1 w) + unat (byte0 w)"
proof -
  define u where "u = unat w"
  have u: "u < 2 ^ 32" unfolding u_def using unsigned_less [of w] by simp
  have b: "unat (byte3 w) = u div 2 ^ 24 mod 2 ^ 8" "unat (byte2 w) = u div 2 ^ 16 mod 2 ^ 8"
    "unat (byte1 w) = u div 2 ^ 8 mod 2 ^ 8" "unat (byte0 w) = u mod 2 ^ 8"
    unfolding byte_defs u_def
    by (simp_all add: unsigned_ucast_eq take_bit_eq_mod drop_bit_eq_div unat_div)
  define A B C where "A = u div 2 ^ 8" and "B = u div 2 ^ 16" and "C = u div 2 ^ 24"
  have "u = 256 * A + u mod 2 ^ 8" "A = 256 * B + A mod 2 ^ 8" "B = 256 * C + B mod 2 ^ 8" "C mod 2 ^ 8 = C"
    using mult_div_mod_eq [of "2 ^ 8" A] mult_div_mod_eq [of "2 ^ 8" B] u
    by (simp_all add: A_def B_def C_def div_mult2_eq [symmetric])
  then have "u = 16777216 * C + 65536 * (B mod 2 ^ 8) + 256 * (A mod 2 ^ 8) + u mod 2 ^ 8" by linarith
  then show ?thesis
    using \<open>C mod 2 ^ 8 = C\<close> unfolding b u_def [symmetric] A_def [symmetric] B_def [symmetric] C_def [symmetric] by simp
qed

lemma be_val_quad:
  assumes "length p = 4"
  shows "be_val p = unat (GETU32 p)"
proof -
  obtain a b c d where "p = [a, b, c, d]" using assms by (auto simp: numeral_eq_Suc length_Suc_conv)
  then show ?thesis unfolding unat_word_bytes byte_GETU32 by (simp add: be_val_def)
qed

lemma be_val_split:
  assumes "length iv = 16"
  shows "be_val iv = be_val (take 12 iv) * 2 ^ 32 + unat (GETU32 (drop 12 iv))"
proof -
  have "be_val (take 12 iv @ drop 12 iv) = be_val (take 12 iv) * 256 ^ 4 + be_val (drop 12 iv)"
    using assms by (simp only: be_val_append length_drop) simp
  then show ?thesis using be_val_quad [of "drop 12 iv"] assms by simp
qed

lemma GETU32_put [simp]: "GETU32 (PUTU32 w) = w"
  using GETU32_PUTU32 [of w "[]"] by simp

lemma carry_split_gen:
  fixes h g p q :: nat
  assumes "h < q" "g < p"
  shows "(h * p + g + 1) mod (q * p) = (if g + 1 = p then (h + 1) mod q * p else h * p + (g + 1))"
proof (cases "g + 1 = p")
  case True
  have "h * p + g + 1 = (h + 1) * p" using True by simp
  then show ?thesis using True by (simp only: mod_mult_mult2 if_True refl)
next
  case False
  then have "h * p + g + 1 < (h + 1) * p" using assms(2) by simp
  also have "\<dots> \<le> q * p" using assms(1) by (intro mult_right_mono) auto
  finally show ?thesis using False by simp
qed

lemma carry_split:
  fixes h g :: nat
  assumes "h < 2 ^ 96" "g < 2 ^ 32"
  shows "(h * 2 ^ 32 + g + 1) mod 2 ^ 128
    = (if g + 1 = 2 ^ 32 then (h + 1) mod 2 ^ 96 * 2 ^ 32 else h * 2 ^ 32 + (g + 1))"
proof -
  have "(2 :: nat) ^ 128 = 2 ^ 96 * 2 ^ 32" by simp
  then show ?thesis using carry_split_gen [OF assms] by (simp only:)
qed

lemma unat_suc32: "unat (g + 1 :: u32) = (if unat g + 1 = 2 ^ 32 then 0 else unat g + 1)"
proof -
  have "unat g < 2 ^ 32" using unsigned_less [of g] by simp
  then show ?thesis by (auto simp: unat_word_ariths)
qed

lemma be_val_put: "length h = 12 \<Longrightarrow> be_val (h @ PUTU32 w) = be_val h * 2 ^ 32 + unat w"
  using be_val_split [of "h @ PUTU32 w"] by simp

lemma be_val_put_ctr32:
  assumes "length iv = 16"
  shows "be_val (put_ctr32 iv w)
    = (if w = 0 then (be_val (take 12 iv) + 1) mod 2 ^ 96 * 2 ^ 32 else be_val (take 12 iv) * 2 ^ 32 + unat w)"
proof (cases "w = 0")
  case True
  let ?p = "take 12 iv @ PUTU32 0"
  have len: "length ?p = 16" using assms by simp
  have "be_val (ctr96_inc ?p) = be_val (take 12 (ctr96_inc ?p)) * 2 ^ 32 + unat (GETU32 (drop 12 ?p))"
    using be_val_split [of "ctr96_inc ?p"] ctr96_inc_val(2) [OF len] len by simp
  also have "be_val (take 12 (ctr96_inc ?p)) = (be_val (take 12 iv) + 1) mod 2 ^ 96"
    using ctr96_inc_val(1) [OF len] assms by simp
  finally show ?thesis using True assms by (simp add: put_ctr32_def Let_def)
next
  case False
  then show ?thesis using be_val_put [of "take 12 iv" w] assms by (simp add: put_ctr32_def Let_def)
qed

lemma put_ctr32_inc:
  assumes "length iv = 16"
  shows "ctr128_inc iv = put_ctr32 iv (GETU32 (drop 12 iv) + 1)"
proof (rule be_val_inject)
  define g h where "g = GETU32 (drop 12 iv)" and "h = be_val (take 12 iv)"
  show "length (ctr128_inc iv) = length (put_ctr32 iv (GETU32 (drop 12 iv) + 1))"
    using assms by (simp add: put_ctr32_def Let_def)
  have h: "h < 2 ^ 96" using be_val_less [of "take 12 iv"] assms by (simp add: h_def)
  have g: "unat g < 2 ^ 32" using unsigned_less [of g] by simp
  have "g + 1 = 0 \<longleftrightarrow> unat g + 1 = 2 ^ 32" using unat_suc32 [of g] unat_eq_0 [of "g + 1"] by (auto split: if_splits)
  moreover have "be_val (ctr128_inc iv) = (h * 2 ^ 32 + unat g + 1) mod 2 ^ 128"
    using ctr128_inc_val [OF assms] be_val_split [OF assms] by (simp add: g_def h_def)
  ultimately show "be_val (ctr128_inc iv) = be_val (put_ctr32 iv (GETU32 (drop 12 iv) + 1))"
    unfolding g_def [symmetric] carry_split [OF h g] be_val_put_ctr32 [OF assms] h_def [symmetric]
    using unat_suc32 [of g] by auto
qed

lemma incs_below:
  assumes "length iv = 16" "unat (GETU32 (drop 12 iv)) + j < 2 ^ 32"
  shows "(ctr128_inc ^^ j) iv = take 12 iv @ PUTU32 (GETU32 (drop 12 iv) + word_of_nat j)"
  using assms(2)
proof (induction j)
  case 0
  then show ?case using assms(1) PUTU32_GETU32 [of "drop 12 iv"] by simp
next
  case (Suc j)
  let ?g = "GETU32 (drop 12 iv)"
  let ?w = "?g + word_of_nat j"
  have step: "?w + 1 = ?g + word_of_nat (Suc j)" by (simp add: algebra_simps)
  have "unat (?g + word_of_nat (Suc j)) = unat ?g + Suc j"
    using Suc.prems by (simp add: unat_word_ariths unat_of_nat take_bit_nat_eq_self del: of_nat_Suc)
  then have "?w + 1 \<noteq> 0" unfolding step by (metis unat_0 add_is_0 nat.distinct(1))
  then have "put_ctr32 (take 12 iv @ PUTU32 ?w) (?w + 1) = take 12 iv @ PUTU32 (?w + 1)"
    using assms(1) by (simp add: put_ctr32_def Let_def)
  moreover have "(ctr128_inc ^^ Suc j) iv = put_ctr32 (take 12 iv @ PUTU32 ?w) (?w + 1)"
    using Suc put_ctr32_inc [of "take 12 iv @ PUTU32 ?w"] assms(1) by simp
  ultimately show ?case using step by simp
qed

lemma incs_put:
  assumes "length iv = 16" "unat (GETU32 (drop 12 iv)) + j \<le> 2 ^ 32" "0 < j"
  shows "(ctr128_inc ^^ j) iv = put_ctr32 iv (GETU32 (drop 12 iv) + word_of_nat j)"
proof -
  obtain m where j: "j = Suc m" using assms(3) by (cases j) auto
  let ?w = "GETU32 (drop 12 iv) + word_of_nat m"
  have "(ctr128_inc ^^ j) iv = ctr128_inc (take 12 iv @ PUTU32 ?w)"
    using incs_below [OF assms(1), of m] assms(2) j by simp
  also have "\<dots> = put_ctr32 (take 12 iv @ PUTU32 ?w) (?w + 1)"
    using put_ctr32_inc [of "take 12 iv @ PUTU32 ?w"] assms(1) by simp
  also have "\<dots> = put_ctr32 iv (?w + 1)" using assms(1) by (simp add: put_ctr32_def)
  finally show ?thesis using j by (simp add: algebra_simps)
qed

text \<open>What the 32-bit routine promises: the counter wraps within its low 32 bits.\<close>

definition ctr128_f_spec ::
  "(byte list \<Rightarrow> byte list) \<Rightarrow> (byte list \<Rightarrow> nat \<Rightarrow> byte list \<Rightarrow> byte list) \<Rightarrow> bool"
where
  "ctr128_f_spec block func \<longleftrightarrow> (\<forall>inp blocks iv. length inp = 16 * blocks \<longrightarrow> length iv = 16 \<longrightarrow>
     func inp blocks iv = map (\<lambda>i. inp ! i XOR
       block (take 12 iv @ PUTU32 (GETU32 (drop 12 iv) + word_of_nat (i div 16))) ! (i mod 16)) [0..<16 * blocks])"

lemma limit_blocks_fits:
  assumes "limit_blocks ctr len = (blocks, c)" "16 \<le> len"
  shows "unat ctr + blocks \<le> 2 ^ 32" "c = ctr + word_of_nat blocks"
proof -
  define b where "b = (if 2 ^ 28 < len div 16 then 2 ^ 28 else len div 16 :: nat)"
  have b: "b \<le> 2 ^ 28" "0 < b" using assms(2) by (auto simp: b_def)
  have ctr: "unat ctr < 2 ^ 32" using unsigned_less [of ctr] by simp
  have "b mod 2 ^ 32 = b" using b by simp
  then have sum: "unat (ctr + word_of_nat b) = (unat ctr + b) mod 2 ^ 32"
    by (simp add: unat_word_ariths unat_of_nat take_bit_eq_mod mod_simps)
  have lim: "(blocks, c) = (if unat (ctr + word_of_nat b) < b then (b - unat (ctr + word_of_nat b), 0) else (b, ctr + word_of_nat b))"
    using assms(1) unfolding limit_blocks_def Let_def b_def [symmetric] by (rule sym)
  have "unat ctr + blocks \<le> 2 ^ 32 \<and> c = ctr + word_of_nat blocks"
  proof (cases "unat ctr + b < 2 ^ 32")
    case True
    then have "unat (ctr + word_of_nat b) = unat ctr + b" using sum by simp
    then show ?thesis using lim True by simp
  next
    case False
    then have "unat (ctr + word_of_nat b) = unat ctr + b - 2 ^ 32"
      unfolding sum using ctr b(1) by (simp add: le_mod_geq not_less)
    moreover have "unat ctr + b - 2 ^ 32 < b" using False ctr b(2) by linarith
    ultimately have eqs: "blocks = 2 ^ 32 - unat ctr" "c = 0" using lim ctr False by auto
    have "ctr + word_of_nat (2 ^ 32 - unat ctr) = word_of_nat (unat ctr + (2 ^ 32 - unat ctr))"
      by (simp only: of_nat_add of_nat_unat ucast_id)
    also have "unat ctr + (2 ^ 32 - unat ctr) = 2 ^ 32" using ctr by simp
    also have "(word_of_nat (2 ^ 32) :: u32) = 0" by simp
    finally show ?thesis using eqs ctr by simp
  qed
  then show "unat ctr + blocks \<le> 2 ^ 32" "c = ctr + word_of_nat blocks" by auto
qed

lemma func_key_stream:
  assumes "ctr128_f_spec block func" "length inp = 16 * blocks" "length iv = 16"
    "unat (GETU32 (drop 12 iv)) + blocks \<le> 2 ^ 32"
  shows "func inp blocks iv = key_stream block iv inp"
proof -
  have "func inp blocks iv = map (\<lambda>i. inp ! i XOR
       block (take 12 iv @ PUTU32 (GETU32 (drop 12 iv) + word_of_nat (i div 16))) ! (i mod 16)) [0..<16 * blocks]"
    using assms(1-3) by (simp only: ctr128_f_spec_def)
  also have "\<dots> = key_stream block iv inp"
    unfolding key_stream_def assms(2)
  proof (rule map_cong [OF refl])
    fix i assume "i \<in> set [0..<16 * blocks]"
    then have "i div 16 < blocks" by (simp add: div_less_iff_less_mult mult.commute)
    then show "inp ! i XOR block (take 12 iv @ PUTU32 (GETU32 (drop 12 iv) + word_of_nat (i div 16))) ! (i mod 16)
        = inp ! i XOR block ((ctr128_inc ^^ (i div 16)) iv) ! (i mod 16)"
      using incs_below [OF assms(3), of "i div 16"] assms(4) by simp
  qed
  finally show ?thesis .
qed

lemma put_ctr32_shape:
  assumes "length iv = 16"
  shows "length (put_ctr32 iv w) = 16" "GETU32 (drop 12 (put_ctr32 iv w)) = w"
  using assms ctr96_inc_val(2) [of "take 12 iv @ PUTU32 w"] by (cases "w = 0"; simp add: put_ctr32_def Let_def)+

lemma ctr32_blocks_key_stream:
  assumes "ctr128_f_spec block func"
  shows "length iv = 16 \<Longrightarrow>
    ctr32_blocks func inp iv (GETU32 (drop 12 iv)) =
      (key_stream block iv (take (16 * (length inp div 16)) inp), drop (16 * (length inp div 16)) inp,
       (ctr128_inc ^^ (length inp div 16)) iv, GETU32 (drop 12 ((ctr128_inc ^^ (length inp div 16)) iv)))"
proof (induction "length inp" arbitrary: inp iv rule: less_induct)
  case less
  show ?case
  proof (cases "16 \<le> length inp")
    case True
    obtain m c where m: "limit_blocks (GETU32 (drop 12 iv)) (length inp) = (m, c)" by fastforce
    note fits = limit_blocks_fits [OF m True] and prog = limit_blocks_progress [OF True m]
    define n where "n = length (drop (16 * m) inp) div 16"
    let ?iv = "put_ctr32 iv c" and ?n = n
    have iv: "?iv = (ctr128_inc ^^ m) iv" "length ?iv = 16" "GETU32 (drop 12 ?iv) = c"
      using incs_put [OF less.prems fits(1)] fits(2) prog put_ctr32_shape [OF less.prems] by auto
    have out: "func (take (16 * m) inp) m iv = key_stream block iv (take (16 * m) inp)"
      using func_key_stream [OF assms _ less.prems fits(1)] prog by simp
    have n: "length inp div 16 = n + m" using prog by (auto simp: n_def dest: le_Suc_ex)
    have comp: "(ctr128_inc ^^ (n + m)) iv = (ctr128_inc ^^ n) ?iv" unfolding iv(1) by (simp only: funpow_add o_apply)
    have lt: "length (drop (16 * m) inp) < length inp" using prog True by auto
    have IH: "ctr32_blocks func (drop (16 * m) inp) ?iv c =
      (key_stream block ?iv (take (16 * ?n) (drop (16 * m) inp)), drop (16 * ?n) (drop (16 * m) inp),
       (ctr128_inc ^^ ?n) ?iv, GETU32 (drop 12 ((ctr128_inc ^^ ?n) ?iv)))"
      using less.hyps [OF lt iv(2)] iv(3) by (simp add: n_def)
    have "key_stream block iv (take (16 * m) inp @ take (16 * ?n) (drop (16 * m) inp))
        = key_stream block iv (take (16 * m) inp) @ key_stream block ?iv (take (16 * ?n) (drop (16 * m) inp))"
      unfolding iv(1) using prog by (intro key_stream_append) simp
    moreover have "take (16 * m) inp @ take (16 * ?n) (drop (16 * m) inp) = take (16 * (?n + m)) inp"
      by (simp only: take_add [symmetric] distrib_left add.commute)
    ultimately show ?thesis
      unfolding n comp using True m out IH
      by (subst ctr32_blocks.simps) (simp add: Let_def distrib_left add.commute)
  next
    case False
    then show ?thesis by (subst ctr32_blocks.simps) (simp add: key_stream_def)
  qed
qed

section \<open>The word-wise increment\<close>

lemma u32_less: "unat (w :: u32) < 2 ^ 32"
  using unsigned_less [of w] by simp

lemma top_bit: "bit (l :: u64) 63 \<longleftrightarrow> 2 ^ 63 \<le> unat l"
proof -
  have "unat l < 2 ^ 64" using unsigned_less [of l] by simp
  then have "unat l div 2 ^ 63 = (if 2 ^ 63 \<le> unat l then 1 else 0)" by (auto intro!: div_nat_eqI)
  moreover have "bit l 63 = odd (unat l div 2 ^ 63)"
    using bit_iff_odd [of "unat l" 63] bit_unsigned_iff [of l 63, where 'a = nat] by simp
  ultimately show ?thesis by simp
qed

lemma drop_63: "drop_bit 63 (x :: u64) = (if bit x 63 then 1 else 0)"
proof (rule bit_word_eqI)
  fix n :: nat
  have "\<not> bit x (63 + n)" if "n \<noteq> 0" using bit_imp_le_length [of x "63 + n"] that by auto
  then show "bit (drop_bit 63 x) n = bit (if bit x 63 then 1 else 0 :: u64) n"
    by (cases "n = 0") (auto simp: bit_simps)
qed

lemma unat_suc64: "unat (l + 1 :: u64) = (if unat l + 1 = 2 ^ 64 then 0 else unat l + 1)"
proof -
  have "unat l < 2 ^ 64" using unsigned_less [of l] by simp
  then show ?thesis by (auto simp: unat_word_ariths)
qed

lemma word_carry:
  "drop_bit 63 ((l + 1 - 1) XOR (l + 1)) = (if unat l = 2 ^ 63 - 1 \<or> unat l = 2 ^ 64 - 1 then 1 else 0 :: u64)"
proof -
  have "unat l < 2 ^ 64" using unsigned_less [of l] by simp
  then have "bit l 63 \<noteq> bit (l + 1) 63 \<longleftrightarrow> unat l = 2 ^ 63 - 1 \<or> unat l = 2 ^ 64 - 1"
    unfolding top_bit unat_suc64 by auto
  then show ?thesis by (auto simp: drop_63 bit_xor_iff)
qed

section \<open>Properties of counter mode\<close>

lemma ctr_from_block:
  assumes "ctr_num s = 0" "\<And>b. length (block b) = 16"
  shows "fst (CRYPTO_ctr128_encrypt block inp s) = key_stream block (ctr_ivec s) inp"
proof -
  let ?n = "length inp div 16"
  have drain: "drain ctr_num ctr_use inp s = ([], inp, s)" using assms(1) by (cases inp) auto
  obtain s' where c: "chunks (ctr_blk block) inp s = (key_stream block (ctr_ivec s) (take (16 * ?n) inp), drop (16 * ?n) inp, s')"
    "ctr_ivec s' = (ctr128_inc ^^ ?n) (ctr_ivec s)"
    using chunks_key_stream [of block inp s] assms(2) by blast
  have rest: "length (drop (16 * ?n) inp) \<le> 16"
    using mod_less_divisor [of 16 "length inp"] by (simp add: minus_mult_div_eq_mod)
  have "fst (ctr_rest block (drop (16 * ?n) inp) s') = key_stream block (ctr_ivec s') (drop (16 * ?n) inp)"
    using key_stream_short [OF rest assms(2)] by (simp add: ctr_rest_def ctr_refill_def Let_def)
  moreover have "key_stream block (ctr_ivec s) (take (16 * ?n) inp @ drop (16 * ?n) inp)
      = key_stream block (ctr_ivec s) (take (16 * ?n) inp) @ key_stream block (ctr_ivec s') (drop (16 * ?n) inp)"
    unfolding c(2) by (rule key_stream_append) simp
  ultimately show ?thesis
    using drain c(1) by (auto simp: CRYPTO_ctr128_encrypt_def three_loops_def Let_def key_stream_def split: prod.split)
qed

text \<open>\<open>CRYPTO_ctr128_encrypt\<close> from a fresh counter XORs byte \<open>i\<close> with byte \<open>i mod 16\<close> of the encryption of the
  counter plus \<open>i div 16\<close>, the counter counting modulo \<open>2 ^ 128\<close> big-endian; a message can be cut into
  calls anywhere with \<open>(ivec, ecount_buf, num)\<close> carried over; and a second application from the same
  state gives the message back.\<close>

theorem ctr128_stream:
  assumes "ok_counter s"
  shows "(ctr_num s = 0 \<longrightarrow> fst (CRYPTO_ctr128_encrypt (AES_encrypt k) inp s) = key_stream (AES_encrypt k) (ctr_ivec s) inp)
    \<and> be_val ((ctr128_inc ^^ n) (ctr_ivec s)) = (be_val (ctr_ivec s) + n) mod 2 ^ 128
    \<and> CRYPTO_ctr128_encrypt (AES_encrypt k) (a @ b) s =
        (let (x, t) = CRYPTO_ctr128_encrypt (AES_encrypt k) a s;
             (y, u) = CRYPTO_ctr128_encrypt (AES_encrypt k) b t in (x @ y, u))
    \<and> CRYPTO_ctr128_encrypt (AES_encrypt k) (fst (CRYPTO_ctr128_encrypt (AES_encrypt k) inp s)) s
        = (inp, snd (CRYPTO_ctr128_encrypt (AES_encrypt k) inp s))"
proof -
  have ok: "ok_counter t \<Longrightarrow> ok_counter (snd (ctr_byte (AES_encrypt k) t c))" for t c
    using ctr.ok_step by (simp add: ctr_step_byte)
  have "ok_counter (snd (bytewise (ctr_byte (AES_encrypt k)) a s))"
    by (rule bytewise_invariant [of ok_counter, OF ok assms])
  then have cut: "CRYPTO_ctr128_encrypt (AES_encrypt k) (a @ b) s =
        (let (x, t) = CRYPTO_ctr128_encrypt (AES_encrypt k) a s;
             (y, u) = CRYPTO_ctr128_encrypt (AES_encrypt k) b t in (x @ y, u))"
    using assms by (simp add: ctr_bytewise bytewise_append case_prod_beta Let_def)
  have "bytewise (ctr_byte (AES_encrypt k)) (fst (bytewise (ctr_byte (AES_encrypt k)) inp s)) s
      = (inp, snd (bytewise (ctr_byte (AES_encrypt k)) inp s))"
    by (rule bytewise_undo [of ok_counter, OF ok _ assms]) (auto simp: ctr_byte_def ctr_use_def)
  then have undo: "CRYPTO_ctr128_encrypt (AES_encrypt k) (fst (CRYPTO_ctr128_encrypt (AES_encrypt k) inp s)) s
      = (inp, snd (CRYPTO_ctr128_encrypt (AES_encrypt k) inp s))"
    using assms by (simp add: ctr_bytewise)
  have "be_val ((ctr128_inc ^^ n) (ctr_ivec s)) = (be_val (ctr_ivec s) + n) mod 2 ^ 128"
  proof (induction n)
    case 0
    then show ?case using be_val_less [of "ctr_ivec s"] assms by (simp add: ok_counter_def)
  next
    case (Suc n)
    then show ?case using ctr128_inc_val [of "(ctr128_inc ^^ n) (ctr_ivec s)"] assms
      by (simp add: ok_counter_def mod_simps)
  qed
  then show ?thesis using cut undo ctr_from_block [of s "AES_encrypt k" inp] by simp
qed

theorem ctr128_stream_witness:
  "fst (CRYPTO_ctr128_encrypt (AES_encrypt sample_schedule) [1, 2, 3]
     \<lparr>ctr_ivec = sample_block, ecount_buf = sample_block, ctr_num = 0\<rparr>)
   = key_stream (AES_encrypt sample_schedule) sample_block [1, 2, 3]"
  using ctr128_stream [of "\<lparr>ctr_ivec = sample_block, ecount_buf = sample_block, ctr_num = 0\<rparr>" sample_schedule "[1, 2, 3]"]
  by (simp add: ok_counter_def sample_facts(2))

text \<open>\<open>CRYPTO_ctr128_encrypt_ctr32\<close> over any routine that encrypts blocks under a counter of which
  only the low 32 bits count agrees with \<open>CRYPTO_ctr128_encrypt\<close>: same output, same counter, same number
  of bytes used and same buffered block while it is in use, however often the low word overflows.\<close>

theorem ctr32_agrees:
  assumes "ctr128_f_spec (AES_encrypt k) func" "ok_counter s"
    "CRYPTO_ctr128_encrypt_ctr32 func inp s = (out, t)" "CRYPTO_ctr128_encrypt (AES_encrypt k) inp s = (out', t')"
  shows "out = out' \<and> ctr_ivec t = ctr_ivec t' \<and> ctr_num t = ctr_num t'
    \<and> (ctr_num t \<noteq> 0 \<longrightarrow> ecount_buf t = ecount_buf t')"
proof -
  let ?B = "AES_encrypt k"
  obtain o1 r s1 where d: "drain ctr_num ctr_use inp s = (o1, r, s1)" by (metis prod_cases3)
  have s1: "ok_counter s1" "r = [] \<or> ctr_num s1 = 0" using ctr.drain_steps [OF assms(2) d] by auto
  let ?n = "length r div 16" and ?iv = "ctr_ivec s1"
  let ?r = "drop (16 * ?n) r" and ?iv' = "(ctr128_inc ^^ ?n) ?iv"
  have iv: "length ?iv = 16" "length ?iv' = 16" using s1(1) by (simp_all add: ok_counter_def)
  obtain s2 where c: "chunks (ctr_blk ?B) r s1 = (key_stream ?B ?iv (take (16 * ?n) r), ?r, s2)"
      "ctr_ivec s2 = ?iv'" "ctr_num s2 = (if 16 \<le> length r then 0 else ctr_num s1)"
    using chunks_key_stream [of ?B r s1] length_AES_encrypt by blast
  have b: "ctr32_blocks func r ?iv (GETU32 (drop 12 ?iv)) = (key_stream ?B ?iv (take (16 * ?n) r), ?r, ?iv', GETU32 (drop 12 ?iv'))"
    by (rule ctr32_blocks_key_stream [OF assms(1) iv(1)])
  have "unat (GETU32 (drop 12 ?iv')) + 1 \<le> 2 ^ 32" using u32_less [of "GETU32 (drop 12 ?iv')"] by simp
  then have "func (replicate 16 0) 1 ?iv' = key_stream ?B ?iv' (replicate 16 0)"
    by (intro func_key_stream [OF assms(1) _ iv(2)]) simp_all
  also have "\<dots> = ?B ?iv'" using key_stream_short [of "replicate 16 0" ?B ?iv']
    by (simp add: list_eq_iff_nth_eq)
  finally have last: "func (replicate 16 0) 1 ?iv' = ?B ?iv'" .
  have s2: "ctr_num s2 = ctr_num s1" using s1(2) c(3) by auto
  show ?thesis
  proof (cases "?r = []")
    case True
    then have "out = o1 @ key_stream ?B ?iv (take (16 * ?n) r)" "t = s1\<lparr>ctr_ivec := ?iv'\<rparr>"
      using assms(3) d b by (simp_all add: CRYPTO_ctr128_encrypt_ctr32_def Let_def)
    moreover have "out' = o1 @ key_stream ?B ?iv (take (16 * ?n) r)" "t' = s2"
      using assms(4) d c(1) True by (simp_all add: CRYPTO_ctr128_encrypt_def three_loops_def Let_def)
    moreover have "r = [] \<Longrightarrow> s2 = s1" using c(1) by (subst (asm) chunks.simps) simp
    ultimately show ?thesis using s2 c(2) s1(2) by auto
  next
    case False
    then have "ctr_num s1 = 0" using s1(2) by auto
    then have "out = o1 @ key_stream ?B ?iv (take (16 * ?n) r) @ xor_bytes ?r (?B ?iv')"
        "t = s1\<lparr>ecount_buf := ?B ?iv', ctr_ivec := put_ctr32 ?iv' (GETU32 (drop 12 ?iv') + 1), ctr_num := length ?r\<rparr>"
      using assms(3) d b last False
      by (simp_all add: CRYPTO_ctr128_encrypt_ctr32_def Let_def split: if_splits)
    moreover have "out' = o1 @ key_stream ?B ?iv (take (16 * ?n) r) @ xor_bytes ?r (?B ?iv')"
        "t' = s2\<lparr>ecount_buf := ?B ?iv', ctr_ivec := ctr128_inc ?iv', ctr_num := length ?r\<rparr>"
      using assms(4) d c(1,2) False
      by (simp_all add: CRYPTO_ctr128_encrypt_def three_loops_def ctr_rest_def ctr_refill_def Let_def split: if_splits)
    ultimately show ?thesis using put_ctr32_inc [OF iv(2)] by simp
  qed
qed

text \<open>A routine that keeps the promise, and a counter about to overflow its low word.\<close>

definition ctr32_reference :: "(byte list \<Rightarrow> byte list) \<Rightarrow> byte list \<Rightarrow> nat \<Rightarrow> byte list \<Rightarrow> byte list" where
  "ctr32_reference block inp blocks iv = map (\<lambda>i. inp ! i XOR
     block (take 12 iv @ PUTU32 (GETU32 (drop 12 iv) + word_of_nat (i div 16))) ! (i mod 16)) [0..<16 * blocks]"

definition sample_counter :: counter where
  "sample_counter = \<lparr>ctr_ivec = replicate 16 0xff, ecount_buf = sample_block, ctr_num = 0\<rparr>"

theorem ctr32_agrees_witness:
  "fst (CRYPTO_ctr128_encrypt_ctr32 (ctr32_reference (AES_encrypt sample_schedule)) (replicate 40 1) sample_counter)
   = fst (CRYPTO_ctr128_encrypt (AES_encrypt sample_schedule) (replicate 40 1) sample_counter)"
proof -
  have "ctr128_f_spec (AES_encrypt sample_schedule) (ctr32_reference (AES_encrypt sample_schedule))"
    by (simp add: ctr128_f_spec_def ctr32_reference_def)
  moreover have "ok_counter sample_counter" by (simp add: ok_counter_def sample_counter_def sample_facts(2))
  ultimately show ?thesis
    using ctr32_agrees [OF _ _ prod.collapse [symmetric] prod.collapse [symmetric]] by blast
qed

text \<open>On a big-endian machine the increment on machine words carries into the high word also when
  the low word goes from \<open>2 ^ 63 - 1\<close> to \<open>2 ^ 63\<close>: the carry is read off a change of the top bit, which
  happens there without an overflow. The counter then jumps by \<open>2 ^ 64\<close>, and differs from the one that
  the loop on bytes computes.\<close>

theorem ctr128_inc_words_carry:
  "ctr128_inc_words [h, l] = (if unat l = 2 ^ 63 - 1 \<or> unat l = 2 ^ 64 - 1 then [h + 1, l + 1] else [h, l + 1])"
  using word_carry [of l] by (simp add: ctr128_inc_words_def numeral_2_eq_2 Let_def)

end
