(* ===== verification/Base64.thy ===== *)
theory Base64
  imports Prelude
begin

text \<open>
  Base64 as PEM files have it (\<open>src/ext/restbed/dependency/openssl/crypto/evp/encode.c\<close>): single blocks, and the
  contexts that take a text in calls of any size. Output buffers are the lists of the bytes that the
  returned length covers; what the code leaves behind that length is not modelled. Lengths are natural
  numbers: the \<open>int\<close>s of the code are assumed not to overflow. The line length of a context is the one that
  \<open>EVP_EncodeInit\<close> sets (a length of 0 would send the line loop of the code round for ever).
\<close>

section \<open>Alphabet\<close>

definition data_bin2ascii :: "byte list" where
  "data_bin2ascii = map of_char ''ABCDEFGHIJKLMNOPQRSTUVWXYZabcdefghijklmnopqrstuvwxyz0123456789+/''"

definition conv_bin2ascii :: "u64 \<Rightarrow> byte" where
  "conv_bin2ascii a = data_bin2ascii ! unat (a AND 0x3f)"

definition B64_EOLN :: byte where "B64_EOLN = 0xF0"
definition B64_CR :: byte where "B64_CR = 0xF1"
definition B64_EOF :: byte where "B64_EOF = 0xF2"
definition B64_WS :: byte where "B64_WS = 0xE0"
definition B64_ERROR :: byte where "B64_ERROR = 0xFF"

definition B64_NOT_BASE64 :: "byte \<Rightarrow> bool" where
  "B64_NOT_BASE64 a \<longleftrightarrow> a OR 0x13 = 0xF3"

definition B64_BASE64 :: "byte \<Rightarrow> bool" where
  "B64_BASE64 a \<longleftrightarrow> \<not> B64_NOT_BASE64 a"

definition data_ascii2bin :: "byte list" where
  "data_ascii2bin =
    [0xFF, 0xFF, 0xFF, 0xFF, 0xFF, 0xFF, 0xFF, 0xFF,
     0xFF, 0xE0, 0xF0, 0xFF, 0xFF, 0xF1, 0xFF, 0xFF,
     0xFF, 0xFF, 0xFF, 0xFF, 0xFF, 0xFF, 0xFF, 0xFF,
     0xFF, 0xFF, 0xFF, 0xFF, 0xFF, 0xFF, 0xFF, 0xFF,
     0xE0, 0xFF, 0xFF, 0xFF, 0xFF, 0xFF, 0xFF, 0xFF,
     0xFF, 0xFF, 0xFF, 0x3E, 0xFF, 0xF2, 0xFF, 0x3F,
     0x34, 0x35, 0x36, 0x37, 0x38, 0x39, 0x3A, 0x3B,
     0x3C, 0x3D, 0xFF, 0xFF, 0xFF, 0x00, 0xFF, 0xFF,
     0xFF, 0x00, 0x01, 0x02, 0x03, 0x04, 0x05, 0x06,
     0x07, 0x08, 0x09, 0x0A, 0x0B, 0x0C, 0x0D, 0x0E,
     0x0F, 0x10, 0x11, 0x12, 0x13, 0x14, 0x15, 0x16,
     0x17, 0x18, 0x19, 0xFF, 0xFF, 0xFF, 0xFF, 0xFF,
     0xFF, 0x1A, 0x1B, 0x1C, 0x1D, 0x1E, 0x1F, 0x20,
     0x21, 0x22, 0x23, 0x24, 0x25, 0x26, 0x27, 0x28,
     0x29, 0x2A, 0x2B, 0x2C, 0x2D, 0x2E, 0x2F, 0x30,
     0x31, 0x32, 0x33, 0xFF, 0xFF, 0xFF, 0xFF, 0xFF]"

definition conv_ascii2bin :: "byte \<Rightarrow> byte" where
  "conv_ascii2bin a = (if a AND 0x80 \<noteq> 0 then B64_ERROR else data_ascii2bin ! unat a)"

abbreviation pad_char :: byte where "pad_char \<equiv> 0x3D"
abbreviation newline :: byte where "newline \<equiv> 0x0A"

section \<open>Encoding\<close>

fun EVP_EncodeBlock :: "byte list \<Rightarrow> byte list" where
  "EVP_EncodeBlock [] = []"
| "EVP_EncodeBlock [a] =
     (let l = push_bit 16 (ucast a) :: u64
      in [conv_bin2ascii (drop_bit 18 l), conv_bin2ascii (drop_bit 12 l), pad_char, pad_char])"
| "EVP_EncodeBlock [a, b] =
     (let l = push_bit 16 (ucast a) OR push_bit 8 (ucast b) :: u64
      in [conv_bin2ascii (drop_bit 18 l), conv_bin2ascii (drop_bit 12 l), conv_bin2ascii (drop_bit 6 l), pad_char])"
| "EVP_EncodeBlock (a # b # c # f) =
     (let l = (push_bit 16 (ucast a) OR push_bit 8 (ucast b)) OR ucast c :: u64
      in [conv_bin2ascii (drop_bit 18 l), conv_bin2ascii (drop_bit 12 l), conv_bin2ascii (drop_bit 6 l), conv_bin2ascii l]
         @ EVP_EncodeBlock f)"

text \<open>\<open>num\<close> bytes of \<open>enc_data\<close> (80 bytes) are in use, \<open>length\<close> is the number that makes a line.\<close>

record EVP_ENCODE_CTX =
  ctx_num :: nat
  ctx_length :: nat
  enc_data :: "byte list"
  line_num :: nat
  expect_nl :: nat

definition EVP_EncodeInit :: "EVP_ENCODE_CTX \<Rightarrow> EVP_ENCODE_CTX" where
  "EVP_EncodeInit ctx = ctx\<lparr>ctx_length := 48, ctx_num := 0, line_num := 0\<rparr>"

text \<open>\<open>memcpy\<close> into the buffer at an offset.\<close>

definition memcpy_at :: "nat \<Rightarrow> byte list \<Rightarrow> byte list \<Rightarrow> byte list" where
  "memcpy_at p src dst = take p dst @ src @ drop (p + length src) dst"

text \<open>The \<open>while\<close> loop over whole lines of the input: their text, and what is left.\<close>

function encode_lines :: "nat \<Rightarrow> byte list \<Rightarrow> byte list \<times> byte list" where
  "encode_lines len inp =
     (if length inp \<ge> len \<and> 0 < len
      then let (out, rest) = encode_lines len (drop len inp)
           in (EVP_EncodeBlock (take len inp) @ [newline] @ out, rest)
      else ([], inp))"
  by pat_completeness auto
termination by (relation "measure (\<lambda>(len, inp). length inp)") auto

definition EVP_EncodeUpdate :: "EVP_ENCODE_CTX \<Rightarrow> byte list \<Rightarrow> byte list \<times> EVP_ENCODE_CTX" where
  "EVP_EncodeUpdate ctx inp =
     (let inl = length inp in
      if inl \<le> 0 then ([], ctx)
      else if ctx_num ctx + inl < ctx_length ctx
      then ([], ctx\<lparr>enc_data := memcpy_at (ctx_num ctx) inp (enc_data ctx), ctx_num := ctx_num ctx + inl\<rparr>)
      else
        let (out, inp, ctx) =
              (if ctx_num ctx \<noteq> 0
               then let i = ctx_length ctx - ctx_num ctx;
                        ctx = ctx\<lparr>enc_data := memcpy_at (ctx_num ctx) (take i inp) (enc_data ctx)\<rparr>
                    in (EVP_EncodeBlock (take (ctx_length ctx) (enc_data ctx)) @ [newline], drop i inp, ctx\<lparr>ctx_num := 0\<rparr>)
               else ([], inp, ctx));
            (lines, inp) = encode_lines (ctx_length ctx) inp
        in (out @ lines,
            ctx\<lparr>enc_data := (if inp \<noteq> [] then memcpy_at 0 inp (enc_data ctx) else enc_data ctx),
                ctx_num := length inp\<rparr>))"

definition EVP_EncodeFinal :: "EVP_ENCODE_CTX \<Rightarrow> byte list \<times> EVP_ENCODE_CTX" where
  "EVP_EncodeFinal ctx =
     (if ctx_num ctx \<noteq> 0
      then (EVP_EncodeBlock (take (ctx_num ctx) (enc_data ctx)) @ [newline], ctx\<lparr>ctx_num := 0\<rparr>)
      else ([], ctx))"

section \<open>Decoding\<close>

fun trim_start :: "byte list \<Rightarrow> nat \<Rightarrow> byte list \<times> nat" where
  "trim_start f 0 = (f, 0)"
| "trim_start f (Suc n) = (if conv_ascii2bin (f ! 0) = B64_WS then trim_start (tl f) n else (f, Suc n))"

fun trim_end :: "byte list \<Rightarrow> nat \<Rightarrow> nat" where
  "trim_end f n = (if n > 3 \<and> B64_NOT_BASE64 (conv_ascii2bin (f ! (n - 1))) then trim_end f (n - 1) else n)"

text \<open>The loop of \<open>EVP_DecodeBlock\<close>; \<open>None\<close> is the return of -1.\<close>

fun decode_quads :: "byte list \<Rightarrow> byte list option" where
  "decode_quads (w # x # y # z # f) =
     (let a = conv_ascii2bin w; b = conv_ascii2bin x; c = conv_ascii2bin y; d = conv_ascii2bin z in
      if a AND 0x80 \<noteq> 0 \<or> b AND 0x80 \<noteq> 0 \<or> c AND 0x80 \<noteq> 0 \<or> d AND 0x80 \<noteq> 0 then None
      else let l = ((push_bit 18 (ucast a) OR push_bit 12 (ucast b)) OR push_bit 6 (ucast c)) OR ucast d :: u64
           in map_option (\<lambda>t. [ucast (drop_bit 16 l), ucast (drop_bit 8 l), ucast l] @ t) (decode_quads f))"
| "decode_quads _ = Some []"

definition EVP_DecodeBlock :: "byte list \<Rightarrow> nat \<Rightarrow> byte list option" where
  "EVP_DecodeBlock f n =
     (let (f, n) = trim_start f n;
          n = trim_end f n
      in if n mod 4 \<noteq> 0 then None else decode_quads (take n f))"

definition EVP_DecodeInit :: "EVP_ENCODE_CTX \<Rightarrow> EVP_ENCODE_CTX" where
  "EVP_DecodeInit ctx = ctx\<lparr>ctx_num := 0, ctx_length := 0, line_num := 0, expect_nl := 0\<rparr>"

text \<open>
  The state of the loop of \<open>EVP_DecodeUpdate\<close>, and where the loop leaves it to: the end with \<open>rv = -1\<close>,
  the label \<open>tail\<close> with \<open>seof\<close> set, or its normal end.
\<close>

record dec_state =
  dec_n :: nat
  dec_d :: "byte list"
  dec_eof :: nat
  dec_out :: "byte list"

datatype dec_exit = Goto_End | Goto_Tail | Loop_End

text \<open>The branch that decodes the buffered characters and takes the padding off; \<open>n\<close> is cleared first.\<close>

definition dec_flush :: "dec_state \<Rightarrow> dec_state option" where
  "dec_flush s =
     (case EVP_DecodeBlock (dec_d s) (dec_n s) of
        None \<Rightarrow> None
      | Some block \<Rightarrow>
          if dec_eof s > length block then None
          else Some (s\<lparr>dec_n := 0, dec_out := dec_out s @ take (length block - dec_eof s) block\<rparr>))"

fun decode_loop :: "byte list \<Rightarrow> dec_state \<Rightarrow> dec_exit \<times> dec_state" where
  "decode_loop [] s = (Loop_End, s)"
| "decode_loop (tmp # inp) s =
     (let v = conv_ascii2bin tmp in
      if v = B64_ERROR then (Goto_End, s)
      else if tmp \<noteq> pad_char \<and> dec_eof s > 0 \<and> B64_BASE64 v then (Goto_End, s)
      else
        let s = (if tmp = pad_char then s\<lparr>dec_eof := dec_eof s + 1\<rparr> else s) in
        if dec_eof s > 2 then (Goto_End, s)
        else if v = B64_EOF then (Goto_Tail, s)
        else if B64_BASE64 v \<and> dec_n s \<ge> 64 then (Goto_End, s)
        else
          let s = (if B64_BASE64 v then s\<lparr>dec_d := (dec_d s)[dec_n s := tmp], dec_n := dec_n s + 1\<rparr> else s) in
          if dec_n s = 64
          then (case dec_flush s of None \<Rightarrow> (Goto_End, s\<lparr>dec_n := 0\<rparr>) | Some s \<Rightarrow> decode_loop inp s)
          else decode_loop inp s)"

definition initial_eof :: "nat \<Rightarrow> byte list \<Rightarrow> nat" where
  "initial_eof n d =
     (if n > 0 \<and> d ! (n - 1) = pad_char then (if n > 1 \<and> d ! (n - 2) = pad_char then 2 else 1) else 0)"

text \<open>The code behind \<open>tail:\<close>; the result is the return value and the state at the label \<open>end\<close>.\<close>

definition decode_tail :: "bool \<Rightarrow> dec_state \<Rightarrow> int \<times> dec_state" where
  "decode_tail seof s =
     (let flushed =
        (if dec_n s > 0
         then if dec_n s mod 4 = 0 then dec_flush s else if seof then None else Some s
         else Some s)
      in case flushed of
           None \<Rightarrow> (- 1, if dec_n s mod 4 = 0 then s\<lparr>dec_n := 0\<rparr> else s)
         | Some s \<Rightarrow> (if seof \<or> (dec_n s = 0 \<and> dec_eof s \<noteq> 0) then 0 else 1, s))"

definition EVP_DecodeUpdate :: "EVP_ENCODE_CTX \<Rightarrow> byte list \<Rightarrow> int \<times> byte list \<times> EVP_ENCODE_CTX" where
  "EVP_DecodeUpdate ctx inp =
     (let s = \<lparr>dec_n = ctx_num ctx, dec_d = enc_data ctx, dec_eof = initial_eof (ctx_num ctx) (enc_data ctx), dec_out = []\<rparr>;
          (rv, s) =
            (if length inp = 0 then (0, s)
             else (case decode_loop inp s of
                     (Goto_End, s) \<Rightarrow> (- 1, s)
                   | (Goto_Tail, s) \<Rightarrow> decode_tail True s
                   | (Loop_End, s) \<Rightarrow> decode_tail False s))
      in (rv, dec_out s, ctx\<lparr>ctx_num := dec_n s, enc_data := dec_d s\<rparr>))"

definition EVP_DecodeFinal :: "EVP_ENCODE_CTX \<Rightarrow> int \<times> byte list \<times> EVP_ENCODE_CTX" where
  "EVP_DecodeFinal ctx =
     (if ctx_num ctx \<noteq> 0
      then (case EVP_DecodeBlock (enc_data ctx) (ctx_num ctx) of
              None \<Rightarrow> (- 1, [], ctx)
            | Some out \<Rightarrow> (1, out, ctx\<lparr>ctx_num := 0\<rparr>))
      else (1, [], ctx))"

section \<open>The alphabet\<close>

lemma alphabet_table: "map conv_ascii2bin data_bin2ascii = map of_nat [0..<64]"
  by (simp add: conv_ascii2bin_def data_ascii2bin_def data_bin2ascii_def upt_conv_Cons B64_ERROR_def)

lemma alphabet_no_pad: "pad_char \<notin> set data_bin2ascii"
  by (simp add: data_bin2ascii_def)

lemma alphabet:
  assumes "i < 64"
  shows "conv_ascii2bin (data_bin2ascii ! i) = of_nat i" "data_bin2ascii ! i \<noteq> pad_char"
proof -
  have len: "length data_bin2ascii = 64" by (simp add: data_bin2ascii_def)
  show "conv_ascii2bin (data_bin2ascii ! i) = of_nat i"
    using arg_cong [OF alphabet_table, of "\<lambda>xs. xs ! i"] assms len by simp
  show "data_bin2ascii ! i \<noteq> pad_char"
    using alphabet_no_pad assms len by (metis nth_mem)
qed

definition sextet :: "u64 \<Rightarrow> byte" where
  "sextet w = ucast (take_bit 6 w)"

lemma bit_sextet: "bit (sextet w) n \<longleftrightarrow> n < 6 \<and> bit w n"
  by (auto simp: sextet_def bit_simps)

lemma conv_index: "unat (w AND 0x3f :: u64) = unat (sextet w)" "unat (sextet w) < 64"
proof -
  have mask: "(0x3f :: u64) = mask 6" by (simp add: mask_eq_exp_minus_1)
  have w: "w AND 0x3f = take_bit 6 w" by (simp only: mask take_bit_eq_mask)
  have less: "unat (take_bit 6 w) < 64"
    using take_bit_nat_less_exp [of 6 "unat w"] by (simp add: unsigned_take_bit_eq)
  then have "unat (sextet w) = unat (take_bit 6 w)"
    by (simp add: sextet_def unsigned_ucast_eq take_bit_nat_eq_self)
  with w less show "unat (w AND 0x3f) = unat (sextet w)" "unat (sextet w) < 64" by simp_all
qed

lemma conv_conv: "conv_ascii2bin (conv_bin2ascii w) = sextet w"
  using alphabet(1) [OF conv_index(2), of w] by (simp add: conv_bin2ascii_def conv_index)

lemma conv_not_pad [simp]: "conv_bin2ascii w \<noteq> pad_char"
  using alphabet(2) [OF conv_index(2), of w] by (simp add: conv_bin2ascii_def conv_index)

lemma conv_pad: "conv_ascii2bin pad_char = 0"
  by (simp add: conv_ascii2bin_def data_ascii2bin_def)

lemma sextet_clear: "sextet w AND 0x80 = 0"
proof (rule bit_word_eqI)
  fix n
  have "\<not> bit (0x80 :: byte) n" if "n < 6"
    using that by (auto simp: less_Suc_eq numeral_eq_Suc)
  then show "bit (sextet w AND 0x80) n = bit 0 n" by (auto simp: bit_and_iff bit_sextet)
qed

text \<open>Four characters carry three bytes.\<close>

definition triple :: "byte \<Rightarrow> byte \<Rightarrow> byte \<Rightarrow> u64" where
  "triple a b c = (push_bit 16 (ucast a) OR push_bit 8 (ucast b)) OR ucast c"

lemma quad_bits:
  "((push_bit 18 (ucast (sextet (drop_bit 18 (triple a b c)))) OR push_bit 12 (ucast (sextet (drop_bit 12 (triple a b c)))))
     OR push_bit 6 (ucast (sextet (drop_bit 6 (triple a b c))))) OR ucast (sextet (triple a b c)) = triple a b c"
    (is "?m = ?l")
proof (rule bit_word_eqI)
  fix n assume "n < LENGTH(64)"
  have l: "24 \<le> n \<Longrightarrow> \<not> bit ?l n" by (auto simp: triple_def bit_simps byte_beyond)
  show "bit ?m n = bit ?l n"
  proof (cases "n < 24")
    case True
    then consider "n < 6" | "6 \<le> n \<and> n < 12" | "12 \<le> n \<and> n < 18" | "18 \<le> n \<and> n < 24" by linarith
    then show ?thesis by cases (auto simp: bit_simps bit_sextet)
  next
    case False
    then show ?thesis using l by (auto simp: bit_simps bit_sextet)
  qed
qed

lemma triple_bytes:
  "ucast (drop_bit 16 (triple a b c)) = a" "ucast (drop_bit 8 (triple a b c)) = b" "ucast (triple a b c) = c"
  by (auto intro!: bit_word_eqI simp: triple_def bit_simps byte_beyond)

lemma decode_quad:
  assumes "conv_ascii2bin w = sextet (drop_bit 18 (triple a b c))" "conv_ascii2bin x = sextet (drop_bit 12 (triple a b c))"
    "conv_ascii2bin y = sextet (drop_bit 6 (triple a b c))" "conv_ascii2bin z = sextet (triple a b c)"
  shows "decode_quads (w # x # y # z # f) = map_option (\<lambda>t. [a, b, c] @ t) (decode_quads f)"
  unfolding decode_quads.simps(1) assms Let_def quad_bits triple_bytes by (simp add: sextet_clear cong: map_option_cong)

lemma triple_zeros: "triple a 0 0 = push_bit 16 (ucast a)" "triple a b 0 = push_bit 16 (ucast a) OR push_bit 8 (ucast b)"
  by (simp_all add: triple_def)

lemma sextet_zeros: "sextet (triple a b 0) = 0" "sextet (drop_bit 6 (triple a 0 0)) = 0"
  by (auto intro!: bit_word_eqI simp: bit_sextet triple_def bit_simps)

section \<open>One block\<close>

definition pad_of :: "byte list \<Rightarrow> nat" where
  "pad_of bs = (3 - length bs mod 3) mod 3"

lemma pad_of_simps [simp]: "pad_of [] = 0" "pad_of [a] = 2" "pad_of [a, b] = 1" "pad_of (a # b # c # f) = pad_of f"
  by (simp_all add: pad_of_def)

lemma encode_triple:
  "EVP_EncodeBlock [a] = [conv_bin2ascii (drop_bit 18 (triple a 0 0)), conv_bin2ascii (drop_bit 12 (triple a 0 0)), pad_char, pad_char]"
  "EVP_EncodeBlock [a, b] = [conv_bin2ascii (drop_bit 18 (triple a b 0)), conv_bin2ascii (drop_bit 12 (triple a b 0)),
     conv_bin2ascii (drop_bit 6 (triple a b 0)), pad_char]"
  "EVP_EncodeBlock (a # b # c # f) = conv_bin2ascii (drop_bit 18 (triple a b c)) # conv_bin2ascii (drop_bit 12 (triple a b c))
     # conv_bin2ascii (drop_bit 6 (triple a b c)) # conv_bin2ascii (triple a b c) # EVP_EncodeBlock f"
  proof -
  show "EVP_EncodeBlock [a] = [conv_bin2ascii (drop_bit 18 (triple a 0 0)), conv_bin2ascii (drop_bit 12 (triple a 0 0)), pad_char, pad_char]"
    by (simp only: EVP_EncodeBlock.simps Let_def triple_zeros(1))
  show "EVP_EncodeBlock [a, b] = [conv_bin2ascii (drop_bit 18 (triple a b 0)), conv_bin2ascii (drop_bit 12 (triple a b 0)),
     conv_bin2ascii (drop_bit 6 (triple a b 0)), pad_char]"
    by (simp only: EVP_EncodeBlock.simps Let_def triple_zeros)
qed (simp only: EVP_EncodeBlock.simps Let_def triple_def append.simps)

declare EVP_EncodeBlock.simps(2-4) [simp del] encode_triple [simp]

lemma decode_encode_quads: "decode_quads (EVP_EncodeBlock bs) = Some (bs @ replicate (pad_of bs) 0)"
proof (induction bs rule: EVP_EncodeBlock.induct)
  case (2 a)
  then show ?case
    unfolding encode_triple by (subst decode_quad [of _ a 0 0]) (simp_all add: conv_conv conv_pad sextet_zeros numeral_2_eq_2)
next
  case (3 a b)
  then show ?case
    unfolding encode_triple by (subst decode_quad [of _ a b 0]) (simp_all add: conv_conv conv_pad sextet_zeros)
next
  case (4 a b c f)
  then show ?case
    unfolding encode_triple by (subst decode_quad [of _ a b c]) (simp_all add: conv_conv)
qed simp

lemma encode_length: "length (EVP_EncodeBlock bs) * 3 = (length bs + pad_of bs) * 4"
  by (induction bs rule: EVP_EncodeBlock.induct) simp_all

lemma encode_size:
  obtains q where "length bs + pad_of bs = 3 * q" "length (EVP_EncodeBlock bs) = 4 * q" "pad_of bs \<le> 2"
proof -
  have "\<exists>q. length bs + pad_of bs = 3 * q \<and> length (EVP_EncodeBlock bs) = 4 * q"
    using encode_length [of bs] by presburger
  moreover have "pad_of bs < 3" unfolding pad_of_def by (rule mod_less_divisor) simp
  ultimately show ?thesis using that by force
qed

lemma encode_good: "c \<in> set (EVP_EncodeBlock bs) \<Longrightarrow> conv_ascii2bin c AND 0x80 = 0"
  by (induction bs rule: EVP_EncodeBlock.induct) (auto simp: conv_conv conv_pad sextet_clear)

lemma encode_append: "length a mod 3 = 0 \<Longrightarrow> EVP_EncodeBlock (a @ b) = EVP_EncodeBlock a @ EVP_EncodeBlock b"
  by (induction a rule: EVP_EncodeBlock.induct) simp_all

lemma encode_pad:
  "i < length (EVP_EncodeBlock bs) \<Longrightarrow>
   EVP_EncodeBlock bs ! i = pad_char \<longleftrightarrow> length (EVP_EncodeBlock bs) - pad_of bs \<le> i"
proof (induction bs arbitrary: i rule: EVP_EncodeBlock.induct)
  case (2 a)
  then consider "i = 0" | "i = 1" | "i = 2" | "i = 3" by fastforce
  then show ?case by cases simp_all
next
  case (3 a b)
  then consider "i = 0" | "i = 1" | "i = 2" | "i = 3" by fastforce
  then show ?case by cases simp_all
next
  case (4 a b c f)
  obtain q where q: "length (EVP_EncodeBlock f) = 4 * q" "pad_of f \<le> 2" "q = 0 \<longrightarrow> pad_of f = 0"
    by (rule encode_size [of f]) (metis add_is_0 mult_0_right)
  show ?case
  proof (cases "i < 4")
    case True
    then consider "i = 0" | "i = 1" | "i = 2" | "i = 3" by linarith
    then show ?thesis using q by cases auto
  next
    case False
    then obtain j where j: "i = Suc (Suc (Suc (Suc j)))" using that [of "i - 4"] by simp
    then show ?thesis using "4.IH" [where i = j] "4.prems" q by auto
  qed
qed simp

section \<open>Encoding in parts\<close>

text \<open>What the encoder of contexts is meant to write: lines of 48 bytes each.\<close>

function pem_text :: "byte list \<Rightarrow> byte list" where
  "pem_text bs = (if bs = [] then [] else EVP_EncodeBlock (take 48 bs) @ [newline] @ pem_text (drop 48 bs))"
  by pat_completeness auto
termination by (relation "measure length") auto

fun encode_parts :: "EVP_ENCODE_CTX \<Rightarrow> byte list list \<Rightarrow> byte list \<times> EVP_ENCODE_CTX" where
  "encode_parts ctx [] = ([], ctx)"
| "encode_parts ctx (part # parts) =
     (let (out, ctx) = EVP_EncodeUpdate ctx part; (outs, ctx) = encode_parts ctx parts in (out @ outs, ctx))"

definition encode_stream :: "EVP_ENCODE_CTX \<Rightarrow> byte list list \<Rightarrow> byte list" where
  "encode_stream ctx parts =
     (let (out, ctx) = encode_parts (EVP_EncodeInit ctx) parts in out @ fst (EVP_EncodeFinal ctx))"

declare pem_text.simps [simp del] encode_lines.simps [simp del]

lemma pem_text_Nil [simp]: "pem_text [] = []"
  by (simp add: pem_text.simps)

lemma pem_text_append: "48 dvd length a \<Longrightarrow> pem_text (a @ b) = pem_text a @ pem_text b"
proof (induction a rule: pem_text.induct)
  case (1 a)
  show ?case
  proof (cases "a = []")
    case False
    with 1(2) have long: "48 \<le> length a" by (auto dest: dvd_imp_le)
    moreover from long have "take 48 (a @ b) = take 48 a" "drop 48 (a @ b) = drop 48 a @ b" by simp_all
    moreover have "48 dvd length (drop 48 a)" using 1(2) long by (simp add: dvd_minus_self)
    ultimately show ?thesis
      using 1(1) [OF False] False by (simp add: pem_text.simps [of "a @ b"] pem_text.simps [of a])
  qed simp
qed

lemma pem_text_line: "length a = 48 \<Longrightarrow> pem_text a = EVP_EncodeBlock a @ [newline]"
  by (subst pem_text.simps) auto

lemma pem_text_short: "a \<noteq> [] \<Longrightarrow> length a < 48 \<Longrightarrow> pem_text a = EVP_EncodeBlock a @ [newline]"
  by (subst pem_text.simps) auto

lemma encode_lines_spec:
  "encode_lines 48 inp = (out, rest) \<Longrightarrow>
   length rest < 48 \<and> (\<exists>a. inp = a @ rest \<and> 48 dvd length a \<and> out = pem_text a)"
proof (induction "48 :: nat" inp arbitrary: out rest rule: encode_lines.induct)
  case (1 inp)
  show ?case
  proof (cases "48 \<le> length inp")
    case True
    obtain out' where eq: "encode_lines 48 (drop 48 inp) = (out', rest)"
        "out = EVP_EncodeBlock (take 48 inp) @ [newline] @ out'"
      using "1.prems" True by (subst (asm) encode_lines.simps) (auto split: prod.splits)
    with 1(1) [OF _ eq(1)] True obtain a where a: "length rest < 48" "drop 48 inp = a @ rest" "48 dvd length a" "out' = pem_text a"
      by auto
    have "inp = (take 48 inp @ a) @ rest" using a(2) by (metis append.assoc append_take_drop_id)
    moreover have "48 dvd length (take 48 inp @ a)" using a(3) True by simp
    moreover have "out = pem_text (take 48 inp @ a)"
      using eq(2) a(4) True by (simp add: pem_text_append pem_text_line)
    ultimately show ?thesis using a(1) by blast
  next
    case False
    then show ?thesis using "1.prems" by (subst (asm) encode_lines.simps) auto
  qed
qed

definition enc_ok :: "EVP_ENCODE_CTX \<Rightarrow> bool" where
  "enc_ok ctx \<longleftrightarrow> ctx_length ctx = 48 \<and> length (enc_data ctx) = 80 \<and> ctx_num ctx < 48"

definition pending :: "EVP_ENCODE_CTX \<Rightarrow> byte list" where
  "pending ctx = take (ctx_num ctx) (enc_data ctx)"

lemma length_memcpy [simp]: "p + length src \<le> length dst \<Longrightarrow> length (memcpy_at p src dst) = length dst"
  by (simp add: memcpy_at_def)

lemma take_memcpy: "p + length src \<le> length dst \<Longrightarrow> take (p + length src) (memcpy_at p src dst) = take p dst @ src"
  by (simp add: memcpy_at_def)

lemma store_rest:
  assumes "length rest < 48" "ctx_length ctx = 48" "length (enc_data ctx) = 80"
    and "ctx' = ctx\<lparr>enc_data := (if rest \<noteq> [] then memcpy_at 0 rest (enc_data ctx) else enc_data ctx), ctx_num := length rest\<rparr>"
  shows "enc_ok ctx'" "pending ctx' = rest"
  using assms by (auto simp: enc_ok_def pending_def memcpy_at_def)

lemma update_spec:
  assumes "enc_ok ctx" "EVP_EncodeUpdate ctx inp = (out, ctx')"
  shows "enc_ok ctx' \<and> (\<exists>a. pending ctx @ inp = a @ pending ctx' \<and> 48 dvd length a \<and> out = pem_text a)"
proof -
  let ?n = "ctx_num ctx"
  have ok: "ctx_length ctx = 48" "length (enc_data ctx) = 80" "?n < 48" using assms(1) by (auto simp: enc_ok_def)
  consider (none) "inp = []" | (short) "inp \<noteq> []" "?n + length inp < 48"
    | (fill) "48 \<le> ?n + length inp" "?n \<noteq> 0" | (direct) "48 \<le> length inp" "?n = 0" by force
  then show ?thesis
  proof cases
    case none
    then show ?thesis using assms by (auto simp: EVP_EncodeUpdate_def intro: exI [of _ "[]"])
  next
    case short
    then have "out = []" "ctx' = ctx\<lparr>enc_data := memcpy_at ?n inp (enc_data ctx), ctx_num := ?n + length inp\<rparr>"
      using assms(2) ok by (auto simp: EVP_EncodeUpdate_def Let_def)
    moreover from this have "pending ctx' = pending ctx @ inp"
      using short ok take_memcpy [of ?n inp "enc_data ctx"] by (simp add: pending_def)
    ultimately show ?thesis using short ok by (auto simp: enc_ok_def intro: exI [of _ "[]"])
  next
    case fill
    let ?i = "48 - ?n"
    let ?c = "ctx\<lparr>enc_data := memcpy_at ?n (take ?i inp) (enc_data ctx), ctx_num := 0\<rparr>"
    obtain lines rest where el: "encode_lines 48 (drop ?i inp) = (lines, rest)" by force
    have nonempty: "inp \<noteq> []" using fill ok by auto
    have len: "?n + length (take ?i inp) = 48" using fill ok by simp
    have mem: "take 48 (memcpy_at ?n (take ?i inp) (enc_data ctx)) = pending ctx @ take ?i inp"
      using take_memcpy [of ?n "take ?i inp" "enc_data ctx"] len ok by (simp add: pending_def)
    have out: "out = EVP_EncodeBlock (pending ctx @ take ?i inp) @ [newline] @ lines"
      and ctx': "ctx' = ?c\<lparr>enc_data := (if rest \<noteq> [] then memcpy_at 0 rest (enc_data ?c) else enc_data ?c), ctx_num := length rest\<rparr>"
      using assms(2) fill ok el mem nonempty by (simp_all add: EVP_EncodeUpdate_def Let_def)
    obtain a where a: "length rest < 48" "drop ?i inp = a @ rest" "48 dvd length a" "lines = pem_text a"
      using encode_lines_spec [OF el] by blast
    have c: "ctx_length ?c = 48" "length (enc_data ?c) = 80" using ok len by simp_all
    note stored = store_rest [OF a(1) c ctx']
    have whole: "length (pending ctx @ take ?i inp) = 48" using len ok by (simp add: pending_def)
    have "pending ctx @ inp = ((pending ctx @ take ?i inp) @ a) @ pending ctx'"
      using a(2) stored(2) by (metis append.assoc append_take_drop_id)
    moreover have "48 dvd length ((pending ctx @ take ?i inp) @ a)"
      using a(3) whole by (metis dvd_add dvd_refl length_append)
    moreover have "out = pem_text ((pending ctx @ take ?i inp) @ a)"
      by (subst pem_text_append) (simp_all only: whole pem_text_line out a(4) append.assoc dvd_refl)
    ultimately show ?thesis using stored(1) by blast
  next
    case direct
    have nonempty: "inp \<noteq> []" using direct by auto
    obtain lines rest where el: "encode_lines 48 inp = (lines, rest)" by force
    have out: "out = lines"
      and ctx': "ctx' = ctx\<lparr>enc_data := (if rest \<noteq> [] then memcpy_at 0 rest (enc_data ctx) else enc_data ctx), ctx_num := length rest\<rparr>"
      using assms(2) direct ok el nonempty by (simp_all add: EVP_EncodeUpdate_def Let_def)
    obtain a where a: "length rest < 48" "inp = a @ rest" "48 dvd length a" "lines = pem_text a"
      using encode_lines_spec [OF el] by blast
    note stored = store_rest [OF a(1) ok(1,2) ctx']
    have "pending ctx @ inp = a @ pending ctx'" using direct a(2) stored(2) by (simp add: pending_def)
    then show ?thesis using stored(1) a out by blast
  qed
qed

lemma encode_parts_spec:
  "enc_ok ctx \<Longrightarrow> encode_parts ctx parts = (out, ctx') \<Longrightarrow>
   enc_ok ctx' \<and> (\<exists>a. pending ctx @ concat parts = a @ pending ctx' \<and> 48 dvd length a \<and> out = pem_text a)"
proof (induction parts arbitrary: ctx out)
  case (Cons part parts)
  obtain o1 c1 where u: "EVP_EncodeUpdate ctx part = (o1, c1)" by force
  obtain o2 where p: "encode_parts c1 parts = (o2, ctx')" "out = o1 @ o2"
    using Cons.prems(2) u by (auto simp: Let_def split: prod.splits)
  obtain a where a: "enc_ok c1" "pending ctx @ part = a @ pending c1" "48 dvd length a" "o1 = pem_text a"
    using update_spec [OF Cons.prems(1) u] by blast
  obtain b where b: "enc_ok ctx'" "pending c1 @ concat parts = b @ pending ctx'" "48 dvd length b" "o2 = pem_text b"
    using Cons.IH [OF a(1) p(1)] by blast
  have "pending ctx @ concat (part # parts) = (a @ b) @ pending ctx'"
    using a(2) b(2) by (metis append.assoc concat.simps(2))
  moreover have "48 dvd length (a @ b)" using a(3) b(3) by simp
  moreover have "out = pem_text (a @ b)" using p(2) a(3,4) b(4) by (simp add: pem_text_append)
  ultimately show ?case using b(1) by blast
qed (auto intro: exI [of _ "[]"])

lemma encode_stream_spec:
  assumes "length (enc_data ctx) = 80"
  shows "encode_stream ctx parts = pem_text (concat parts)"
proof -
  let ?c = "EVP_EncodeInit ctx"
  have ok: "enc_ok ?c" "pending ?c = []" using assms by (simp_all add: EVP_EncodeInit_def enc_ok_def pending_def)
  obtain out c where p: "encode_parts ?c parts = (out, c)" by force
  obtain a where a: "enc_ok c" "concat parts = a @ pending c" "48 dvd length a" "out = pem_text a"
    using encode_parts_spec [OF ok(1) p] ok(2) by auto
  have "fst (EVP_EncodeFinal c) = pem_text (pending c)"
  proof (cases "ctx_num c = 0")
    case False
    then have "pending c \<noteq> []" "length (pending c) < 48" using a(1) by (auto simp: pending_def enc_ok_def)
    then show ?thesis using False pem_text_short [of "pending c"] by (simp add: EVP_EncodeFinal_def pending_def)
  qed (simp add: EVP_EncodeFinal_def pending_def)
  then show ?thesis using p a by (simp add: encode_stream_def pem_text_append)
qed

section \<open>Decoding in parts\<close>

text \<open>White space and line ends may stand anywhere.\<close>

definition skipped :: "byte \<Rightarrow> bool" where
  "skipped c \<longleftrightarrow> conv_ascii2bin c \<in> {B64_WS, B64_EOLN, B64_CR}"

fun decode_parts :: "EVP_ENCODE_CTX \<Rightarrow> byte list list \<Rightarrow> int list \<times> byte list \<times> EVP_ENCODE_CTX" where
  "decode_parts ctx [] = ([], [], ctx)"
| "decode_parts ctx (part # parts) =
     (let (rv, out, ctx) = EVP_DecodeUpdate ctx part; (rvs, outs, ctx) = decode_parts ctx parts
      in (rv # rvs, out @ outs, ctx))"

lemmas b64_marks = B64_WS_def B64_EOLN_def B64_CR_def B64_EOF_def B64_ERROR_def B64_NOT_BASE64_def B64_BASE64_def

lemma good_marks:
  assumes "v AND 0x80 = (0 :: byte)"
  shows "v \<noteq> B64_ERROR" "v \<noteq> B64_EOF" "v \<noteq> B64_WS" "B64_BASE64 v" "\<not> B64_NOT_BASE64 v"
proof -
  have v: "\<not> bit v 7"
    using arg_cong [OF assms, of "\<lambda>w. bit w 7"] unfolding bit_and_iff by simp
  have "v OR 0x13 \<noteq> 0xF3"
  proof
    assume "v OR 0x13 = 0xF3"
    then have "bit (v OR 0x13) 7 = bit (0xF3 :: byte) 7" by simp
    with v show False unfolding bit_or_iff by simp
  qed
  then show "\<not> B64_NOT_BASE64 v" "B64_BASE64 v" by (simp_all add: B64_BASE64_def B64_NOT_BASE64_def)
  show "v \<noteq> B64_ERROR" "v \<noteq> B64_EOF" "v \<noteq> B64_WS"
    using v by (auto simp: B64_ERROR_def B64_EOF_def B64_WS_def)
qed

lemma skipped_marks:
  "skipped c \<Longrightarrow> conv_ascii2bin c \<noteq> B64_ERROR \<and> conv_ascii2bin c \<noteq> B64_EOF \<and> \<not> B64_BASE64 (conv_ascii2bin c) \<and> c \<noteq> pad_char"
  by (auto simp: skipped_def b64_marks conv_pad)

lemma newline_skipped: "skipped newline"
  by (simp add: skipped_def conv_ascii2bin_def data_ascii2bin_def B64_EOLN_def)

lemma encode_not_skipped: "c \<in> set (EVP_EncodeBlock bs) \<Longrightarrow> \<not> skipped c"
  using good_marks(4) [OF encode_good] skipped_marks by blast

lemma pem_text_chars: "filter (\<lambda>c. \<not> skipped c) (pem_text bs) = EVP_EncodeBlock bs"
proof (induction bs rule: pem_text.induct)
  case (1 bs)
  have chars: "filter (\<lambda>c. \<not> skipped c) (EVP_EncodeBlock x) = EVP_EncodeBlock x" for x
    using encode_not_skipped by (auto simp: filter_id_conv)
  have whole: "EVP_EncodeBlock (take 48 bs) @ EVP_EncodeBlock (drop 48 bs) = EVP_EncodeBlock bs"
  proof (cases "48 \<le> length bs")
    case True
    then show ?thesis using encode_append [of "take 48 bs" "drop 48 bs"] by simp
  qed simp
  show ?case
    using 1 whole by (subst pem_text.simps) (simp add: chars newline_skipped)
qed

declare trim_end.simps [simp del]

lemma decode_block_good:
  assumes "n \<le> length f" "\<And>i. i < n \<Longrightarrow> conv_ascii2bin (f ! i) AND 0x80 = 0" "n mod 4 = 0"
  shows "EVP_DecodeBlock f n = decode_quads (take n f)"
proof -
  have "trim_start f n = (f, n)"
    using assms(2) [of 0] good_marks(3) by (cases n) auto
  moreover have "trim_end f n = n"
    using assms(2) [of "n - 1"] good_marks(5) by (subst trim_end.simps) auto
  ultimately show ?thesis using assms(3) by (simp add: EVP_DecodeBlock_def)
qed

text \<open>
  The decoder has seen \<open>m\<close> characters of the encoding of \<open>bs\<close> and written the bytes of the first \<open>4 * k\<close> of
  them; the rest is in its buffer.
\<close>

definition dec_inv :: "byte list \<Rightarrow> nat \<Rightarrow> byte list \<Rightarrow> nat \<Rightarrow> dec_state \<Rightarrow> bool" where
  "dec_inv bs m prev k s \<longleftrightarrow>
     4 * k \<le> m \<and> m \<le> length (EVP_EncodeBlock bs) \<and> m < 4 * k + 64 \<and> dec_n s = m - 4 * k \<and> length (dec_d s) = 80
     \<and> take (dec_n s) (dec_d s) = drop (4 * k) (take m (EVP_EncodeBlock bs))
     \<and> prev @ dec_out s = take (3 * k) bs
     \<and> dec_eof s \<le> 2
     \<and> (4 * k < length (EVP_EncodeBlock bs) \<longrightarrow> dec_eof s = m - (length (EVP_EncodeBlock bs) - pad_of bs))"

lemma encode_take: "4 * k \<le> length (EVP_EncodeBlock bs) \<Longrightarrow> take (4 * k) (EVP_EncodeBlock bs) = EVP_EncodeBlock (take (3 * k) bs)"
proof -
  assume k: "4 * k \<le> length (EVP_EncodeBlock bs)"
  obtain q where q: "length bs + pad_of bs = 3 * q" "length (EVP_EncodeBlock bs) = 4 * q" "pad_of bs \<le> 2"
    by (rule encode_size)
  show ?thesis
  proof (cases "k = q")
    case True
    then show ?thesis using q by simp
  next
    case False
    then have "3 * k \<le> length bs" using k q by linarith
    then have len: "length (take (3 * k) bs) = 3 * k" by simp
    then have "length (EVP_EncodeBlock (take (3 * k) bs)) = 4 * k"
      using encode_length [of "take (3 * k) bs"] by (simp add: pad_of_def)
    then show ?thesis
      using encode_append [of "take (3 * k) bs" "drop (3 * k) bs"] len by simp
  qed
qed

lemma encode_slice:
  assumes "k \<le> j" "4 * j \<le> length (EVP_EncodeBlock bs)"
  shows "drop (4 * k) (take (4 * j) (EVP_EncodeBlock bs)) = EVP_EncodeBlock (drop (3 * k) (take (3 * j) bs))"
proof (cases "k = j")
  case False
  obtain q where q: "length bs + pad_of bs = 3 * q" "length (EVP_EncodeBlock bs) = 4 * q" "pad_of bs \<le> 2"
    by (rule encode_size)
  have "k < q" using False assms q by linarith
  then have k: "3 * k \<le> length bs" using q by linarith
  have kj: "3 * k \<le> 3 * j" using assms by simp
  have head: "take (3 * k) (take (3 * j) bs) = take (3 * k) bs" using kj by (simp add: min_def)
  have "length (EVP_EncodeBlock (take (3 * k) bs)) = 4 * k"
    using encode_length [of "take (3 * k) bs"] k by (simp add: pad_of_def)
  moreover have "EVP_EncodeBlock (take (3 * j) bs) = EVP_EncodeBlock (take (3 * k) bs) @ EVP_EncodeBlock (drop (3 * k) (take (3 * j) bs))"
    using encode_append [of "take (3 * k) bs" "drop (3 * k) (take (3 * j) bs)"] k head
    by (metis append_take_drop_id length_take min.absorb2 mod_mult_self1_is_0)
  ultimately show ?thesis using encode_take [OF assms(2)] by simp
qed simp

text \<open>Flushing a buffer that ends at a multiple of four characters.\<close>

lemma flush_inv:
  assumes "4 * k < 4 * j" "4 * j \<le> length (EVP_EncodeBlock bs)" "dec_n s = 4 * j - 4 * k" "dec_n s \<le> length (dec_d s)"
    "take (dec_n s) (dec_d s) = drop (4 * k) (take (4 * j) (EVP_EncodeBlock bs))"
    "prev @ dec_out s = take (3 * k) bs" "dec_eof s = 4 * j - (length (EVP_EncodeBlock bs) - pad_of bs)"
  shows "\<exists>s'. dec_flush s = Some s' \<and> dec_n s' = 0 \<and> dec_d s' = dec_d s \<and> dec_eof s' = dec_eof s
    \<and> prev @ dec_out s' = take (3 * j) bs"
proof -
  let ?x = "drop (3 * k) (take (3 * j) bs)"
  obtain q where q: "length bs + pad_of bs = 3 * q" "length (EVP_EncodeBlock bs) = 4 * q" "pad_of bs \<le> 2"
    by (rule encode_size)
  have slice: "take (dec_n s) (dec_d s) = EVP_EncodeBlock ?x"
    using assms(1,2,5) encode_slice [of k j bs] by simp
  have good: "conv_ascii2bin (dec_d s ! i) AND 0x80 = 0" if "i < dec_n s" for i
    using encode_good [of "dec_d s ! i" ?x] slice that assms(4) by (metis in_set_conv_nth length_take min.absorb2 nth_take)
  have "dec_n s = 4 * (j - k)" using assms(3) by simp
  then have block: "EVP_DecodeBlock (dec_d s) (dec_n s) = Some (?x @ replicate (pad_of ?x) 0)"
    using decode_block_good [OF assms(4) good] slice decode_encode_quads [of ?x] by simp
  have "j \<le> q" "k < q" using assms(1,2) q by linarith+
  have eof: "dec_eof s = pad_of ?x"
  proof (cases "j = q")
    case True
    then have "length ?x + 3 * k = length bs" using q \<open>k < q\<close> by auto
    then have "pad_of ?x = pad_of bs" unfolding pad_of_def by (metis mod_mult_self2)
    then show ?thesis using True q assms(7) by simp
  next
    case False
    then have "j < q" using \<open>j \<le> q\<close> by simp
    then have "length ?x = 3 * (j - k)" "4 * j \<le> 4 * q - pad_of bs" using q by auto
    moreover from this(1) have "pad_of ?x = 0" unfolding pad_of_def by (metis diff_zero mod_mult_self1_is_0 mod_self)
    ultimately show ?thesis using assms(7) q by simp
  qed
  have "(prev @ dec_out s) @ ?x = take (3 * j) bs"
    using assms(1,6) append_take_drop_id [of "3 * k" "take (3 * j) bs"] by (simp add: min_def)
  then show ?thesis using block eof by (simp add: dec_flush_def)
qed

lemma loop_char:
  assumes "dec_inv bs m prev k s" "m < length (EVP_EncodeBlock bs)" "c = EVP_EncodeBlock bs ! m"
  shows "\<exists>s' k'. decode_loop (c # inp) s = decode_loop inp s' \<and> dec_inv bs (Suc m) prev k' s'"
proof -
  let ?e = "EVP_EncodeBlock bs"
  let ?p = "length ?e - pad_of bs"
  obtain q where q: "length bs + pad_of bs = 3 * q" "length ?e = 4 * q" "pad_of bs \<le> 2"
    by (rule encode_size)
  note inv = assms(1) [unfolded dec_inv_def]
  have k: "4 * k < length ?e" using inv assms(2) by linarith
  have v: "conv_ascii2bin c AND 0x80 = 0" using encode_good [of c bs] assms(2,3) by simp
  have isp: "c = pad_char \<longleftrightarrow> ?p \<le> m" using encode_pad [OF assms(2)] assms(3) by simp
  have eof: "dec_eof s = m - ?p" using inv k by blast
  obtain x where x: "x = Suc m - ?p" by simp
  define t where "t = s\<lparr>dec_eof := x, dec_d := (dec_d s)[dec_n s := c], dec_n := Suc (dec_n s)\<rparr>"
  have n: "dec_n s = m - 4 * k" "dec_n s < 64" "length (dec_d s) = 80" using inv by auto
  have e2: "x \<le> 2" unfolding x using assms(2) q by linarith
  have upd: "(if c = pad_char then s\<lparr>dec_eof := dec_eof s + 1\<rparr> else s) = s\<lparr>dec_eof := x\<rparr>"
    using isp eof unfolding x by (auto simp: Suc_diff_le)
  have no_err: "\<not> (c \<noteq> pad_char \<and> 0 < dec_eof s \<and> B64_BASE64 (conv_ascii2bin c))" using isp eof by auto
  have data: "take (dec_n t) (dec_d t) = drop (4 * k) (take (Suc m) ?e)"
  proof -
    have "take (Suc (dec_n s)) ((dec_d s)[dec_n s := c]) = take (dec_n s) (dec_d s) @ [c]"
      using n by (simp add: take_Suc_conv_app_nth)
    moreover have "drop (4 * k) (take (Suc m) ?e) = drop (4 * k) (take m ?e) @ [c]"
      using assms(2,3) inv by (simp add: take_Suc_conv_app_nth)
    moreover have "take (dec_n s) (dec_d s) = drop (4 * k) (take m ?e)" using inv by blast
    ultimately show ?thesis by (simp add: t_def)
  qed
  have step: "decode_loop (c # inp) s =
      (if dec_n t = 64 then (case dec_flush t of None \<Rightarrow> (Goto_End, t\<lparr>dec_n := 0\<rparr>) | Some s \<Rightarrow> decode_loop inp s)
       else decode_loop inp t)"
    unfolding decode_loop.simps Let_def upd
    using good_marks [OF v] no_err e2 n(2) by (auto simp: t_def split: option.split)
  show ?thesis
  proof (cases "dec_n t = 64")
    case True
    then have m: "Suc m = 4 * (k + 16)" using n inv by (simp add: t_def)
    have "\<exists>s'. dec_flush t = Some s' \<and> dec_n s' = 0 \<and> dec_d s' = dec_d t \<and> dec_eof s' = dec_eof t
        \<and> prev @ dec_out s' = take (3 * (k + 16)) bs"
    proof (rule flush_inv [of k "k + 16" bs t prev])
      show "take (dec_n t) (dec_d t) = drop (4 * k) (take (4 * (k + 16)) ?e)" using data m by simp
      show "dec_eof t = 4 * (k + 16) - ?p" unfolding m [symmetric] by (simp add: t_def x)
    qed (use m assms(2) True inv n in \<open>auto simp: t_def\<close>)
    then obtain s' where s': "dec_flush t = Some s'" "dec_n s' = 0" "dec_d s' = dec_d t" "dec_eof s' = dec_eof t"
        "prev @ dec_out s' = take (3 * (k + 16)) bs" by blast
    have "dec_inv bs (Suc m) prev (k + 16) s'"
      using s' m assms(2) e2 n x by (simp add: dec_inv_def t_def add.commute)
    then show ?thesis using step True s'(1) by auto
  next
    case False
    have "Suc m < 4 * k + 64" "Suc (dec_n s) = Suc m - 4 * k"
      using False inv n by (auto simp: t_def)
    then have "dec_inv bs (Suc m) prev k t"
      using False inv assms(2) e2 n data x by (auto simp: dec_inv_def t_def)
    then show ?thesis using step False by auto
  qed
qed

lemma loop_skip:
  assumes "dec_inv bs m prev k s" "skipped c"
  shows "decode_loop (c # inp) s = decode_loop inp s"
proof -
  have "dec_n s \<noteq> 64" "dec_eof s \<le> 2" using assms(1) by (auto simp: dec_inv_def)
  then show ?thesis using skipped_marks [OF assms(2)] by (simp add: Let_def)
qed

lemma loop_run:
  "\<lbrakk>dec_inv bs m prev k s; filter (\<lambda>c. \<not> skipped c) inp @ rest = drop m (EVP_EncodeBlock bs)\<rbrakk> \<Longrightarrow>
   \<exists>s' k'. decode_loop inp s = (Loop_End, s') \<and> dec_inv bs (m + length (filter (\<lambda>c. \<not> skipped c) inp)) prev k' s'"
proof (induction inp arbitrary: m k s)
  case (Cons c inp)
  show ?case
  proof (cases "skipped c")
    case True
    then show ?thesis using Cons.IH [OF Cons.prems(1)] Cons.prems(2) loop_skip [OF Cons.prems(1) True, of inp] by simp
  next
    case False
    then have eq: "c # filter (\<lambda>c. \<not> skipped c) inp @ rest = drop m (EVP_EncodeBlock bs)" using Cons.prems(2) by simp
    then have m: "m < length (EVP_EncodeBlock bs)" by (metis drop_all list.discI not_less)
    have head: "c = EVP_EncodeBlock bs ! m" "filter (\<lambda>c. \<not> skipped c) inp @ rest = drop (Suc m) (EVP_EncodeBlock bs)"
      using eq Cons_nth_drop_Suc [OF m] by (metis list.inject)+
    obtain s' k' where s': "decode_loop (c # inp) s = decode_loop inp s'" "dec_inv bs (Suc m) prev k' s'"
      using loop_char [OF Cons.prems(1) m head(1)] by blast
    show ?thesis using Cons.IH [OF s'(2) head(2)] s'(1) False by simp
  qed
qed auto

lemma tail_run:
  assumes "dec_inv bs m prev k s"
  shows "\<exists>rv s' k'. decode_tail False s = (rv, s') \<and> rv \<in> {0, 1} \<and> dec_inv bs m prev k' s'
    \<and> (m = length (EVP_EncodeBlock bs) \<longrightarrow> dec_n s' = 0)"
proof (cases "dec_n s > 0 \<and> dec_n s mod 4 = 0")
  case True
  note inv = assms [unfolded dec_inv_def]
  obtain i where i: "dec_n s = 4 * i" using True by auto
  then have m: "m = 4 * (k + i)" "k < k + i" using inv True by auto
  have "\<exists>s'. dec_flush s = Some s' \<and> dec_n s' = 0 \<and> dec_d s' = dec_d s \<and> dec_eof s' = dec_eof s
      \<and> prev @ dec_out s' = take (3 * (k + i)) bs"
    by (rule flush_inv) (use inv m i in auto)
  then obtain s' where s': "dec_flush s = Some s'" "dec_n s' = 0" "dec_d s' = dec_d s" "dec_eof s' = dec_eof s"
      "prev @ dec_out s' = take (3 * (k + i)) bs" by blast
  have "dec_inv bs m prev (k + i) s'" using s' m inv by (auto simp: dec_inv_def)
  then show ?thesis using s' True by (auto simp: decode_tail_def)
next
  case False
  obtain q where "length (EVP_EncodeBlock bs) = 4 * q" by (rule encode_size)
  then have "m = length (EVP_EncodeBlock bs) \<longrightarrow> dec_n s = 0"
    using False assms by (auto simp: dec_inv_def)
  then show ?thesis using False assms by (auto simp: decode_tail_def)
qed

lemma next_call:
  assumes "dec_inv bs m prev k s"
  shows "dec_inv bs m (prev @ dec_out s) k
    \<lparr>dec_n = dec_n s, dec_d = dec_d s, dec_eof = initial_eof (dec_n s) (dec_d s), dec_out = []\<rparr>"
proof -
  let ?e = "EVP_EncodeBlock bs"
  let ?p = "length ?e - pad_of bs"
  note inv = assms [unfolded dec_inv_def]
  obtain q where q: "length bs + pad_of bs = 3 * q" "length ?e = 4 * q" "pad_of bs \<le> 2"
    by (rule encode_size)
  have eof: "initial_eof (dec_n s) (dec_d s) = m - ?p" if k: "4 * k < length ?e"
  proof -
    have d: "dec_d s ! i = ?e ! (4 * k + i)" if "i < dec_n s" for i
    proof -
      have "dec_d s ! i = drop (4 * k) (take m ?e) ! i" using inv that by (metis nth_take)
      then show ?thesis using inv that by simp
    qed
    have dp: "dec_d s ! i = pad_char \<longleftrightarrow> ?p \<le> 4 * k + i" if "i < dec_n s" for i
    proof -
      have "4 * k + i < length ?e" using that inv by linarith
      then show ?thesis using d [OF that] encode_pad by simp
    qed
    have nm: "dec_n s = m - 4 * k" "m \<le> 4 * q" "4 * k + 4 \<le> 4 * q" "?p = 4 * q - pad_of bs" using inv q k by auto
    show ?thesis
    proof (cases "m \<le> ?p")
      case True
      then have "dec_n s > 0 \<longrightarrow> dec_d s ! (dec_n s - 1) \<noteq> pad_char"
        using dp [of "dec_n s - 1"] nm inv by auto
      then show ?thesis using True by (auto simp: initial_eof_def)
    next
      case False
      then have n3: "dec_n s \<ge> 3" using nm q(3) by linarith
      then have a: "dec_d s ! (dec_n s - 1) = pad_char" using dp [of "dec_n s - 1"] nm False by simp
      have b: "dec_d s ! (dec_n s - 2) = pad_char \<longleftrightarrow> ?p + 2 \<le> m" using dp [of "dec_n s - 2"] nm n3 by auto
      have "m - ?p = (if ?p + 2 \<le> m then 2 else 1)" using nm False q(3) by auto
      then show ?thesis using a b n3 by (simp add: initial_eof_def)
    qed
  qed
  show ?thesis using inv eof by (auto simp: dec_inv_def initial_eof_def)
qed

definition ctx_dec_state :: "EVP_ENCODE_CTX \<Rightarrow> dec_state" where
  "ctx_dec_state ctx = \<lparr>dec_n = ctx_num ctx, dec_d = enc_data ctx,
     dec_eof = initial_eof (ctx_num ctx) (enc_data ctx), dec_out = []\<rparr>"

lemma update_run:
  assumes inv: "dec_inv bs m prev k (ctx_dec_state ctx)"
    and chars: "filter (\<lambda>c. \<not> skipped c) inp @ rest = drop m (EVP_EncodeBlock bs)"
    and fin: "m = length (EVP_EncodeBlock bs) \<longrightarrow> ctx_num ctx = 0"
  shows "\<exists>rv out ctx' k' m'. EVP_DecodeUpdate ctx inp = (rv, out, ctx') \<and> rv \<in> {0, 1}
    \<and> m' = m + length (filter (\<lambda>c. \<not> skipped c) inp)
    \<and> dec_inv bs m' (prev @ out) k' (ctx_dec_state ctx')
    \<and> (m' = length (EVP_EncodeBlock bs) \<longrightarrow> ctx_num ctx' = 0)"
proof (cases "inp = []")
  case True
  then have "EVP_DecodeUpdate ctx inp = (0, [], ctx)" by (simp add: EVP_DecodeUpdate_def Let_def)
  then show ?thesis using True inv fin by auto
next
  case False
  obtain s1 k1 where s1: "decode_loop inp (ctx_dec_state ctx) = (Loop_End, s1)"
      "dec_inv bs (m + length (filter (\<lambda>c. \<not> skipped c) inp)) prev k1 s1"
    using loop_run [OF inv chars] by blast
  obtain rv s2 k2 where s2: "decode_tail False s1 = (rv, s2)" "rv \<in> {0, 1}"
      "dec_inv bs (m + length (filter (\<lambda>c. \<not> skipped c) inp)) prev k2 s2"
      "m + length (filter (\<lambda>c. \<not> skipped c) inp) = length (EVP_EncodeBlock bs) \<longrightarrow> dec_n s2 = 0"
    using tail_run [OF s1(2)] by blast
  have eq: "EVP_DecodeUpdate ctx inp = (rv, dec_out s2, ctx\<lparr>ctx_num := dec_n s2, enc_data := dec_d s2\<rparr>)"
    using False s1(1) s2(1) by (simp add: EVP_DecodeUpdate_def ctx_dec_state_def)
  then show ?thesis using next_call [OF s2(3)] s2(2,4) by (auto simp: ctx_dec_state_def)
qed

lemma parts_run:
  "\<lbrakk>dec_inv bs m prev k (ctx_dec_state ctx); filter (\<lambda>c. \<not> skipped c) (concat parts) = drop m (EVP_EncodeBlock bs);
    m = length (EVP_EncodeBlock bs) \<longrightarrow> ctx_num ctx = 0\<rbrakk> \<Longrightarrow>
   \<exists>rvs outs ctx'. decode_parts ctx parts = (rvs, outs, ctx') \<and> set rvs \<subseteq> {0, 1} \<and> prev @ outs = bs \<and> ctx_num ctx' = 0"
proof (induction parts arbitrary: m prev k ctx)
  case Nil
  obtain q where q: "length bs + pad_of bs = 3 * q" "length (EVP_EncodeBlock bs) = 4 * q" "pad_of bs \<le> 2"
    by (rule encode_size)
  have m: "m = 4 * q" using Nil q by (auto simp: dec_inv_def)
  then have "k = q" "prev = take (3 * k) bs" using Nil q by (auto simp: dec_inv_def ctx_dec_state_def)
  then show ?case using Nil q m by auto
next
  case (Cons part parts)
  let ?f = "filter (\<lambda>c. \<not> skipped c)"
  have chars: "?f part @ ?f (concat parts) = drop m (EVP_EncodeBlock bs)" using Cons.prems(2) by simp
  obtain rv out c1 k1 where u: "EVP_DecodeUpdate ctx part = (rv, out, c1)" "rv \<in> {0, 1}"
      "dec_inv bs (m + length (?f part)) (prev @ out) k1 (ctx_dec_state c1)"
      "m + length (?f part) = length (EVP_EncodeBlock bs) \<longrightarrow> ctx_num c1 = 0"
    using update_run [OF Cons.prems(1) chars Cons.prems(3)] by blast
  have "?f (concat parts) = drop (m + length (?f part)) (EVP_EncodeBlock bs)"
    using arg_cong [OF chars, of "drop (length (?f part))"] by (simp add: add.commute)
  from Cons.IH [OF u(3) this u(4)] show ?case using u(1,2) by auto
qed

lemma decode_parts_ok:
  assumes "length (enc_data ctx) = 80" "filter (\<lambda>c. \<not> skipped c) (concat parts) = EVP_EncodeBlock bs"
  shows "\<exists>rvs ctx'. decode_parts (EVP_DecodeInit ctx) parts = (rvs, bs, ctx') \<and> set rvs \<subseteq> {0, 1}
    \<and> EVP_DecodeFinal ctx' = (1, [], ctx')"
proof -
  have "dec_inv bs 0 [] 0 (ctx_dec_state (EVP_DecodeInit ctx))"
    using assms(1) by (simp add: dec_inv_def ctx_dec_state_def EVP_DecodeInit_def initial_eof_def)
  moreover have "0 = length (EVP_EncodeBlock bs) \<longrightarrow> ctx_num (EVP_DecodeInit ctx) = 0"
    by (simp add: EVP_DecodeInit_def)
  ultimately obtain rvs ctx' where r: "decode_parts (EVP_DecodeInit ctx) parts = (rvs, bs, ctx')" "set rvs \<subseteq> {0, 1}" "ctx_num ctx' = 0"
    using parts_run [of bs 0 "[]" 0 "EVP_DecodeInit ctx" parts] assms(2) by auto
  from r(3) have "EVP_DecodeFinal ctx' = (1, [], ctx')" by (simp add: EVP_DecodeFinal_def)
  with r(1,2) show ?thesis by blast
qed

section \<open>Bounds\<close>

lemma trim_start_le: "trim_start f n = (g, k) \<Longrightarrow> k \<le> n"
  by (induction f n rule: trim_start.induct) (auto split: if_splits)

lemma trim_end_le: "trim_end f n \<le> n"
proof (induction f n rule: trim_end.induct)
  case (1 f n)
  then show ?case by (subst trim_end.simps) auto
qed

lemma decode_quads_length: "decode_quads f = Some out \<Longrightarrow> 4 * length out \<le> 3 * length f"
proof (induction f arbitrary: out rule: decode_quads.induct)
  case (1 w x y z f)
  then obtain t where "decode_quads f = Some t" "length out = 3 + length t"
    by (auto simp: Let_def split: if_splits)
  then show ?case using "1.IH" [OF refl refl refl refl _ refl, of t] "1.prems" by (auto simp: Let_def split: if_splits)
qed auto

lemma decode_block_length: "EVP_DecodeBlock f n = Some out \<Longrightarrow> 4 * length out \<le> 3 * n"
proof -
  assume some: "EVP_DecodeBlock f n = Some out"
  obtain g k where t: "trim_start f n = (g, k)" by force
  have "4 * length out \<le> 3 * length (take (trim_end g k) g)"
    using some t by (intro decode_quads_length) (simp add: EVP_DecodeBlock_def Let_def split: if_splits)
  also have "\<dots> \<le> 3 * n" using trim_end_le [of g k] trim_start_le [OF t] by simp
  finally show ?thesis .
qed

definition dec_bound :: "nat \<Rightarrow> dec_state \<Rightarrow> bool" where
  "dec_bound room s \<longleftrightarrow> dec_n s < 64 \<and> length (dec_d s) = 80 \<and> 4 * length (dec_out s) + 3 * dec_n s \<le> 3 * room"

lemma flush_bound:
  assumes "dec_flush s = Some s'" "length (dec_d s) = 80" "4 * length (dec_out s) + 3 * dec_n s \<le> 3 * room"
  shows "dec_bound room s'"
proof -
  obtain block where b: "EVP_DecodeBlock (dec_d s) (dec_n s) = Some block"
      "s' = s\<lparr>dec_n := 0, dec_out := dec_out s @ take (length block - dec_eof s) block\<rparr>"
    using assms(1) by (auto simp: dec_flush_def split: option.splits if_splits)
  then show ?thesis using decode_block_length [OF b(1)] assms(2,3) by (auto simp: dec_bound_def)
qed

lemma loop_bound: "dec_bound room s \<Longrightarrow> decode_loop inp s = (ex, s') \<Longrightarrow> dec_bound (room + length inp) s'"
proof (induction inp arbitrary: room s)
  case (Cons c inp)
  note prems = Cons.prems [unfolded dec_bound_def]
  define t where "t = (if c = pad_char then s\<lparr>dec_eof := dec_eof s + 1\<rparr> else s)"
  define u where "u = t\<lparr>dec_d := (dec_d t)[dec_n t := c], dec_n := dec_n t + 1\<rparr>"
  have t: "dec_bound (Suc room) t" "dec_bound (Suc room) s" using prems by (auto simp: dec_bound_def t_def)
  have u: "length (dec_d u) = 80" "4 * length (dec_out u) + 3 * dec_n u \<le> 3 * Suc room" "dec_n u \<le> 64"
    using prems by (auto simp: u_def t_def)
  have weaken: "dec_bound (Suc room) x \<Longrightarrow> dec_bound (Suc room + length inp) x" for x
    by (auto simp: dec_bound_def)
  have t64: "dec_n t \<noteq> 64" using t(1) by (simp add: dec_bound_def)
  have "s' = s \<or> s' = t \<or> decode_loop inp t = (ex, s') \<or> s' = u\<lparr>dec_n := 0\<rparr>
      \<or> (\<exists>v. dec_flush u = Some v \<and> decode_loop inp v = (ex, s')) \<or> (dec_n u \<noteq> 64 \<and> decode_loop inp u = (ex, s'))"
    using Cons.prems(2) [unfolded decode_loop.simps Let_def, folded t_def, folded u_def] t64
    by (auto split: if_splits option.splits)
  then consider "s' = s" | "s' = t" | "decode_loop inp t = (ex, s')" | "s' = u\<lparr>dec_n := 0\<rparr>"
    | v where "dec_flush u = Some v" "decode_loop inp v = (ex, s')" | "dec_n u \<noteq> 64" "decode_loop inp u = (ex, s')" by blast
  then have "dec_bound (Suc room + length inp) s'"
  proof cases
    case 4
    then have "dec_bound (Suc room) s'" using u by (auto simp: dec_bound_def)
    then show ?thesis by (rule weaken)
  next
    case 6
    then have "dec_bound (Suc room) u" using u by (auto simp: dec_bound_def)
    then show ?thesis using 6 Cons.IH by blast
  qed (use t weaken flush_bound [OF _ u(1,2)] Cons.IH in blast)+
  then show ?case by simp
qed (auto simp: dec_bound_def)

lemma tail_bound: "dec_bound room s \<Longrightarrow> decode_tail seof s = (rv, s') \<Longrightarrow> dec_bound room s' \<and> rv \<in> {- 1, 0, 1}"
  using flush_bound [of s _ room]
  by (auto simp: decode_tail_def dec_bound_def Let_def split: if_splits option.splits)

section \<open>Properties\<close>


definition blank_ctx :: EVP_ENCODE_CTX where
  "blank_ctx = \<lparr>ctx_num = 0, ctx_length = 0, enc_data = replicate 80 0, line_num = 0, expect_nl = 0\<rparr>"




end
