(* ===== verification/UnlockChecker.thy ===== *)
theory UnlockChecker
  imports Prelude
begin

text \<open>
  \<open>TxUnlockChecker\<close> (\<open>src/src/TxUnlockChecker.cpp\<close>): whether a transaction with an unlock time can be
  spent at a chain height and time. The constants of the coin's configuration header are a record; all
  quantities are 64-bit and their sums wrap round.
\<close>

datatype network_type = MAINNET | TESTNET | STAGENET

record unlock_config =
  MAX_BLOCK_NUMBER :: u64
  ALLOWED_DELTA_BLOCKS :: u64
  ALLOWED_DELTA_SECONDS_V1 :: u64
  ALLOWED_DELTA_SECONDS_V2 :: u64

definition get_v2height :: "network_type \<Rightarrow> u64" where
  "get_v2height net = (if net = TESTNET then 624634 else if net = STAGENET then - 1 else 1009827)"

definition get_leeway :: "unlock_config \<Rightarrow> u64 \<Rightarrow> network_type \<Rightarrow> u64" where
  "get_leeway c tx_block_height net =
     (if tx_block_height < get_v2height net then ALLOWED_DELTA_SECONDS_V1 c else ALLOWED_DELTA_SECONDS_V2 c)"

definition is_unlocked :: "unlock_config \<Rightarrow> u64 \<Rightarrow> network_type \<Rightarrow> u64 \<Rightarrow> u64 \<Rightarrow> u64 \<Rightarrow> bool" where
  "is_unlocked c now net current_blockchain_height tx_unlock_time tx_block_height =
     (if tx_unlock_time < MAX_BLOCK_NUMBER c
      then (if current_blockchain_height + ALLOWED_DELTA_BLOCKS c \<ge> tx_unlock_time then True else False)
      else (if now + get_leeway c tx_block_height net \<ge> tx_unlock_time then True else False))"

section \<open>Sums that do not wrap\<close>

lemma unat_add_no_wrap: "unat a + unat b < 2 ^ 64 \<Longrightarrow> unat (a + b :: u64) = unat a + unat b"
  by (simp add: unat_word_ariths)

lemma u64_less: "unat (w :: u64) < 2 ^ 64"
  using unsigned_less [of w] by simp

text \<open>
  What the function decides, read in natural numbers: below the limit the unlock time is a height,
  from it on a time stamp, each compared with the present plus the tolerance of the configuration.
\<close>

definition unlocked_spec :: "unlock_config \<Rightarrow> nat \<Rightarrow> network_type \<Rightarrow> nat \<Rightarrow> u64 \<Rightarrow> u64 \<Rightarrow> bool" where
  "unlocked_spec c now net height unlock_time tx_height \<longleftrightarrow>
     (if unat unlock_time < unat (MAX_BLOCK_NUMBER c)
      then unat unlock_time \<le> height + unat (ALLOWED_DELTA_BLOCKS c)
      else unat unlock_time \<le> now + unat (get_leeway c tx_height net))"

lemma is_unlocked_spec:
  assumes "unat height + unat (ALLOWED_DELTA_BLOCKS c) < 2 ^ 64"
    and "unat now + unat (get_leeway c tx_height net) < 2 ^ 64"
  shows "is_unlocked c now net height unlock_time tx_height
    \<longleftrightarrow> unlocked_spec c (unat now) net (unat height) unlock_time tx_height"
  using assms
  by (simp add: is_unlocked_def unlocked_spec_def word_less_nat_alt word_le_nat_alt unat_add_no_wrap)

section \<open>Properties\<close>

text \<open>C37: as long as the height and the time plus their tolerance stay within 64 bits, a transaction
  that is unlocked stays unlocked as the chain grows and time passes, and the decision is the one read
  in natural numbers.\<close>

theorem unlocked_is_permanent:
  assumes "unat height \<le> unat height'" "unat height' + unat (ALLOWED_DELTA_BLOCKS c) < 2 ^ 64"
    "unat now \<le> unat now'" "unat now' + unat (get_leeway c tx_height net) < 2 ^ 64"
  shows "(is_unlocked c now net height unlock_time tx_height \<longrightarrow> is_unlocked c now' net height' unlock_time tx_height)
    \<and> (is_unlocked c now' net height' unlock_time tx_height
        \<longleftrightarrow> unlocked_spec c (unat now') net (unat height') unlock_time tx_height)"
proof -
  have "is_unlocked c now net height unlock_time tx_height = unlocked_spec c (unat now) net (unat height) unlock_time tx_height"
    using assms by (intro is_unlocked_spec) linarith+
  moreover have "is_unlocked c now' net height' unlock_time tx_height = unlocked_spec c (unat now') net (unat height') unlock_time tx_height"
    using assms by (intro is_unlocked_spec) auto
  ultimately show ?thesis using assms by (auto simp: unlocked_spec_def)
qed

text \<open>A configuration with the values that the upstream coin publishes.\<close>

definition sample_config :: unlock_config where
  "sample_config = \<lparr>MAX_BLOCK_NUMBER = 500000000, ALLOWED_DELTA_BLOCKS = 1,
     ALLOWED_DELTA_SECONDS_V1 = 60, ALLOWED_DELTA_SECONDS_V2 = 120\<rparr>"

theorem unlocked_is_permanent_witness:
  "is_unlocked sample_config 7 MAINNET 100 101 91 \<and> is_unlocked sample_config 9 MAINNET 150 101 91"
proof
  show 1: "is_unlocked sample_config 7 MAINNET 100 101 91"
    by (simp add: is_unlocked_def sample_config_def)
  have "unat (100 :: u64) \<le> unat (150 :: u64)" "unat (150 :: u64) + unat (ALLOWED_DELTA_BLOCKS sample_config) < 2 ^ 64"
    "unat (7 :: u64) \<le> unat (9 :: u64)" "unat (9 :: u64) + unat (get_leeway sample_config 91 MAINNET) < 2 ^ 64"
    by (simp_all add: sample_config_def get_leeway_def get_v2height_def)
  from unlocked_is_permanent [OF this, of 101] 1
  show "is_unlocked sample_config 9 MAINNET 150 101 91" by simp
qed

end
