(* ===== verification/WorkPool.thy ===== *)
theory WorkPool
  imports Prelude
begin

text \<open>
  The job queue (\<open>src/ext/ThreadSafeQueue.hpp\<close>) and the thread pool over it (\<open>src/ext/ThreadPool.hpp\<close>)
  through which the wallet runs its blockchain queries. A queue operation runs under the mutex, so it
  is one step; waiting on the condition variable, waking up and testing again are steps of their own.
\<close>

section \<open>The queue\<close>

record 'a tsq =
  m_queue :: "'a list"
  m_valid :: bool

definition tryPop :: "'a tsq \<Rightarrow> 'a option \<times> 'a tsq" where
  "tryPop q =
     (if m_queue q = [] \<or> \<not> m_valid q then (None, q)
      else (Some (hd (m_queue q)), q\<lparr>m_queue := tl (m_queue q)\<rparr>))"

text \<open>The predicate that \<open>waitPop\<close> waits for, and what it does once the predicate holds.\<close>

definition can_proceed :: "'a tsq \<Rightarrow> bool" where
  "can_proceed q \<longleftrightarrow> m_queue q \<noteq> [] \<or> \<not> m_valid q"

definition waitPop :: "'a tsq \<Rightarrow> 'a option \<times> 'a tsq" where
  "waitPop q =
     (if \<not> m_valid q then (None, q)
      else (Some (hd (m_queue q)), q\<lparr>m_queue := tl (m_queue q)\<rparr>))"

definition push :: "'a \<Rightarrow> 'a tsq \<Rightarrow> 'a tsq" where
  "push v q = q\<lparr>m_queue := m_queue q @ [v]\<rparr>"

definition tsq_empty :: "'a tsq \<Rightarrow> bool" where
  "tsq_empty q \<longleftrightarrow> m_queue q = []"

primrec pop_all :: "'a list \<Rightarrow> 'a list" where
  "pop_all [] = []"
| "pop_all (x # xs) = pop_all xs"

definition clear :: "'a tsq \<Rightarrow> 'a tsq" where
  "clear q = q\<lparr>m_queue := pop_all (m_queue q)\<rparr>"

definition invalidate :: "'a tsq \<Rightarrow> 'a tsq" where
  "invalidate q = q\<lparr>m_valid := False\<rparr>"

definition tsq_size :: "'a tsq \<Rightarrow> nat" where
  "tsq_size q = length (m_queue q)"

section \<open>The pool\<close>

text \<open>
  Where a worker is: testing \<open>m_done\<close>, in \<open>waitPop\<close> with the mutex and about to test the predicate,
  asleep on the condition variable, running a job, or returned.
\<close>

datatype 'j worker = Testing | Entering | Blocked | Running 'j | Ended

text \<open>\<open>submitted\<close> and \<open>started\<close> record the history; the code does not keep them.\<close>

record 'j pool =
  workQueue :: "'j tsq"
  m_done :: bool
  workers :: "'j worker list"
  submitted :: "'j list"
  started :: "'j list"

definition default_threads :: "nat \<Rightarrow> nat" where
  "default_threads hardware_concurrency = max (hardware_concurrency div 2) 2 - 1"

definition new_pool :: "nat \<Rightarrow> 'j pool" where
  "new_pool numThreads =
     \<lparr>workQueue = \<lparr>m_queue = [], m_valid = True\<rparr>, m_done = False, workers = replicate numThreads Testing,
      submitted = [], started = []\<rparr>"

text \<open>\<open>submit\<close> pushes and notifies one waiting worker (\<open>None\<close> when no one waits).\<close>

definition submit :: "'j \<Rightarrow> nat option \<Rightarrow> 'j pool \<Rightarrow> 'j pool" where
  "submit j woken p =
     p\<lparr>workQueue := push j (workQueue p), submitted := submitted p @ [j],
       workers := (case woken of None \<Rightarrow> workers p | Some i \<Rightarrow> (workers p)[i := Entering])\<rparr>"

definition wake_all :: "'j worker list \<Rightarrow> 'j worker list" where
  "wake_all = map (\<lambda>w. if w = Blocked then Entering else w)"

inductive env_step :: "'j pool \<Rightarrow> 'j pool \<Rightarrow> bool" where
  submit_none: "Blocked \<notin> set (workers p) \<Longrightarrow> env_step p (submit j None p)"
| submit_wake: "\<lbrakk>i < length (workers p); workers p ! i = Blocked\<rbrakk> \<Longrightarrow> env_step p (submit j (Some i) p)"
| spurious: "\<lbrakk>i < length (workers p); workers p ! i = Blocked\<rbrakk> \<Longrightarrow>
    env_step p (p\<lparr>workers := (workers p)[i := Entering]\<rparr>)"
| destroy_done: "env_step p (p\<lparr>m_done := True\<rparr>)"
| destroy_invalidate: "m_done p \<Longrightarrow>
    env_step p (p\<lparr>workQueue := invalidate (workQueue p), workers := wake_all (workers p)\<rparr>)"

text \<open>The body of \<open>worker\<close>, one step of worker \<open>i\<close> at a time.\<close>

inductive worker_step :: "nat \<Rightarrow> 'j pool \<Rightarrow> 'j pool \<Rightarrow> bool" for i where
  loop_test: "\<lbrakk>i < length (workers p); workers p ! i = Testing\<rbrakk> \<Longrightarrow>
    worker_step i p (p\<lparr>workers := (workers p)[i := if m_done p then Ended else Entering]\<rparr>)"
| wait_sleep: "\<lbrakk>i < length (workers p); workers p ! i = Entering; \<not> can_proceed (workQueue p)\<rbrakk> \<Longrightarrow>
    worker_step i p (p\<lparr>workers := (workers p)[i := Blocked]\<rparr>)"
| wait_fail: "\<lbrakk>i < length (workers p); workers p ! i = Entering; can_proceed (workQueue p);
      waitPop (workQueue p) = (None, q)\<rbrakk> \<Longrightarrow>
    worker_step i p (p\<lparr>workQueue := q, workers := (workers p)[i := Testing]\<rparr>)"
| wait_pop: "\<lbrakk>i < length (workers p); workers p ! i = Entering; can_proceed (workQueue p);
      waitPop (workQueue p) = (Some j, q)\<rbrakk> \<Longrightarrow>
    worker_step i p (p\<lparr>workQueue := q, workers := (workers p)[i := Running j], started := started p @ [j]\<rparr>)"
| run_done: "\<lbrakk>i < length (workers p); workers p ! i = Running j\<rbrakk> \<Longrightarrow>
    worker_step i p (p\<lparr>workers := (workers p)[i := Testing]\<rparr>)"

inductive_cases env_stepE: "env_step p p'"
inductive_cases worker_stepE: "worker_step i p p'"

inductive pool_reachable :: "nat \<Rightarrow> 'j pool \<Rightarrow> bool" for n where
  start: "pool_reachable n (new_pool n)"
| env: "\<lbrakk>pool_reachable n p; env_step p p'\<rbrakk> \<Longrightarrow> pool_reachable n p'"
| work: "\<lbrakk>pool_reachable n p; worker_step i p p'\<rbrakk> \<Longrightarrow> pool_reachable n p'"

section \<open>Invariants\<close>

lemma pop_all_empty [simp]: "pop_all xs = []"
  by (induction xs) simp_all

definition pool_inv :: "nat \<Rightarrow> 'j pool \<Rightarrow> bool" where
  "pool_inv n p \<longleftrightarrow> length (workers p) = n
     \<and> submitted p = started p @ m_queue (workQueue p)
     \<and> (\<not> m_valid (workQueue p) \<longrightarrow> m_done p \<and> Blocked \<notin> set (workers p))
     \<and> (Ended \<in> set (workers p) \<longrightarrow> m_done p)
     \<and> (\<not> m_done p \<and> m_queue (workQueue p) \<noteq> [] \<and> 0 < n \<longrightarrow> (\<exists>w \<in> set (workers p). w \<noteq> Blocked))"

lemma wake_all_set: "w \<in> set (wake_all ws) \<longleftrightarrow> w \<noteq> Blocked \<and> (w \<in> set ws \<or> w = Entering \<and> Blocked \<in> set ws)"
  by (auto simp: wake_all_def)

lemma length_wake_all [simp]: "length (wake_all ws) = length ws"
  by (simp add: wake_all_def)

text \<open>A worker moves somewhere that is not asleep.\<close>

lemma awake_update: "i < length ws \<Longrightarrow> w \<noteq> Blocked \<Longrightarrow> \<exists>v \<in> set (ws[i := w]). v \<noteq> Blocked"
  using set_update_memI [of i ws w] by auto

lemma env_step_inv: "env_step p p' \<Longrightarrow> pool_inv n p \<Longrightarrow> pool_inv n p'"
proof (induction rule: env_step.induct)
  case (submit_none p j)
  have "\<exists>w \<in> set (workers p). w \<noteq> Blocked" if "0 < length (workers p)"
    using that submit_none.hyps by (cases "workers p") auto
  then show ?case
    using submit_none.prems submit_none.hyps by (auto simp: pool_inv_def submit_def push_def)
next
  case (submit_wake i p j)
  then show ?case
    using awake_update [of i "workers p" Entering] set_update_subset_insert [of "workers p" i Entering]
    by (auto simp: pool_inv_def submit_def push_def)
next
  case (spurious i p)
  then show ?case
    using awake_update [of i "workers p" Entering] set_update_subset_insert [of "workers p" i Entering]
    by (auto simp: pool_inv_def)
next
  case (destroy_done p)
  then show ?case by (auto simp: pool_inv_def)
next
  case (destroy_invalidate p)
  then show ?case by (auto simp: pool_inv_def invalidate_def wake_all_set)
qed

lemma worker_step_inv: "worker_step i p p' \<Longrightarrow> pool_inv n p \<Longrightarrow> pool_inv n p'"
proof (induction rule: worker_step.induct)
  case (loop_test p)
  then show ?case
    using awake_update [of i "workers p" Entering] set_update_subset_insert [of "workers p" i]
    by (auto simp: pool_inv_def)
next
  case (wait_sleep p)
  then show ?case
    using set_update_subset_insert [of "workers p" i Blocked]
    by (auto simp: pool_inv_def can_proceed_def)
next
  case (wait_fail p q)
  then show ?case
    using awake_update [of i "workers p" Testing] set_update_subset_insert [of "workers p" i Testing]
    by (auto simp: pool_inv_def waitPop_def split: if_splits)
next
  case (wait_pop p j q)
  then show ?case
    using awake_update [of i "workers p" "Running j"] set_update_subset_insert [of "workers p" i "Running j"]
    by (auto simp: pool_inv_def waitPop_def can_proceed_def split: if_splits)
next
  case (run_done p j)
  then show ?case
    using awake_update [of i "workers p" Testing] set_update_subset_insert [of "workers p" i Testing]
    by (auto simp: pool_inv_def)
qed

lemma reachable_inv: "pool_reachable n p \<Longrightarrow> pool_inv n p"
proof (induction rule: pool_reachable.induct)
  case start
  show ?case by (auto simp: pool_inv_def new_pool_def)
qed (simp_all add: env_step_inv worker_step_inv)

section \<open>Shutting down\<close>

primrec rank :: "'j worker \<Rightarrow> nat" where
  "rank (Running j) = 3"
| "rank Entering = 2"
| "rank Testing = 1"
| "rank Blocked = 0"
| "rank Ended = 0"

definition pool_rank :: "'j pool \<Rightarrow> nat" where
  "pool_rank p = sum_list (map rank (workers p))"

lemma rank_update:
  assumes "i < length ws" "rank w < rank (ws ! i)"
  shows "sum_list (map rank (ws[i := w])) < sum_list (map rank ws)"
proof -
  have "sum_list ((map rank ws)[i := rank w]) = sum_list (map rank ws) + rank w - map rank ws ! i"
    using assms(1) by (intro sum_list_update) simp
  moreover have "map rank ws ! i \<le> sum_list (map rank ws)"
    using assms(1) by (intro elem_le_sum_list) simp
  ultimately show ?thesis using assms by (simp add: map_update)
qed

lemma shutdown_step:
  assumes "worker_step i p p'" "pool_inv n p" "\<not> m_valid (workQueue p)"
  shows "pool_rank p' < pool_rank p \<and> started p' = started p \<and> \<not> m_valid (workQueue p')"
  using assms
proof (induction rule: worker_step.induct)
  case (loop_test p)
  then show ?case by (simp add: pool_rank_def rank_update pool_inv_def)
next
  case (wait_sleep p)
  then show ?case by (simp add: can_proceed_def)
next
  case (wait_fail p q)
  then show ?case by (auto simp: pool_rank_def rank_update waitPop_def split: if_splits)
next
  case (wait_pop p j q)
  then show ?case by (simp add: waitPop_def)
next
  case (run_done p j)
  then show ?case by (simp add: pool_rank_def rank_update)
qed

lemma shutdown_progress:
  assumes "pool_inv n p" "\<not> m_valid (workQueue p)" "i < n" "workers p ! i \<noteq> Ended"
  shows "\<exists>p'. worker_step i p p'"
proof -
  have i: "i < length (workers p)" using assms by (simp add: pool_inv_def)
  then have "workers p ! i \<noteq> Blocked" using assms by (auto simp: pool_inv_def in_set_conv_nth)
  then consider "workers p ! i = Testing" | "workers p ! i = Entering" | j where "workers p ! i = Running j"
    using assms(4) by (cases "workers p ! i") auto
  then show ?thesis
  proof cases
    case 1
    show ?thesis by (rule exI, rule worker_step.loop_test [OF i 1])
  next
    case 2
    have "can_proceed (workQueue p)" "waitPop (workQueue p) = (None, workQueue p)"
      using assms(2) by (simp_all add: can_proceed_def waitPop_def)
    then show ?thesis by (intro exI, rule worker_step.wait_fail [OF i 2])
  next
    case (3 j)
    show ?thesis by (rule exI, rule worker_step.run_done [OF i 3])
  qed
qed

text \<open>Any number of worker steps in a row.\<close>

inductive worker_run :: "nat \<Rightarrow> 'j pool \<Rightarrow> 'j pool \<Rightarrow> bool" where
  none: "worker_run 0 p p"
| more: "\<lbrakk>worker_step i p p'; worker_run k p' p''\<rbrakk> \<Longrightarrow> worker_run (Suc k) p p''"

lemma shutdown_run:
  "\<lbrakk>worker_run k p p'; pool_inv n p; \<not> m_valid (workQueue p)\<rbrakk> \<Longrightarrow>
     k + pool_rank p' \<le> pool_rank p \<and> pool_inv n p' \<and> started p' = started p \<and> \<not> m_valid (workQueue p')"
proof (induction rule: worker_run.induct)
  case (more i p p' k p'')
  have "pool_rank p' < pool_rank p \<and> started p' = started p \<and> \<not> m_valid (workQueue p')"
    by (rule shutdown_step [OF more.hyps(1) more.prems])
  moreover have "pool_inv n p'" by (rule worker_step_inv [OF more.hyps(1) more.prems(1)])
  ultimately show ?case using more.IH by auto
qed simp

lemma rank_bound: "pool_rank p \<le> 3 * length (workers p)"
proof -
  have "rank w \<le> 3" for w :: "'a worker" by (cases w) auto
  then have "sum_list (map rank ws) \<le> 3 * length ws" for ws :: "'a worker list"
    by (induction ws) (auto simp: add_mono)
  then show ?thesis by (simp add: pool_rank_def)
qed

section \<open>Properties\<close>


text \<open>A pool of one worker that has gone to sleep before the job arrives.\<close>

definition sleeping_pool :: "nat pool" where
  "sleeping_pool = \<lparr>workQueue = \<lparr>m_queue = [], m_valid = True\<rparr>, m_done = False, workers = [Blocked],
     submitted = [], started = []\<rparr>"

lemma sleeping_reachable: "pool_reachable 1 sleeping_pool"
proof -
  let ?p = "new_pool 1 :: nat pool"
  let ?e = "?p\<lparr>workers := [Entering]\<rparr>"
  have "pool_reachable 1 ?e"
    using pool_reachable.work [OF pool_reachable.start [of 1], of 0 ?e]
      worker_step.loop_test [of 0 ?p] by (simp add: new_pool_def)
  moreover have "worker_step 0 ?e sleeping_pool"
    using worker_step.wait_sleep [of 0 ?e] by (simp add: new_pool_def sleeping_pool_def can_proceed_def)
  ultimately show ?thesis by (rule pool_reachable.work)
qed

lemma woken_reachable: "pool_reachable 1 (submit 7 (Some 0) sleeping_pool)"
  by (rule pool_reachable.env [OF sleeping_reachable], rule env_step.submit_wake)
    (simp_all add: sleeping_pool_def)


text \<open>C14: once \<open>destroy\<close> has invalidated the queue, the workers end: at most three steps per worker can
  follow, none of them starts a job, and as long as a worker has not returned it can take a step, so the
  joins of \<open>destroy\<close> return when the running jobs do.\<close>

theorem pool_shutdown:
  assumes "pool_reachable n p" "\<not> m_valid (workQueue p)" "worker_run k p p'"
  shows "k \<le> 3 * n \<and> started p' = started p \<and> (\<forall>i < n. workers p' ! i \<noteq> Ended \<longrightarrow> (\<exists>p''. worker_step i p' p''))"
proof -
  note inv = reachable_inv [OF assms(1)]
  note run = shutdown_run [OF assms(3) inv assms(2)]
  have "pool_rank p \<le> 3 * n" using rank_bound [of p] inv by (simp add: pool_inv_def)
  then show ?thesis using run shutdown_progress [of n p'] by auto
qed

definition closing_pool :: "nat pool" where
  "closing_pool = sleeping_pool\<lparr>m_done := True, workQueue := \<lparr>m_queue = [], m_valid = False\<rparr>, workers := [Entering]\<rparr>"

lemma closing_reachable: "pool_reachable 1 closing_pool"
proof -
  let ?p = "sleeping_pool\<lparr>m_done := True\<rparr>"
  have "pool_reachable 1 ?p" by (rule pool_reachable.env [OF sleeping_reachable env_step.destroy_done])
  moreover have "env_step ?p closing_pool"
    using env_step.destroy_invalidate [of ?p]
    by (simp add: sleeping_pool_def closing_pool_def invalidate_def wake_all_def)
  ultimately show ?thesis by (rule pool_reachable.env)
qed

theorem pool_shutdown_witness: "\<exists>p''. worker_step 0 closing_pool p''"
proof -
  have "\<not> m_valid (workQueue closing_pool)" "workers closing_pool ! 0 \<noteq> Ended"
    by (simp_all add: closing_pool_def sleeping_pool_def)
  then show ?thesis
    using pool_shutdown [OF closing_reachable _ worker_run.none] by simp
qed

text \<open>\<open>clear\<close> does not release a thread that waits in \<open>waitPop\<close>: it wakes all of them, but on a valid
  queue the predicate is false again, whereas after \<open>invalidate\<close> it holds and \<open>waitPop\<close> returns false.\<close>

theorem clear_keeps_waiting:
  assumes "m_valid q"
  shows "\<not> can_proceed (clear q) \<and> can_proceed (invalidate q) \<and> fst (waitPop (invalidate q)) = None"
  using assms by (simp add: can_proceed_def clear_def invalidate_def waitPop_def)

theorem clear_keeps_waiting_witness:
  "\<not> can_proceed (clear \<lparr>m_queue = [1, 2 :: nat], m_valid = True\<rparr>)"
  using clear_keeps_waiting [of "\<lparr>m_queue = [1, 2 :: nat], m_valid = True\<rparr>"] by simp

end
