(* ===== verification/SearchThreads.thy ===== *)
theory SearchThreads
  imports Prelude
begin

text \<open>
  The search threads of \<open>CurrentBlockchainStatus\<close> (\<open>src/src/CurrentBlockchainStatus.cpp\<close>, 790-1185) and the
  life of one thread (\<open>TxSearch\<close>, \<open>ThreadRAII2\<close>): the map from address to thread, the operations that the
  request handlers and the monitor call under \<open>searching_threads_map_mtx\<close>, and the steps of the threads
  themselves in between.
\<close>

section \<open>Threads and the map\<close>

text \<open>
  Where the thread is in \<open>TxSearch::operator()\<close>: not yet at the line that sets \<open>searching_is_ongoing\<close>, in
  the loop, behind the line that clears it but still in the function, or returned.
\<close>

datatype phase = Created | Looping | Finishing | Returned

record tx_search =
  phase :: phase
  searching_is_ongoing :: bool
  continue_search :: bool
  searched_blk_no :: u64
  searched_block_got_updated :: bool
  last_ping_timestamp :: nat
  viewkey_hex :: string

type_synonym threads = "(string \<times> tx_search) list"

text \<open>
  \<open>static_viewkey\<close> is the function-local static of \<open>TxSearch::get_viewkey\<close>, \<open>freed_live\<close> a record of the
  search objects that were destroyed while their thread had not returned; the code does not keep it.
\<close>

record search_state =
  searching_threads :: threads
  static_viewkey :: "string option"
  freed_live :: "string list"

definition new_tx_search :: "u64 \<Rightarrow> nat \<Rightarrow> string \<Rightarrow> tx_search" where
  "new_tx_search scanned_block_height now key =
     \<lparr>phase = Created, searching_is_ongoing = False, continue_search = True,
      searched_blk_no = scanned_block_height, searched_block_got_updated = False,
      last_ping_timestamp = now, viewkey_hex = key\<rparr>"

definition search_thread_exist :: "string \<Rightarrow> search_state \<Rightarrow> bool" where
  "search_thread_exist address s \<longleftrightarrow> address \<in> fst ` set (searching_threads s)"

text \<open>\<open>get_search_thread\<close> throws when there is no thread (\<open>None\<close>); every caller tests first.\<close>

definition get_search_thread :: "string \<Rightarrow> search_state \<Rightarrow> tx_search option" where
  "get_search_thread address s = map_of (searching_threads s) address"

definition update_thread :: "string \<Rightarrow> (tx_search \<Rightarrow> tx_search) \<Rightarrow> search_state \<Rightarrow> search_state" where
  "update_thread address f s =
     s\<lparr>searching_threads := map (\<lambda>(a, t). (a, if a = address then f t else t)) (searching_threads s)\<rparr>"

section \<open>The operations\<close>

text \<open>\<open>spawned\<close> is whether the system could create the thread; \<open>std::thread\<close> throws when it could not.\<close>

definition start_tx_search_thread :: "bool \<Rightarrow> string \<Rightarrow> tx_search \<Rightarrow> search_state \<Rightarrow> bool \<times> search_state" where
  "start_tx_search_thread spawned address tx_search s =
     (if search_thread_exist address s then (True, s)
      else if spawned then (True, s\<lparr>searching_threads := searching_threads s @ [(address, tx_search)]\<rparr>)
      else (False, s))"

definition ping_search_thread :: "nat \<Rightarrow> string \<Rightarrow> search_state \<Rightarrow> bool \<times> search_state" where
  "ping_search_thread now address s =
     (if \<not> search_thread_exist address s then (False, s)
      else (True, update_thread address (\<lambda>t. t\<lparr>last_ping_timestamp := now\<rparr>) s))"

definition get_searched_blk_no :: "string \<Rightarrow> search_state \<Rightarrow> u64 option" where
  "get_searched_blk_no address s =
     (if \<not> search_thread_exist address s then None
      else map_option searched_blk_no (get_search_thread address s))"

text \<open>\<open>TxSearch::set_searched_blk_no\<close> writes the block first and the flag second.\<close>

definition set_searched_blk_no :: "u64 \<Rightarrow> tx_search \<Rightarrow> tx_search" where
  "set_searched_blk_no new_value t = t\<lparr>searched_blk_no := new_value, searched_block_got_updated := True\<rparr>"

definition set_new_searched_blk_no :: "string \<Rightarrow> u64 \<Rightarrow> search_state \<Rightarrow> bool \<times> search_state" where
  "set_new_searched_blk_no address new_value s =
     (if \<not> search_thread_exist address s then (False, s)
      else (True, update_thread address (set_searched_blk_no new_value) s))"

text \<open>\<open>static string viewkey = pod_to_hex(this->viewkey);\<close> is initialised by the first call of any thread.\<close>

definition get_viewkey :: "tx_search \<Rightarrow> search_state \<Rightarrow> string \<times> search_state" where
  "get_viewkey t s =
     (case static_viewkey s of
        Some k \<Rightarrow> (k, s)
      | None \<Rightarrow> (viewkey_hex t, s\<lparr>static_viewkey := Some (viewkey_hex t)\<rparr>))"

definition search_thread_exist_key :: "string \<Rightarrow> string \<Rightarrow> search_state \<Rightarrow> bool \<times> search_state" where
  "search_thread_exist_key address viewkey s =
     (if \<not> search_thread_exist address s then (False, s)
      else (case get_search_thread address s of
              Some t \<Rightarrow> let (k, s) = get_viewkey t s in (k = viewkey, s)
            | None \<Rightarrow> (False, s)))"

definition thread_map_size :: "search_state \<Rightarrow> nat" where
  "thread_map_size s = length (searching_threads s)"

text \<open>
  Erasing an entry destroys the \<open>ThreadRAII2\<close>: its member, the search object, goes before the base
  class joins the thread.
\<close>

definition clean_search_thread_map :: "search_state \<Rightarrow> search_state" where
  "clean_search_thread_map s =
     s\<lparr>searching_threads := filter (\<lambda>(a, t). searching_is_ongoing t) (searching_threads s),
       freed_live := freed_live s
         @ map fst (filter (\<lambda>(a, t). \<not> searching_is_ongoing t \<and> phase t \<noteq> Returned) (searching_threads s))\<rparr>"

definition stop_search :: "tx_search \<Rightarrow> tx_search" where
  "stop_search t = t\<lparr>continue_search := False\<rparr>"

definition stop_search_threads :: "search_state \<Rightarrow> search_state" where
  "stop_search_threads s =
     s\<lparr>searching_threads := map (\<lambda>(a, t). (a, stop_search t)) (searching_threads s)\<rparr>"

section \<open>The thread itself\<close>

text \<open>The line of \<open>TxSearch::operator()\<close> in front of the loop, and the end of one round of the loop.\<close>

definition search_enter :: "tx_search \<Rightarrow> tx_search" where
  "search_enter t = t\<lparr>phase := Looping, searching_is_ongoing := True\<rparr>"

definition search_next_window :: "u64 \<Rightarrow> tx_search \<Rightarrow> tx_search" where
  "search_next_window h2 t =
     (if \<not> searched_block_got_updated t then t\<lparr>searched_blk_no := h2 + 1\<rparr> else t)
        \<lparr>searched_block_got_updated := False\<rparr>"

text \<open>The \<open>return\<close> inside the loop, behind a failed \<open>get_txs_in_blocks\<close>: no flag is touched.\<close>

definition search_return_early :: "tx_search \<Rightarrow> tx_search" where
  "search_return_early t = t\<lparr>phase := Returned\<rparr>"

text \<open>Behind the loop and both \<open>catch\<close> clauses, in two writes: the flag, then \<open>stop\<close> and the return.\<close>

definition search_leave :: "tx_search \<Rightarrow> tx_search" where
  "search_leave t = t\<lparr>phase := Finishing, searching_is_ongoing := False\<rparr>"

text \<open>
  \<open>give_up\<close> is a \<open>stop\<close> the loop calls itself (no blocks, or no ping for \<open>thread_search_life\<close>); \<open>leave_loop\<close>
  needs no condition since an exception leaves the loop as well.
\<close>

inductive thread_step :: "tx_search \<Rightarrow> tx_search \<Rightarrow> bool" where
  enter: "phase t = Created \<Longrightarrow> thread_step t (search_enter t)"
| advance: "phase t = Looping \<Longrightarrow> thread_step t (search_next_window h2 t)"
| give_up: "phase t = Looping \<Longrightarrow> thread_step t (stop_search t)"
| leave_early: "phase t = Looping \<Longrightarrow> thread_step t (search_return_early t)"
| leave_loop: "phase t = Looping \<Longrightarrow> thread_step t (search_leave t)"
| finish: "phase t = Finishing \<Longrightarrow> thread_step t (stop_search (t\<lparr>phase := Returned\<rparr>))"

lemmas thread_defs = search_enter_def search_next_window_def search_return_early_def search_leave_def stop_search_def

inductive_cases thread_stepE: "thread_step t t'"

inductive system_step :: "search_state \<Rightarrow> search_state \<Rightarrow> bool" where
  start: "system_step s (snd (start_tx_search_thread ok a (new_tx_search b now k) s))"
| ping: "system_step s (snd (ping_search_thread now a s))"
| rescan: "system_step s (snd (set_new_searched_blk_no a b s))"
| login: "system_step s (snd (search_thread_exist_key a k s))"
| clean: "system_step s (clean_search_thread_map s)"
| stop: "system_step s (stop_search_threads s)"
| run: "\<lbrakk>get_search_thread a s = Some t; thread_step t t'\<rbrakk> \<Longrightarrow> system_step s (update_thread a (\<lambda>_. t') s)"

definition initial_search :: search_state where
  "initial_search = \<lparr>searching_threads = [], static_viewkey = None, freed_live = []\<rparr>"

abbreviation later :: "search_state \<Rightarrow> search_state \<Rightarrow> bool" where
  "later \<equiv> system_step\<^sup>*\<^sup>*"

section \<open>Invariants\<close>

lemma keys_update [simp]: "map fst (searching_threads (update_thread a f s)) = map fst (searching_threads s)"
  by (simp add: update_thread_def case_prod_beta comp_def)

lemma get_update:
  "get_search_thread b (update_thread a f s) = map_option (\<lambda>t. if b = a then f t else t) (get_search_thread b s)"
proof -
  have "map_of (map (\<lambda>(c, t). (c, if c = a then f t else t)) xs) b = map_option (\<lambda>t. if b = a then f t else t) (map_of xs b)" for xs
    by (induction xs) auto
  then show ?thesis by (simp add: get_search_thread_def update_thread_def)
qed

lemma exist_iff: "search_thread_exist a s \<longleftrightarrow> (\<exists>t. get_search_thread a s = Some t)"
  unfolding search_thread_exist_def get_search_thread_def using map_of_eq_None_iff [of "searching_threads s" a]
  by (auto simp: domIff)

definition search_inv :: "search_state \<Rightarrow> bool" where
  "search_inv s \<longleftrightarrow> distinct (map fst (searching_threads s))
     \<and> (\<forall>(a, t) \<in> set (searching_threads s).
         (phase t = Looping \<longrightarrow> searching_is_ongoing t) \<and> (phase t \<in> {Created, Finishing} \<longrightarrow> \<not> searching_is_ongoing t))"

lemma thread_step_phase:
  "\<lbrakk>thread_step t t'; phase t = Looping \<longrightarrow> searching_is_ongoing t;
    phase t \<in> {Created, Finishing} \<longrightarrow> \<not> searching_is_ongoing t\<rbrakk> \<Longrightarrow>
   (phase t' = Looping \<longrightarrow> searching_is_ongoing t') \<and> (phase t' \<in> {Created, Finishing} \<longrightarrow> \<not> searching_is_ongoing t')"
  by (erule thread_stepE) (auto simp: thread_defs)

lemma update_inv:
  assumes "search_inv s"
    and "\<And>t. (a, t) \<in> set (searching_threads s) \<Longrightarrow>
      (phase (f t) = Looping \<longrightarrow> searching_is_ongoing (f t)) \<and> (phase (f t) \<in> {Created, Finishing} \<longrightarrow> \<not> searching_is_ongoing (f t))"
  shows "search_inv (update_thread a f s)"
proof -
  have "distinct (map fst (searching_threads (update_thread a f s)))"
    using assms(1) by (simp add: search_inv_def del: distinct_map)
  moreover have "(phase t = Looping \<longrightarrow> searching_is_ongoing t) \<and> (phase t \<in> {Created, Finishing} \<longrightarrow> \<not> searching_is_ongoing t)"
    if bt: "(b, t) \<in> set (searching_threads (update_thread a f s))" for b t
  proof -
    obtain t0 where "(b, t0) \<in> set (searching_threads s)" "t = (if b = a then f t0 else t0)"
      using bt by (auto simp: update_thread_def)
    then show ?thesis using assms by (cases "b = a") (fastforce simp: search_inv_def)+
  qed
  ultimately show ?thesis unfolding search_inv_def by blast
qed

lemma system_step_inv: "system_step s s' \<Longrightarrow> search_inv s \<Longrightarrow> search_inv s'"
proof (induction rule: system_step.induct)
  case (start s ok a b now k)
  then show ?case
    by (auto simp: start_tx_search_thread_def search_inv_def new_tx_search_def search_thread_exist_def)
next
  case (ping s now a)
  have "search_inv (update_thread a (\<lambda>t. t\<lparr>last_ping_timestamp := now\<rparr>) s)"
    by (rule update_inv [OF ping]) (use ping in \<open>auto simp: search_inv_def\<close>)
  then show ?case using ping by (simp add: ping_search_thread_def)
next
  case (rescan s a b)
  have "search_inv (update_thread a (set_searched_blk_no b) s)"
    by (rule update_inv [OF rescan]) (use rescan in \<open>auto simp: search_inv_def set_searched_blk_no_def\<close>)
  then show ?case using rescan by (simp add: set_new_searched_blk_no_def)
next
  case (login s a k)
  then show ?case
    by (auto simp: search_thread_exist_key_def get_viewkey_def search_inv_def Let_def split: option.split)
next
  case (clean s)
  then show ?case
    by (auto simp: search_inv_def clean_search_thread_map_def distinct_map_filter)
next
  case (stop s)
  then show ?case
    by (auto simp: search_inv_def stop_search_threads_def stop_search_def case_prod_beta comp_def)
next
  case (run a s t t')
  then have t: "(a, t) \<in> set (searching_threads s)" by (auto simp: get_search_thread_def dest: map_of_SomeD)
  show ?case
  proof (rule update_inv [OF run.prems])
    fix u assume "(a, u) \<in> set (searching_threads s)"
    show "(phase t' = Looping \<longrightarrow> searching_is_ongoing t') \<and> (phase t' \<in> {Created, Finishing} \<longrightarrow> \<not> searching_is_ongoing t')"
      using thread_step_phase [OF run.hyps(2)] t run.prems by (auto simp: search_inv_def)
  qed
qed

lemma later_inv: "later s s' \<Longrightarrow> search_inv s \<Longrightarrow> search_inv s'"
  by (induction rule: rtranclp_induct) (auto intro: system_step_inv)

lemma initial_inv: "search_inv initial_search"
  by (simp add: search_inv_def initial_search_def)

section \<open>A thread that left early\<close>

definition dead :: "string \<Rightarrow> search_state \<Rightarrow> bool" where
  "dead a s \<longleftrightarrow> (\<exists>t. get_search_thread a s = Some t \<and> phase t = Returned \<and> searching_is_ongoing t)"

lemma dead_update:
  "dead a s \<Longrightarrow> (\<And>t. phase t = Returned \<Longrightarrow> searching_is_ongoing t \<Longrightarrow> phase (f t) = Returned \<and> searching_is_ongoing (f t))
    \<Longrightarrow> dead a (update_thread b f s)"
  unfolding dead_def get_update by auto

lemma map_of_filter: "distinct (map fst xs) \<Longrightarrow> map_of xs a = Some t \<Longrightarrow> P t \<Longrightarrow> map_of (filter (\<lambda>(a, t). P t) xs) a = Some t"
  by (induction xs) (auto dest: map_of_SomeD split: if_splits)

lemma returned_stays: "thread_step t t' \<Longrightarrow> phase t \<noteq> Returned"
  by (erule thread_stepE) auto

lemma map_of_stop: "map_of (map (\<lambda>(c, t). (c, f t)) xs) a = map_option f (map_of xs a)"
  by (induction xs) auto

lemma dead_step: "system_step s s' \<Longrightarrow> search_inv s \<Longrightarrow> dead a s \<Longrightarrow> dead a s'"
proof (induction rule: system_step.induct)
  case (start s ok c b now k)
  then show ?case
    by (auto simp: start_tx_search_thread_def dead_def get_search_thread_def map_add_def)
next
  case (ping s now c)
  then show ?case
    using dead_update [of a s "\<lambda>t. t\<lparr>last_ping_timestamp := now\<rparr>" c] by (auto simp: ping_search_thread_def)
next
  case (rescan s c b)
  then show ?case
    using dead_update [of a s "set_searched_blk_no b" c]
    by (auto simp: set_new_searched_blk_no_def set_searched_blk_no_def)
next
  case (login s c k)
  then show ?case
    by (auto simp: search_thread_exist_key_def get_viewkey_def dead_def get_search_thread_def Let_def split: option.split)
next
  case (clean s)
  then obtain t where "map_of (searching_threads s) a = Some t" "phase t = Returned" "searching_is_ongoing t"
    by (auto simp: dead_def get_search_thread_def)
  then show ?case
    using map_of_filter [of "searching_threads s" a t searching_is_ongoing] clean.prems(1)
    by (auto simp: dead_def get_search_thread_def clean_search_thread_map_def search_inv_def)
next
  case (stop s)
  then obtain t where "map_of (searching_threads s) a = Some t" "phase t = Returned" "searching_is_ongoing t"
    by (auto simp: dead_def get_search_thread_def)
  then show ?case by (simp add: dead_def get_search_thread_def stop_search_threads_def map_of_stop stop_search_def)
next
  case (run c s t t')
  then have "c \<noteq> a" using returned_stays [of t t'] by (auto simp: dead_def)
  with run show ?case unfolding dead_def get_update by auto
qed

lemma dead_later: "later s s' \<Longrightarrow> search_inv s \<Longrightarrow> dead a s \<Longrightarrow> dead a s'"
  by (induction rule: rtranclp_induct) (auto intro: dead_step system_step_inv later_inv)

section \<open>Two threads on one search object\<close>

text \<open>
  \<open>set_searched_blk_no\<close> runs in a request thread while the search thread runs the end of its round; both
  fields are atomics and there is no lock around either pair of accesses. The write positions:
\<close>

datatype loop_at = Loop_Test | Loop_Write | Loop_Clear | Loop_Done
datatype setter_at = Set_Block | Set_Flag | Set_Done

type_synonym race_state = "loop_at \<times> setter_at \<times> tx_search"

definition loop_step :: "u64 \<Rightarrow> loop_at \<Rightarrow> tx_search \<Rightarrow> loop_at \<times> tx_search" where
  "loop_step h2 l t =
     (case l of
        Loop_Test \<Rightarrow> (if \<not> searched_block_got_updated t then Loop_Write else Loop_Clear, t)
      | Loop_Write \<Rightarrow> (Loop_Clear, t\<lparr>searched_blk_no := h2 + 1\<rparr>)
      | Loop_Clear \<Rightarrow> (Loop_Done, t\<lparr>searched_block_got_updated := False\<rparr>)
      | Loop_Done \<Rightarrow> (Loop_Done, t))"

definition setter_step :: "u64 \<Rightarrow> setter_at \<Rightarrow> tx_search \<Rightarrow> setter_at \<times> tx_search" where
  "setter_step b w t =
     (case w of
        Set_Block \<Rightarrow> (Set_Flag, t\<lparr>searched_blk_no := b\<rparr>)
      | Set_Flag \<Rightarrow> (Set_Done, t\<lparr>searched_block_got_updated := True\<rparr>)
      | Set_Done \<Rightarrow> (Set_Done, t))"

text \<open>A schedule says at each point which of the two threads moves (\<open>True\<close>: the search thread).\<close>

fun race :: "u64 \<Rightarrow> u64 \<Rightarrow> bool list \<Rightarrow> race_state \<Rightarrow> race_state" where
  "race h2 b [] r = r"
| "race h2 b (True # sched) (l, w, t) = (let (l, t) = loop_step h2 l t in race h2 b sched (l, w, t))"
| "race h2 b (False # sched) (l, w, t) = (let (w, t) = setter_step b w t in race h2 b sched (l, w, t))"

lemmas race_defs = loop_step_def setter_step_def Let_def

lemma race_alone:
  "race h2 b [True, True, True] (Loop_Test, w, t) = (Loop_Done, w, search_next_window h2 t)"
  "race h2 b [False, False] (l, Set_Block, t) = (l, Set_Done, set_searched_blk_no b t)"
  by (auto simp: race_defs search_next_window_def set_searched_blk_no_def)

lemma race_blk:
  "\<lbrakk>searched_blk_no (snd (snd r)) \<in> {b, h2 + 1} \<or> fst (snd r) = Set_Block\<rbrakk> \<Longrightarrow>
   searched_blk_no (snd (snd (race h2 b sched r))) \<in> {b, h2 + 1} \<or> fst (snd (race h2 b sched r)) = Set_Block"
proof (induction h2 b sched r rule: race.induct)
  case (2 h2 b sched l w t)
  show ?case
    using 2 by (cases l) (auto simp: race_defs split: prod.splits)
next
  case (3 h2 b sched l w t)
  show ?case
    using 3 by (cases w) (auto simp: race_defs split: prod.splits)
qed simp

section \<open>Properties\<close>

text \<open>C13: in every state that the request handlers, the monitor and the search threads can reach from the
  empty map, every address has one entry, a thread in its loop is marked as searching, and cleaning the
  map removes none of those threads: an address whose thread is in its loop keeps exactly that thread.\<close>

theorem clean_keeps_looping:
  assumes "later initial_search s"
  shows "search_inv s \<and> search_inv (clean_search_thread_map s)
    \<and> (\<forall>a t. get_search_thread a s = Some t \<and> phase t = Looping \<longrightarrow>
         get_search_thread a (clean_search_thread_map s) = Some t)"
proof -
  have inv: "search_inv s" by (rule later_inv [OF assms initial_inv])
  have "get_search_thread a (clean_search_thread_map s) = Some t"
    if "get_search_thread a s = Some t" "phase t = Looping" for a t
  proof -
    have "searching_is_ongoing t"
      using inv that by (auto simp: search_inv_def get_search_thread_def dest: map_of_SomeD)
    then show ?thesis
      using map_of_filter [of "searching_threads s" a t searching_is_ongoing] inv that
      by (simp add: get_search_thread_def clean_search_thread_map_def search_inv_def)
  qed
  then show ?thesis using inv system_step_inv [OF system_step.clean inv] by blast
qed

text \<open>A state with one thread of address \<open>A\<close> in its loop, and how it is reached.\<close>

definition sample_search :: tx_search where
  "sample_search = new_tx_search 7 100 ''k''"

definition sample_started :: search_state where
  "sample_started = snd (start_tx_search_thread True ''A'' sample_search initial_search)"

definition sample_looping :: search_state where
  "sample_looping = update_thread ''A'' (\<lambda>_. search_enter sample_search) sample_started"

lemmas sample_search_defs = sample_search_def sample_started_def sample_looping_def new_tx_search_def
  start_tx_search_thread_def initial_search_def search_thread_exist_def get_search_thread_def update_thread_def

lemma reach_started: "later initial_search sample_started"
  unfolding sample_started_def sample_search_def by (rule r_into_rtranclp, rule system_step.start)

lemma reach_looping: "later initial_search sample_looping"
proof -
  have "system_step sample_started sample_looping"
    unfolding sample_looping_def
    by (rule system_step.run [where t = sample_search], simp add: sample_search_defs)
      (rule thread_step.enter, simp add: sample_search_defs)
  with reach_started show ?thesis by (rule rtranclp.rtrancl_into_rtrancl)
qed

theorem clean_keeps_looping_witness:
  "search_inv sample_looping
    \<and> get_search_thread ''A'' (clean_search_thread_map sample_looping) = Some (search_enter sample_search)"
proof -
  have "get_search_thread ''A'' sample_looping = Some (search_enter sample_search)"
    by (simp add: sample_search_defs)
  moreover have "phase (search_enter sample_search) = Looping" by (simp add: search_enter_def)
  ultimately show ?thesis using clean_keeps_looping [OF reach_looping] by blast
qed

text \<open>C20: once a search thread has returned from inside its loop (\<open>get_txs_in_blocks\<close> failed) its entry is in
  the map for good: whatever happens later, the entry is still there and still marked as searching, and
  starting a search for that address reports success and changes nothing.\<close>

theorem early_return_blocks_address:
  assumes "later initial_search s" and "get_search_thread a s = Some t" and "phase t = Looping"
    and "later (update_thread a search_return_early s) s'"
  shows "search_thread_exist a s' \<and> (\<exists>t'. get_search_thread a s' = Some t' \<and> phase t' = Returned \<and> searching_is_ongoing t')
    \<and> start_tx_search_thread spawned a new s' = (True, s')"
proof -
  have inv: "search_inv s" by (rule later_inv [OF assms(1) initial_inv])
  then have going: "searching_is_ongoing t"
    using assms(2,3) by (auto simp: search_inv_def get_search_thread_def dest: map_of_SomeD)
  have "search_inv (update_thread a search_return_early s)"
  proof (rule update_inv [OF inv])
    fix u assume "(a, u) \<in> set (searching_threads s)"
    show "(phase (search_return_early u) = Looping \<longrightarrow> searching_is_ongoing (search_return_early u))
        \<and> (phase (search_return_early u) \<in> {Created, Finishing} \<longrightarrow> \<not> searching_is_ongoing (search_return_early u))"
      by (simp add: search_return_early_def)
  qed
  moreover have "dead a (update_thread a search_return_early s)"
    using assms(2) going by (simp add: dead_def get_update search_return_early_def)
  ultimately have "dead a s'" by (rule dead_later [OF assms(4)])
  then have "\<exists>t'. get_search_thread a s' = Some t' \<and> phase t' = Returned \<and> searching_is_ongoing t'"
    by (simp add: dead_def)
  moreover from this have "search_thread_exist a s'" by (auto simp: exist_iff)
  ultimately show ?thesis by (simp add: start_tx_search_thread_def)
qed

theorem early_return_blocks_address_witness:
  "start_tx_search_thread True ''A'' sample_search
      (clean_search_thread_map (update_thread ''A'' search_return_early sample_looping))
   = (True, clean_search_thread_map (update_thread ''A'' search_return_early sample_looping))"
proof -
  have t: "get_search_thread ''A'' sample_looping = Some (search_enter sample_search)"
    by (simp add: sample_search_defs)
  have l: "phase (search_enter sample_search) = Looping" by (simp add: search_enter_def)
  have "later (update_thread ''A'' search_return_early sample_looping)
      (clean_search_thread_map (update_thread ''A'' search_return_early sample_looping))"
    by (rule r_into_rtranclp, rule system_step.clean)
  then show ?thesis using early_return_blocks_address [OF reach_looping t l] by blast
qed

text \<open>A search thread that the monitor cleans between its creation and the line that marks it as
  searching is destroyed while it runs, and so is one between the line that clears the mark and its
  return: both states are reachable, and in both the cleaned map has lost the address.\<close>

theorem clean_frees_running_thread:
  "(\<exists>s. later initial_search s \<and> freed_live s = [''A''] \<and> \<not> search_thread_exist ''A'' s
      \<and> later sample_started s)
   \<and> (\<exists>s. later sample_looping s \<and> freed_live s = [''A''] \<and> \<not> search_thread_exist ''A'' s)"
proof
  let ?s = "clean_search_thread_map sample_started"
  have step: "later sample_started ?s" by (rule r_into_rtranclp, rule system_step.clean)
  moreover have "later initial_search ?s" by (rule rtranclp_trans [OF reach_started step])
  moreover have "freed_live ?s = [''A'']" "\<not> search_thread_exist ''A'' ?s"
    by (simp_all add: clean_search_thread_map_def sample_search_defs)
  ultimately show "\<exists>s. later initial_search s \<and> freed_live s = [''A''] \<and> \<not> search_thread_exist ''A'' s
      \<and> later sample_started s" by blast
next
  let ?m = "update_thread ''A'' (\<lambda>_. search_leave (search_enter sample_search)) sample_looping"
  have "system_step sample_looping ?m"
    by (rule system_step.run [where t = "search_enter sample_search"], simp add: sample_search_defs)
      (rule thread_step.leave_loop, simp add: search_enter_def)
  then have "later sample_looping (clean_search_thread_map ?m)"
    by (rule converse_rtranclp_into_rtranclp) (rule r_into_rtranclp, rule system_step.clean)
  moreover have "freed_live (clean_search_thread_map ?m) = [''A'']"
      "\<not> search_thread_exist ''A'' (clean_search_thread_map ?m)"
    by (simp_all add: clean_search_thread_map_def sample_search_defs search_enter_def search_leave_def)
  ultimately show "\<exists>s. later sample_looping s \<and> freed_live s = [''A''] \<and> \<not> search_thread_exist ''A'' s" by blast
qed

text \<open>The view key that \<open>search_thread_exist\<close> compares is the one of the first search object asked, for
  the rest of the process: after one lookup of an address whose key is \<open>k\<close>, the lookup of any other
  address succeeds for exactly \<open>k\<close>, so its own key is refused when it is a different one.\<close>

theorem viewkey_of_first_caller:
  assumes "get_search_thread a s = Some t" and "get_search_thread b s = Some u" and "static_viewkey s = None"
  shows "search_thread_exist_key a (viewkey_hex t) s = (True, s\<lparr>static_viewkey := Some (viewkey_hex t)\<rparr>)
    \<and> fst (search_thread_exist_key b key (snd (search_thread_exist_key a other s))) = (key = viewkey_hex t)"
proof -
  have "search_thread_exist a s" "search_thread_exist b s" using assms by (auto simp: exist_iff)
  then show ?thesis
    using assms by (auto simp: search_thread_exist_key_def get_viewkey_def search_thread_exist_def get_search_thread_def Let_def)
qed

theorem viewkey_of_first_caller_witness:
  "let s = snd (start_tx_search_thread True ''B'' (new_tx_search 0 100 ''other'') sample_started) in
   fst (search_thread_exist_key ''A'' ''k'' s)
   \<and> \<not> fst (search_thread_exist_key ''B'' ''other'' (snd (search_thread_exist_key ''A'' ''k'' s)))"
proof -
  let ?s = "snd (start_tx_search_thread True ''B'' (new_tx_search 0 100 ''other'') sample_started)"
  have facts: "get_search_thread ''A'' ?s = Some sample_search" "static_viewkey ?s = None"
      "get_search_thread ''B'' ?s = Some (new_tx_search 0 100 ''other'')"
    by (simp_all add: sample_search_defs)
  have k: "viewkey_hex sample_search = ''k''" by (simp add: sample_search_def new_tx_search_def)
  have "fst (search_thread_exist_key ''A'' ''k'' ?s)
      \<and> \<not> fst (search_thread_exist_key ''B'' ''other'' (snd (search_thread_exist_key ''A'' ''k'' ?s)))"
  proof
    show "fst (search_thread_exist_key ''A'' ''k'' ?s)"
      by (subst viewkey_of_first_caller [OF facts(1,3,2), THEN conjunct1, unfolded k]) simp
    show "\<not> fst (search_thread_exist_key ''B'' ''other'' (snd (search_thread_exist_key ''A'' ''k'' ?s)))"
      by (subst viewkey_of_first_caller [OF facts(1,3,2), THEN conjunct2, unfolded k]) simp
  qed
  then show ?thesis unfolding Let_def .
qed

text \<open>The outcomes of a request to rescan from block \<open>b\<close> that meets the end of a round which scanned up
  to \<open>h2\<close>: when both have run to their end, in any order, the next block is \<open>b\<close> or \<open>h2 + 1\<close>; one after the
  other gives \<open>b\<close>, and an order exists that gives \<open>h2 + 1\<close> with the flag cleared, so that the request is
  lost without a trace.\<close>

theorem rescan_race:
  assumes "\<not> searched_block_got_updated t"
  shows "(\<forall>sched t'. race h2 b sched (Loop_Test, Set_Block, t) = (Loop_Done, Set_Done, t') \<longrightarrow>
            searched_blk_no t' \<in> {b, h2 + 1})
    \<and> searched_blk_no (search_next_window h2 (set_searched_blk_no b t)) = b
    \<and> searched_blk_no (set_searched_blk_no b (search_next_window h2 t)) = b
    \<and> (\<exists>sched. race h2 b sched (Loop_Test, Set_Block, t)
         = (Loop_Done, Set_Done, t\<lparr>searched_blk_no := h2 + 1, searched_block_got_updated := False\<rparr>))"
proof (intro conjI allI impI)
  fix sched t' assume "race h2 b sched (Loop_Test, Set_Block, t) = (Loop_Done, Set_Done, t')"
  then show "searched_blk_no t' \<in> {b, h2 + 1}"
    using race_blk [of "(Loop_Test, Set_Block, t)" b h2 sched] by simp
next
  show "searched_blk_no (search_next_window h2 (set_searched_blk_no b t)) = b"
    by (simp add: search_next_window_def set_searched_blk_no_def)
  show "searched_blk_no (set_searched_blk_no b (search_next_window h2 t)) = b"
    by (simp add: set_searched_blk_no_def)
  have "race h2 b [True, False, True, False, True] (Loop_Test, Set_Block, t)
      = (Loop_Done, Set_Done, t\<lparr>searched_blk_no := h2 + 1, searched_block_got_updated := False\<rparr>)"
    using assms by (simp add: race_defs)
  then show "\<exists>sched. race h2 b sched (Loop_Test, Set_Block, t)
         = (Loop_Done, Set_Done, t\<lparr>searched_blk_no := h2 + 1, searched_block_got_updated := False\<rparr>)" by blast
qed

theorem rescan_race_witness:
  "\<exists>sched. race 1000 5 sched (Loop_Test, Set_Block, sample_search)
     = (Loop_Done, Set_Done, sample_search\<lparr>searched_blk_no := 1001, searched_block_got_updated := False\<rparr>)"
  using rescan_race [of sample_search 1000 5] by (simp add: sample_search_def new_tx_search_def)

end
