(* ===== verification/WalletDb.thy ===== *)
theory WalletDb
  imports Prelude
begin

text \<open>
  The wallet's database (\<open>src/sql/openmonero.sql\<close>, \<open>src/src/db/ssqlses.h\<close>) and the statements that
  \<open>MySqlAccounts\<close> (\<open>src/src/db/MySqlAccounts.cpp\<close>) runs on it. A table is the list of its rows in the order of
  insertion; a statement is a function on the tables with the unique keys and the foreign keys of the
  schema, and \<open>ON DELETE CASCADE\<close> written out. A refused statement (the library throws, the wallet catches)
  returns 0 and changes nothing. Lost connections are not modelled.
\<close>

section \<open>Rows and tables\<close>

text \<open>Time stamps are seconds; \<open>id\<close> columns are natural numbers, 0 is never given out. The server counts the
  keys of each table; here one counter serves them all, as all that is used of a key is that it is new.\<close>

record XmrAccount =
  acc_id :: nat
  acc_address :: string
  viewkey_hash :: string
  scanned_block_height :: u64
  scanned_block_timestamp :: u64
  start_height :: u64
  generated_locally :: bool

record XmrTransaction =
  tx_id :: nat
  tx_hash :: string
  tx_prefix_hash :: string
  tx_pub_key :: string
  tx_account_id :: nat
  blockchain_tx_id :: u64
  total_received :: u64
  total_sent :: u64
  unlock_time :: u64
  height :: u64
  coinbase :: bool
  is_rct :: bool
  rct_type :: nat
  spendable :: bool
  tx_payment_id :: string
  tx_mixin :: u64
  tx_timestamp :: u64

record XmrOutput =
  out_id :: nat
  out_account_id :: nat
  out_tx_id :: nat
  out_pub_key :: string
  rct_outpk :: string
  rct_mask :: string
  rct_amount :: string
  out_tx_pub_key :: string
  out_amount :: u64
  global_index :: u64
  out_index :: u64
  out_mixin :: u64
  out_timestamp :: u64

record XmrInput =
  in_id :: nat
  in_account_id :: nat
  in_tx_id :: nat
  in_output_id :: nat
  key_image :: string
  in_amount :: u64
  in_timestamp :: u64

record XmrPayment =
  pay_id :: nat
  pay_account_id :: nat
  payment_id :: string
  pay_tx_hash :: string
  request_fulfilled :: bool
  import_fee :: u64
  payment_address :: string

text \<open>\<open>next_id\<close> is beyond every \<open>AUTO_INCREMENT\<close> value that was ever given out.\<close>

record db =
  Accounts :: "XmrAccount list"
  Transactions :: "XmrTransaction list"
  Outputs :: "XmrOutput list"
  Inputs :: "XmrInput list"
  Payments :: "XmrPayment list"
  next_id :: nat

definition empty_db :: db where
  "empty_db = \<lparr>Accounts = [], Transactions = [], Outputs = [], Inputs = [], Payments = [], next_id = 1\<rparr>"

text \<open>What the schema declares: keys, unique keys and references.\<close>

definition db_wf :: "db \<Rightarrow> bool" where
  "db_wf d \<longleftrightarrow>
     distinct (map acc_id (Accounts d)) \<and> distinct (map acc_address (Accounts d))
     \<and> distinct (map tx_id (Transactions d)) \<and> distinct (map (\<lambda>t. (tx_hash t, tx_account_id t)) (Transactions d))
     \<and> distinct (map out_id (Outputs d)) \<and> distinct (map out_pub_key (Outputs d))
     \<and> distinct (map in_id (Inputs d)) \<and> distinct (map (\<lambda>i. (in_output_id i, key_image i)) (Inputs d))
     \<and> distinct (map pay_id (Payments d)) \<and> distinct (map pay_account_id (Payments d)) \<and> distinct (map payment_id (Payments d))
     \<and> (\<forall>t\<in>set (Transactions d). tx_account_id t \<in> acc_id ` set (Accounts d))
     \<and> (\<forall>out\<in>set (Outputs d). out_account_id out \<in> acc_id ` set (Accounts d) \<and> out_tx_id out \<in> tx_id ` set (Transactions d))
     \<and> (\<forall>i\<in>set (Inputs d). in_account_id i \<in> acc_id ` set (Accounts d) \<and> in_output_id i \<in> out_id ` set (Outputs d)
          \<and> in_tx_id i \<in> tx_id ` set (Transactions d))
     \<and> (\<forall>p\<in>set (Payments d). pay_account_id p \<in> acc_id ` set (Accounts d))"

definition ids_below :: "db \<Rightarrow> bool" where
  "ids_below d \<longleftrightarrow> 0 < next_id d
     \<and> (\<forall>a\<in>set (Accounts d). acc_id a < next_id d) \<and> (\<forall>t\<in>set (Transactions d). 0 < tx_id t \<and> tx_id t < next_id d)
     \<and> (\<forall>out\<in>set (Outputs d). out_id out < next_id d) \<and> (\<forall>i\<in>set (Inputs d). in_id i < next_id d)
     \<and> (\<forall>p\<in>set (Payments d). pay_id p < next_id d)"

section \<open>The statements\<close>

definition insert_account :: "XmrAccount \<Rightarrow> db \<Rightarrow> nat \<times> db" where
  "insert_account a d =
     (if acc_address a \<in> acc_address ` set (Accounts d) then (0, d)
      else (next_id d, d\<lparr>Accounts := Accounts d @ [a\<lparr>acc_id := next_id d\<rparr>], next_id := Suc (next_id d)\<rparr>))"

definition insert_transaction :: "XmrTransaction \<Rightarrow> db \<Rightarrow> nat \<times> db" where
  "insert_transaction t d =
     (if (tx_hash t, tx_account_id t) \<in> (\<lambda>t. (tx_hash t, tx_account_id t)) ` set (Transactions d)
         \<or> tx_account_id t \<notin> acc_id ` set (Accounts d) then (0, d)
      else (next_id d, d\<lparr>Transactions := Transactions d @ [t\<lparr>tx_id := next_id d\<rparr>], next_id := Suc (next_id d)\<rparr>))"

definition insert_payment :: "XmrPayment \<Rightarrow> db \<Rightarrow> nat \<times> db" where
  "insert_payment p d =
     (if pay_account_id p \<in> pay_account_id ` set (Payments d) \<or> payment_id p \<in> payment_id ` set (Payments d)
         \<or> pay_account_id p \<notin> acc_id ` set (Accounts d) then (0, d)
      else (next_id d, d\<lparr>Payments := Payments d @ [p\<lparr>pay_id := next_id d\<rparr>], next_id := Suc (next_id d)\<rparr>))"

text \<open>One row of a statement with several rows.\<close>

definition add_output :: "XmrOutput \<Rightarrow> db \<Rightarrow> db option" where
  "add_output out d =
     (if out_pub_key out \<in> out_pub_key ` set (Outputs d)
         \<or> out_account_id out \<notin> acc_id ` set (Accounts d) \<or> out_tx_id out \<notin> tx_id ` set (Transactions d) then None
      else Some (d\<lparr>Outputs := Outputs d @ [out\<lparr>out_id := next_id d\<rparr>], next_id := Suc (next_id d)\<rparr>))"

definition add_input :: "XmrInput \<Rightarrow> db \<Rightarrow> db option" where
  "add_input i d =
     (if (in_output_id i, key_image i) \<in> (\<lambda>i. (in_output_id i, key_image i)) ` set (Inputs d)
         \<or> in_account_id i \<notin> acc_id ` set (Accounts d) \<or> in_output_id i \<notin> out_id ` set (Outputs d)
         \<or> in_tx_id i \<notin> tx_id ` set (Transactions d) then None
      else Some (d\<lparr>Inputs := Inputs d @ [i\<lparr>in_id := next_id d\<rparr>], next_id := Suc (next_id d)\<rparr>))"

fun add_rows :: "('r \<Rightarrow> db \<Rightarrow> db option) \<Rightarrow> 'r list \<Rightarrow> db \<Rightarrow> db option" where
  "add_rows add [] d = Some d"
| "add_rows add (r # rs) d = (case add r d of None \<Rightarrow> None | Some d \<Rightarrow> add_rows add rs d)"

text \<open>
  \<open>MySqlAccounts::insert\<close> of a vector is one statement: all rows or none. For an empty vector the library
  builds no statement and throws.
\<close>

definition insert_rows :: "('r \<Rightarrow> db \<Rightarrow> db option) \<Rightarrow> 'r list \<Rightarrow> db \<Rightarrow> nat \<times> db" where
  "insert_rows add rs d =
     (if rs = [] then (0, d) else case add_rows add rs d of None \<Rightarrow> (0, d) | Some d' \<Rightarrow> (length rs, d'))"

abbreviation insert_outputs :: "XmrOutput list \<Rightarrow> db \<Rightarrow> nat \<times> db" where
  "insert_outputs \<equiv> insert_rows add_output"

abbreviation insert_inputs :: "XmrInput list \<Rightarrow> db \<Rightarrow> nat \<times> db" where
  "insert_inputs \<equiv> insert_rows add_input"

definition tx_exists :: "nat \<Rightarrow> string \<Rightarrow> db \<Rightarrow> XmrTransaction option" where
  "tx_exists account_id h d = find (\<lambda>t. tx_account_id t = account_id \<and> tx_hash t = h) (Transactions d)"

definition output_exists :: "string \<Rightarrow> db \<Rightarrow> XmrOutput option" where
  "output_exists key d = find (\<lambda>out. out_pub_key out = key) (Outputs d)"

definition select_account :: "string \<Rightarrow> db \<Rightarrow> XmrAccount option" where
  "select_account address d = find (\<lambda>a. acc_address a = address) (Accounts d)"

definition select_transactions :: "nat \<Rightarrow> db \<Rightarrow> XmrTransaction list" where
  "select_transactions account_id d = filter (\<lambda>t. tx_account_id t = account_id) (Transactions d)"

definition select_outputs :: "nat \<Rightarrow> db \<Rightarrow> XmrOutput list" where
  "select_outputs account_id d = filter (\<lambda>out. out_account_id out = account_id) (Outputs d)"

definition select_outputs_for_tx :: "nat \<Rightarrow> db \<Rightarrow> XmrOutput list" where
  "select_outputs_for_tx row d = filter (\<lambda>out. out_tx_id out = row) (Outputs d)"

definition select_inputs_for_tx :: "nat \<Rightarrow> db \<Rightarrow> XmrInput list" where
  "select_inputs_for_tx row d = filter (\<lambda>i. in_tx_id i = row) (Inputs d)"

definition select_inputs_for_out :: "nat \<Rightarrow> db \<Rightarrow> XmrInput list" where
  "select_inputs_for_out row d = filter (\<lambda>i. in_output_id i = row) (Inputs d)"

definition select_payment_by_id :: "string \<Rightarrow> db \<Rightarrow> XmrPayment list" where
  "select_payment_by_id pid d = filter (\<lambda>p. payment_id p = pid) (Payments d)"

definition get_total_recieved :: "nat \<Rightarrow> db \<Rightarrow> nat option" where
  "get_total_recieved account_id d =
     (let rows = select_transactions account_id d in if rows = [] then None else Some (\<Sum>t\<leftarrow>rows. unat (total_received t)))"

text \<open>The row, the outputs of the transaction, and the inputs of the transaction or of one of those outputs.\<close>

definition delete_tx :: "nat \<Rightarrow> db \<Rightarrow> nat \<times> db" where
  "delete_tx row d =
     (if row \<in> tx_id ` set (Transactions d)
      then (1, d\<lparr>Transactions := filter (\<lambda>t. tx_id t \<noteq> row) (Transactions d),
                 Outputs := filter (\<lambda>out. out_tx_id out \<noteq> row) (Outputs d),
                 Inputs := filter (\<lambda>i. in_tx_id i \<noteq> row
                     \<and> in_output_id i \<notin> out_id ` {out \<in> set (Outputs d). out_tx_id out = row}) (Inputs d)\<rparr>)
      else (0, d))"

text \<open>The affected rows are the changed ones; the time stamp of the row changes with the clock \<open>now\<close>.\<close>

definition mark_spendable :: "u64 \<Rightarrow> nat \<Rightarrow> bool \<Rightarrow> db \<Rightarrow> nat \<times> db" where
  "mark_spendable now row flag d =
     (length (filter (\<lambda>t. tx_id t = row \<and> (spendable t \<noteq> flag \<or> tx_timestamp t \<noteq> now)) (Transactions d)),
      d\<lparr>Transactions := map (\<lambda>t. if tx_id t = row then t\<lparr>spendable := flag, tx_timestamp := now\<rparr> else t) (Transactions d)\<rparr>)"

text \<open>
  \<open>MySqlAccounts::update\<close>: all columns of the new row where the key is the one of the original row. The
  statement is refused when another row has the new key or the new unique value, or when a row that is
  referenced would change its key; \<open>True\<close> when a row was changed.
\<close>

definition update_account :: "XmrAccount \<Rightarrow> XmrAccount \<Rightarrow> db \<Rightarrow> bool \<times> db" where
  "update_account original new d =
     (let others = filter (\<lambda>a. acc_id a \<noteq> acc_id original) (Accounts d);
          referenced = acc_id original \<in> tx_account_id ` set (Transactions d) \<union> pay_account_id ` set (Payments d)
             \<union> out_account_id ` set (Outputs d) \<union> in_account_id ` set (Inputs d)
      in if acc_id original \<in> acc_id ` set (Accounts d) \<and> new \<notin> set (Accounts d)
            \<and> acc_id new \<notin> acc_id ` set others \<and> acc_address new \<notin> acc_address ` set others
            \<and> (acc_id new = acc_id original \<or> \<not> referenced)
         then (True, d\<lparr>Accounts := map (\<lambda>a. if acc_id a = acc_id original then new else a) (Accounts d)\<rparr>)
         else (False, d))"

definition update_payment :: "XmrPayment \<Rightarrow> XmrPayment \<Rightarrow> db \<Rightarrow> bool \<times> db" where
  "update_payment original new d =
     (let others = filter (\<lambda>p. pay_id p \<noteq> pay_id original) (Payments d)
      in if pay_id original \<in> pay_id ` set (Payments d) \<and> new \<notin> set (Payments d)
            \<and> pay_id new \<notin> pay_id ` set others \<and> pay_account_id new \<notin> pay_account_id ` set others
            \<and> payment_id new \<notin> payment_id ` set others \<and> pay_account_id new \<in> acc_id ` set (Accounts d)
         then (True, d\<lparr>Payments := map (\<lambda>p. if pay_id p = pay_id original then new else p) (Payments d)\<rparr>)
         else (False, d))"

section \<open>The check of locked transactions\<close>

text \<open>
  \<open>select_txs_for_account_spendability_check\<close> goes through the rows that a request has read. The chain's
  answers are parameters: \<open>view_unlocked\<close> for \<open>is_tx_unlocked\<close>, \<open>view_chain_id\<close> for \<open>tx_exist\<close>, whose result is 0 when the
  transaction is not found; \<open>now\<close> is the server's clock. The result is the return value, the rows as the
  loop leaves them, and the tables.
\<close>

record chain_view =
  view_unlocked :: "u64 \<Rightarrow> u64 \<Rightarrow> bool"
  view_chain_id :: "string \<Rightarrow> u64"
  view_age :: u64
  view_clock :: u64

fun spendability_check :: "chain_view \<Rightarrow> XmrTransaction list \<Rightarrow> db \<Rightarrow> bool \<times> XmrTransaction list \<times> db" where
  "spendability_check c [] d = (True, [], d)"
| "spendability_check c (tx # txs) d =
     (if \<not> spendable tx
      then if view_unlocked c (unlock_time tx) (height tx)
           then let (n, d) = mark_spendable (view_clock c) (tx_id tx) True d
                in if n \<noteq> 1 then (False, tx # txs, d)
                   else let (ok, rest, d) = spendability_check c txs d in (ok, tx\<lparr>spendable := True\<rparr> # rest, d)
           else if view_chain_id c (tx_hash tx) \<noteq> blockchain_tx_id tx
           then let (n, d) = delete_tx (tx_id tx) d
                in if n \<noteq> 1 then (False, tx # txs, d) else spendability_check c txs d
           else let (ok, rest, d) = spendability_check c txs d
                in (ok, (if unlock_time tx = 0 then tx\<lparr>unlock_time := height tx + view_age c\<rparr> else tx) # rest, d)
      else let (ok, rest, d) = spendability_check c txs d in (ok, tx # rest, d))"

section \<open>Every statement keeps the schema\<close>

text \<open>The invariant, table by table, so that a statement only meets the parts it changes.\<close>

definition keyed :: "('r \<Rightarrow> 'k) \<Rightarrow> 'r list \<Rightarrow> bool" where
  "keyed f rows \<longleftrightarrow> distinct (map f rows)"

lemma keyed_snoc: "keyed f (rows @ [r]) \<longleftrightarrow> keyed f rows \<and> f r \<notin> f ` set rows"
  by (auto simp: keyed_def)

lemma keyed_filter: "keyed f rows \<Longrightarrow> keyed f (filter P rows)"
  by (simp add: keyed_def distinct_map_filter)

lemma keyed_find:
  "keyed f rows \<Longrightarrow> r \<in> set rows \<Longrightarrow> s \<in> set rows \<Longrightarrow> f r = f s \<Longrightarrow> r = s"
  by (auto simp: keyed_def distinct_map inj_on_def)

lemma keyed_map_same: "(\<And>r. r \<in> set rows \<Longrightarrow> f (g r) = f r) \<Longrightarrow> keyed f (map g rows) = keyed f rows"
  by (simp add: keyed_def comp_def cong: map_cong)

lemma keyed_replace:
  assumes "keyed k rows" "keyed f rows" "f new \<notin> f ` set (filter (\<lambda>r. k r \<noteq> x) rows)"
  shows "keyed f (map (\<lambda>r. if k r = x then new else r) rows)"
  using assms
proof (induction rows)
  case (Cons r rows)
  show ?case
  proof (cases "k r = x")
    case True
    then have other: "k s \<noteq> x" if "s \<in> set rows" for s
      using Cons.prems(1) imageI [OF that, of k] by (auto simp: keyed_def)
    have "map (\<lambda>r. if k r = x then new else r) rows = rows" using other by (simp add: map_idI)
    moreover have "filter (\<lambda>r. k r \<noteq> x) rows = rows" using other by (simp add: filter_id_conv)
    ultimately show ?thesis using Cons.prems True by (simp add: keyed_def)
  next
    case False
    then show ?thesis using Cons by (auto simp: keyed_def split: if_split_asm)
  qed
qed (simp add: keyed_def)

lemma db_wf_keyed:
  "db_wf d \<longleftrightarrow>
     (keyed acc_id (Accounts d) \<and> keyed acc_address (Accounts d))
     \<and> (keyed tx_id (Transactions d) \<and> keyed (\<lambda>t. (tx_hash t, tx_account_id t)) (Transactions d))
     \<and> (keyed out_id (Outputs d) \<and> keyed out_pub_key (Outputs d))
     \<and> (keyed in_id (Inputs d) \<and> keyed (\<lambda>i. (in_output_id i, key_image i)) (Inputs d))
     \<and> (keyed pay_id (Payments d) \<and> keyed pay_account_id (Payments d) \<and> keyed payment_id (Payments d))
     \<and> (\<forall>t\<in>set (Transactions d). tx_account_id t \<in> acc_id ` set (Accounts d))
     \<and> (\<forall>out\<in>set (Outputs d). out_account_id out \<in> acc_id ` set (Accounts d) \<and> out_tx_id out \<in> tx_id ` set (Transactions d))
     \<and> (\<forall>i\<in>set (Inputs d). in_account_id i \<in> acc_id ` set (Accounts d) \<and> in_output_id i \<in> out_id ` set (Outputs d)
          \<and> in_tx_id i \<in> tx_id ` set (Transactions d))
     \<and> (\<forall>p\<in>set (Payments d). pay_account_id p \<in> acc_id ` set (Accounts d))"
  unfolding db_wf_def keyed_def by blast

definition db_ok :: "db \<Rightarrow> bool" where
  "db_ok d \<longleftrightarrow> db_wf d \<and> ids_below d"

lemmas db_ok_simps = db_ok_def db_wf_keyed ids_below_def

lemma empty_db_ok: "db_ok empty_db"
  by (simp add: db_ok_simps empty_db_def keyed_def)

lemma fresh_id [simp]: "(\<forall>r\<in>set rows. f r < n) \<Longrightarrow> (n :: nat) \<notin> f ` set rows"
  by fastforce

lemma fresh_tx_id [simp]: "(\<forall>r\<in>set rows. 0 < f r \<and> f r < n) \<Longrightarrow> (n :: nat) \<notin> f ` set rows"
  by fastforce

lemma insert_account_ok: "db_ok d \<Longrightarrow> db_ok (snd (insert_account a d))"
  by (simp add: db_ok_simps insert_account_def keyed_snoc less_Suc_eq)

lemma insert_transaction_ok: "db_ok d \<Longrightarrow> db_ok (snd (insert_transaction t d))"
  by (simp add: db_ok_simps insert_transaction_def keyed_snoc less_Suc_eq)

lemma insert_payment_ok: "db_ok d \<Longrightarrow> db_ok (snd (insert_payment p d))"
  by (simp add: db_ok_simps insert_payment_def keyed_snoc less_Suc_eq)

lemma add_output_ok: "add_output out d = Some d' \<Longrightarrow> db_ok d \<Longrightarrow> db_ok d'"
  by (clarsimp simp: db_ok_simps add_output_def keyed_snoc less_Suc_eq split: if_splits)

lemma add_input_ok: "add_input i d = Some d' \<Longrightarrow> db_ok d \<Longrightarrow> db_ok d'"
  by (clarsimp simp: db_ok_simps add_input_def keyed_snoc less_Suc_eq split: if_splits)

text \<open>
  A statement with several rows relies on the statement for one row: it appends the row to its table
  with a new key, keeps the \<open>rest\<close> of the tables and the schema. \<open>clear\<close> forgets the key.
\<close>

locale row_table =
  fixes add :: "'r \<Rightarrow> db \<Rightarrow> db option" and rows :: "db \<Rightarrow> 'r list" and clear :: "'r \<Rightarrow> 'r" and rest :: "db \<Rightarrow> 'c"
  assumes add_appends: "add r d = Some d' \<Longrightarrow> map clear (rows d') = map clear (rows d @ [r])"
    and add_rest: "add r d = Some d' \<Longrightarrow> rest d' = rest d"
    and add_next_id: "add r d = Some d' \<Longrightarrow> next_id d \<le> next_id d'"
    and add_keeps_schema: "add r d = Some d' \<Longrightarrow> db_ok d \<Longrightarrow> db_ok d'"
begin

lemma add_rows_induct:
  assumes "\<And>d. P [] d d" and "\<And>r rs d d1 d'. add r d = Some d1 \<Longrightarrow> P rs d1 d' \<Longrightarrow> P (r # rs) d d'"
  shows "add_rows add rs d = Some d' \<Longrightarrow> P rs d d'"
  using assms by (induction rs arbitrary: d) (auto split: option.splits)

lemma add_rows_appends: "add_rows add rs d = Some d' \<Longrightarrow> map clear (rows d') = map clear (rows d @ rs)"
  by (rule add_rows_induct) (simp_all add: add_appends)

lemma add_rows_rest: "add_rows add rs d = Some d' \<Longrightarrow> rest d' = rest d \<and> next_id d \<le> next_id d'"
  by (rule add_rows_induct) (auto simp: add_rest dest: add_next_id)

lemma add_rows_schema: "add_rows add rs d = Some d' \<Longrightarrow> db_ok d \<longrightarrow> db_ok d'"
  by (rule add_rows_induct) (auto dest: add_keeps_schema)

lemma insert_rows_appends:
  "insert_rows add rs d = (n, d') \<Longrightarrow> n \<noteq> 0 \<Longrightarrow> map clear (rows d') = map clear (rows d @ rs)"
  by (auto simp: insert_rows_def add_rows_appends split: if_splits option.splits)

lemma insert_rows_rest: "insert_rows add rs d = (n, d') \<Longrightarrow> rest d' = rest d \<and> next_id d \<le> next_id d'"
  by (auto simp: insert_rows_def dest: add_rows_rest split: if_splits option.splits)

lemma insert_rows_schema: "db_ok d \<Longrightarrow> db_ok (snd (insert_rows add rs d))"
  by (auto simp: insert_rows_def dest: add_rows_schema split: option.split)

end

interpretation output_table: row_table add_output Outputs "\<lambda>out. out\<lparr>out_id := 0\<rparr>"
    "\<lambda>d. (Accounts d, Transactions d, Inputs d, Payments d)"
  by unfold_locales (auto simp: add_output_def add_output_ok split: if_splits)

interpretation input_table: row_table add_input Inputs "\<lambda>i. i\<lparr>in_id := 0\<rparr>"
    "\<lambda>d. (Accounts d, Transactions d, Outputs d, Payments d)"
  by unfold_locales (auto simp: add_input_def add_input_ok split: if_splits)

lemmas insert_rows_ok = output_table.insert_rows_schema input_table.insert_rows_schema

lemma mark_spendable_ok:
  assumes "db_ok d"
  shows "db_ok (snd (mark_spendable now row flag d))"
proof -
  define mark where "mark t = (if tx_id t = row then t\<lparr>spendable := flag, tx_timestamp := now\<rparr> else t)" for t :: XmrTransaction
  have same [simp]: "tx_id (mark t) = tx_id t" "tx_account_id (mark t) = tx_account_id t" "tx_hash (mark t) = tx_hash t" for t :: XmrTransaction
    by (simp_all add: mark_def)
  have "snd (mark_spendable now row flag d) = d\<lparr>Transactions := map mark (Transactions d)\<rparr>"
    by (simp add: mark_spendable_def mark_def)
  then show ?thesis
    using assms by (simp add: db_ok_simps keyed_map_same image_image)
qed

lemma delete_tx_ok:
  assumes "db_ok d"
  shows "db_ok (snd (delete_tx row d))"
proof (cases "row \<in> tx_id ` set (Transactions d)")
  case True
  let ?d = "snd (delete_tx row d)"
  have tables: "Accounts ?d = Accounts d" "Payments ?d = Payments d" "next_id ?d = next_id d"
      "Transactions ?d = filter (\<lambda>t. tx_id t \<noteq> row) (Transactions d)" "Outputs ?d = filter (\<lambda>out. out_tx_id out \<noteq> row) (Outputs d)"
      "Inputs ?d = filter (\<lambda>i. in_tx_id i \<noteq> row \<and> in_output_id i \<notin> out_id ` {out \<in> set (Outputs d). out_tx_id out = row}) (Inputs d)"
    using True by (simp_all add: delete_tx_def)
  have tx: "x \<in> tx_id ` set (Transactions ?d)" if "x \<in> tx_id ` set (Transactions d)" "x \<noteq> row" for x
    using that by (auto simp: tables)
  have out: "in_output_id i \<in> out_id ` set (Outputs ?d)" if "i \<in> set (Inputs ?d)" for i
  proof -
    have "in_output_id i \<in> out_id ` set (Outputs d)" "in_output_id i \<notin> out_id ` {out \<in> set (Outputs d). out_tx_id out = row}"
      using that assms by (auto simp: tables db_ok_simps)
    then show ?thesis by (auto simp: tables)
  qed
  show ?thesis
    unfolding db_ok_def db_wf_keyed
    using assms tx out by (simp add: tables keyed_filter db_ok_simps)
next
  case False
  then show ?thesis using assms by (simp add: delete_tx_def)
qed

lemma replaced_reference:
  assumes "\<forall>r\<in>set refs. f r \<in> k ` set rows" "k new = x \<or> x \<notin> f ` set refs"
  shows "\<forall>r\<in>set refs. f r \<in> k ` set (map (\<lambda>a. if k a = x then new else a) rows)"
proof
  fix r assume r: "r \<in> set refs"
  then obtain a where a: "a \<in> set rows" "f r = k a" using assms(1) by blast
  define b where "b = (if k a = x then new else a)"
  have "b \<in> set (map (\<lambda>a. if k a = x then new else a) rows)"
    using a(1) unfolding b_def set_map by (rule imageI)
  moreover have "f r \<in> f ` set refs" using r by (rule imageI)
  then have "f r = k b" using a(2) assms(2) by (auto simp: b_def)
  ultimately show "f r \<in> k ` set (map (\<lambda>a. if k a = x then new else a) rows)" by blast
qed

lemma update_account_ok:
  assumes "db_ok d" "acc_id new < next_id d"
  shows "db_ok (snd (update_account original new d))"
proof (cases "fst (update_account original new d)")
  case True
  let ?rows = "map (\<lambda>a. if acc_id a = acc_id original then new else a) (Accounts d)"
  let ?others = "filter (\<lambda>a. acc_id a \<noteq> acc_id original) (Accounts d)"
  have d': "snd (update_account original new d) = d\<lparr>Accounts := ?rows\<rparr>"
    and key: "acc_id new \<notin> acc_id ` set ?others" "acc_address new \<notin> acc_address ` set ?others"
    and orig: "acc_id original \<in> acc_id ` set (Accounts d)"
    and ref: "acc_id new = acc_id original \<or> acc_id original \<notin> tx_account_id ` set (Transactions d)
       \<union> pay_account_id ` set (Payments d) \<union> out_account_id ` set (Outputs d) \<union> in_account_id ` set (Inputs d)"
    using True by (auto simp: update_account_def Let_def split: if_splits)
  have keyed: "keyed acc_id ?rows" "keyed acc_address ?rows"
    using keyed_replace [of acc_id "Accounts d" acc_id new "acc_id original"]
      keyed_replace [of acc_id "Accounts d" acc_address new "acc_id original"] key assms(1)
    by (simp_all add: db_ok_simps)
  have below: "\<forall>a\<in>set ?rows. acc_id a < next_id d" using assms by (auto simp: db_ok_simps)
  note ok = assms(1) [unfolded db_ok_simps]
  have "\<forall>t\<in>set (Transactions d). tx_account_id t \<in> acc_id ` set ?rows"
    using ok ref by (intro replaced_reference) auto
  moreover have "\<forall>out\<in>set (Outputs d). out_account_id out \<in> acc_id ` set ?rows"
    using ok ref by (intro replaced_reference) auto
  moreover have "\<forall>i\<in>set (Inputs d). in_account_id i \<in> acc_id ` set ?rows"
    using ok ref by (intro replaced_reference) auto
  moreover have "\<forall>p\<in>set (Payments d). pay_account_id p \<in> acc_id ` set ?rows"
    using ok ref by (intro replaced_reference) auto
  ultimately show ?thesis
    unfolding d' using keyed below ok by (simp add: db_ok_simps del: set_map)
next
  case False
  then have "snd (update_account original new d) = d" by (auto simp: update_account_def Let_def)
  then show ?thesis using assms(1) by simp
qed

text \<open>A row of an account that is changed under its key and address.\<close>

lemma update_account_row:
  assumes "db_ok d" "acc \<in> set (Accounts d)" "acc_id new = acc_id acc" "acc_address new = acc_address acc"
  shows "update_account acc new d =
    (if new = acc then (False, d) else (True, d\<lparr>Accounts := map (\<lambda>b. if acc_id b = acc_id acc then new else b) (Accounts d)\<rparr>))"
proof -
  have keyed: "keyed acc_id (Accounts d)" "keyed acc_address (Accounts d)" using assms(1) unfolding db_ok_def db_wf_keyed by blast+
  have own: "b = acc" if "b \<in> set (Accounts d)" "acc_id b = acc_id acc \<or> acc_address b = acc_address acc" for b
    using keyed_find [OF keyed(1) that(1) assms(2)] keyed_find [OF keyed(2) that(1) assms(2)] that(2) by blast
  have "new \<in> set (Accounts d) \<longleftrightarrow> new = acc" using own [of new] assms(2,3) by auto
  moreover have "acc_id new \<notin> acc_id ` set (filter (\<lambda>b. acc_id b \<noteq> acc_id acc) (Accounts d))"
      "acc_address new \<notin> acc_address ` set (filter (\<lambda>b. acc_id b \<noteq> acc_id acc) (Accounts d))"
    using assms(3) own by (auto simp: assms(4)) (metis own)
  ultimately show ?thesis using assms(2,3) by (simp add: update_account_def Let_def)
qed

lemma update_payment_ok:
  assumes "db_ok d" "pay_id new < next_id d"
  shows "db_ok (snd (update_payment original new d))"
proof (cases "fst (update_payment original new d)")
  case True
  let ?rows = "map (\<lambda>p. if pay_id p = pay_id original then new else p) (Payments d)"
  let ?others = "filter (\<lambda>p. pay_id p \<noteq> pay_id original) (Payments d)"
  have d': "snd (update_payment original new d) = d\<lparr>Payments := ?rows\<rparr>"
    and key: "pay_id new \<notin> pay_id ` set ?others" "pay_account_id new \<notin> pay_account_id ` set ?others"
      "payment_id new \<notin> payment_id ` set ?others" "pay_account_id new \<in> acc_id ` set (Accounts d)"
    using True by (auto simp: update_payment_def Let_def split: if_splits)
  have "keyed pay_id ?rows" "keyed pay_account_id ?rows" "keyed payment_id ?rows"
    using keyed_replace [of pay_id "Payments d" pay_id new "pay_id original"]
      keyed_replace [of pay_id "Payments d" pay_account_id new "pay_id original"]
      keyed_replace [of pay_id "Payments d" payment_id new "pay_id original"] key assms(1)
    by (simp_all add: db_ok_simps)
  moreover have "\<forall>p\<in>set ?rows. pay_account_id p \<in> acc_id ` set (Accounts d) \<and> pay_id p < next_id d"
    using assms key(4) by (auto simp: db_ok_simps)
  ultimately show ?thesis
    unfolding d' using assms(1) by (simp add: db_ok_simps del: set_map)
next
  case False
  then have "snd (update_payment original new d) = d" by (auto simp: update_payment_def Let_def)
  then show ?thesis using assms(1) by simp
qed

section \<open>Sequences of statements\<close>

inductive db_reachable :: "db \<Rightarrow> bool" where
  empty: "db_reachable empty_db"
| account: "db_reachable d \<Longrightarrow> db_reachable (snd (insert_account a d))"
| transaction: "db_reachable d \<Longrightarrow> db_reachable (snd (insert_transaction t d))"
| outputs: "db_reachable d \<Longrightarrow> db_reachable (snd (insert_outputs outs d))"
| inputs: "db_reachable d \<Longrightarrow> db_reachable (snd (insert_inputs ins d))"
| payment: "db_reachable d \<Longrightarrow> db_reachable (snd (insert_payment p d))"
| delete: "db_reachable d \<Longrightarrow> db_reachable (snd (delete_tx row d))"
| mark: "db_reachable d \<Longrightarrow> db_reachable (snd (mark_spendable now row flag d))"
| upd_account: "db_reachable d \<Longrightarrow> acc_id new = acc_id original \<Longrightarrow> db_reachable (snd (update_account original new d))"
| upd_payment: "db_reachable d \<Longrightarrow> pay_id new = pay_id original \<Longrightarrow> db_reachable (snd (update_payment original new d))"

lemma update_same_key_ok:
  assumes "db_ok d"
  shows "acc_id new = acc_id original \<Longrightarrow> db_ok (snd (update_account original new d))"
    "pay_id newp = pay_id orig \<Longrightarrow> db_ok (snd (update_payment orig newp d))"
proof -
  show "db_ok (snd (update_account original new d))" if "acc_id new = acc_id original"
  proof (cases "acc_id original \<in> acc_id ` set (Accounts d)")
    case True
    then have "acc_id new < next_id d" using assms that by (auto simp: db_ok_simps)
    then show ?thesis by (rule update_account_ok [OF assms])
  qed (use assms in \<open>simp add: update_account_def\<close>)
  show "db_ok (snd (update_payment orig newp d))" if "pay_id newp = pay_id orig"
  proof (cases "pay_id orig \<in> pay_id ` set (Payments d)")
    case True
    then have "pay_id newp < next_id d" using assms that by (auto simp: db_ok_simps)
    then show ?thesis by (rule update_payment_ok [OF assms])
  qed (use assms in \<open>simp add: update_payment_def\<close>)
qed

lemmas statement_ok = empty_db_ok insert_account_ok insert_transaction_ok insert_rows_ok
  insert_payment_ok delete_tx_ok mark_spendable_ok update_same_key_ok

lemma db_reachable_ok: "db_reachable d \<Longrightarrow> db_ok d"
  by (induction rule: db_reachable.induct) (blast intro: statement_ok)+

section \<open>Lemmas on the check of locked transactions\<close>

text \<open>What the check makes of one row of the table; \<open>None\<close> when it is deleted.\<close>

definition checked_row :: "chain_view \<Rightarrow> XmrTransaction \<Rightarrow> XmrTransaction option" where
  "checked_row c t =
     (if spendable t then Some t
      else if view_unlocked c (unlock_time t) (height t) then Some (t\<lparr>spendable := True, tx_timestamp := view_clock c\<rparr>)
      else if view_chain_id c (tx_hash t) \<noteq> blockchain_tx_id t then None else Some t)"

definition shown_row :: "chain_view \<Rightarrow> XmrTransaction \<Rightarrow> XmrTransaction" where
  "shown_row c t =
     (if spendable t then t
      else if view_unlocked c (unlock_time t) (height t) then t\<lparr>spendable := True\<rparr>
      else if unlock_time t = 0 then t\<lparr>unlock_time := height t + view_age c\<rparr> else t)"

lemma mark_one:
  assumes "db_ok d" "t \<in> set (Transactions d)" "\<not> spendable t"
  shows "mark_spendable now (tx_id t) True d
    = (1, d\<lparr>Transactions := map (\<lambda>u. if u = t then t\<lparr>spendable := True, tx_timestamp := now\<rparr> else u) (Transactions d)\<rparr>)"
proof -
  have key: "tx_id u = tx_id t \<longleftrightarrow> u = t" if "u \<in> set (Transactions d)" for u
    using keyed_find [of tx_id "Transactions d" u t] assms that by (auto simp: db_ok_simps)
  have "filter (\<lambda>u. tx_id u = tx_id t \<and> (spendable u \<noteq> True \<or> tx_timestamp u \<noteq> now)) (Transactions d) = filter (\<lambda>u. u = t) (Transactions d)"
    using key assms(3) by (intro filter_cong) auto
  moreover have "length (filter (\<lambda>u. u = t) (Transactions d)) = 1"
  proof -
    have "distinct (Transactions d)" using assms(1) by (auto simp: db_ok_simps keyed_def distinct_map)
    then show ?thesis using assms(2) by (simp add: distinct_length_filter Int_absorb1 Collect_conv_if)
  qed
  ultimately show ?thesis using key by (auto simp: mark_spendable_def)
qed

lemma mark_step:
  assumes "db_ok d" "t \<in> set (Transactions d)" "\<not> spendable t"
  obtains d1 t' where "mark_spendable now (tx_id t) True d = (1, d1)" "db_ok d1"
    "Transactions d1 = map (\<lambda>u. if u = t then t' else u) (Transactions d)"
    "t' = t\<lparr>spendable := True, tx_timestamp := now\<rparr>" "t' \<notin> set (Transactions d)"
proof (rule that [OF mark_one [OF assms] _ _ refl])
  let ?t = "t\<lparr>spendable := True, tx_timestamp := now\<rparr>"
  show "db_ok (d\<lparr>Transactions := map (\<lambda>u. if u = t then ?t else u) (Transactions d)\<rparr>)"
    using mark_spendable_ok [OF assms(1), of now "tx_id t" True] unfolding mark_one [OF assms] by simp
  have "keyed tx_id (Transactions d)" using assms(1) unfolding db_ok_def db_wf_keyed by blast
  moreover have "?t \<noteq> t"
  proof
    assume "?t = t"
    then have "spendable ?t = spendable t" by (rule arg_cong)
    then show False using assms(3) by simp
  qed
  ultimately show "?t \<notin> set (Transactions d)"
    using keyed_find [of tx_id "Transactions d" ?t t] assms(2) by auto
qed simp

lemma delete_one:
  assumes "db_ok d" "t \<in> set (Transactions d)"
  shows "fst (delete_tx (tx_id t) d) = 1" "Transactions (snd (delete_tx (tx_id t) d)) = filter (\<lambda>u. u \<noteq> t) (Transactions d)"
proof -
  have key: "tx_id u = tx_id t \<longleftrightarrow> u = t" if "u \<in> set (Transactions d)" for u
    using keyed_find [of tx_id "Transactions d" u t] assms that by (auto simp: db_ok_simps)
  show "fst (delete_tx (tx_id t) d) = 1" using assms(2) by (simp add: delete_tx_def)
  show "Transactions (snd (delete_tx (tx_id t) d)) = filter (\<lambda>u. u \<noteq> t) (Transactions d)"
    using assms(2) key by (auto simp: delete_tx_def intro!: filter_cong)
qed

lemma map_filter_rules:
  "List.map_filter g (map f xs) = List.map_filter (\<lambda>x. g (f x)) xs"
  "List.map_filter g (filter P xs) = List.map_filter (\<lambda>x. if P x then g x else None) xs"
  by (induction xs) (simp_all add: map_filter_simps split: option.split)

lemma map_filter_cong: "(\<And>x. x \<in> set xs \<Longrightarrow> f x = g x) \<Longrightarrow> List.map_filter f xs = List.map_filter g xs"
  by (induction xs) (simp_all add: map_filter_simps split: option.split)

lemma check_run:
  "\<lbrakk>db_ok d; distinct txs; set txs \<subseteq> set (Transactions d)\<rbrakk> \<Longrightarrow>
   \<exists>d'. spendability_check c txs d = (True, map (shown_row c) (filter (\<lambda>t. checked_row c t \<noteq> None) txs), d')
    \<and> db_ok d' \<and> Transactions d' = List.map_filter (\<lambda>t. if t \<in> set txs then checked_row c t else Some t) (Transactions d)"
proof (induction txs arbitrary: d)
  case Nil
  have "List.map_filter Some xs = xs" for xs :: "XmrTransaction list" by (induction xs) (simp_all add: map_filter_simps)
  then show ?case using Nil by simp
next
  case (Cons t txs)
  have t: "t \<in> set (Transactions d)" "t \<notin> set txs" and rest: "distinct txs" "set txs \<subseteq> set (Transactions d)"
    using Cons.prems by auto
  let ?g = "\<lambda>u. if u \<in> set txs then checked_row c u else Some u"
  consider (spent) "spendable t" | (free) "\<not> spendable t" "view_unlocked c (unlock_time t) (height t)"
    | (gone) "\<not> spendable t" "\<not> view_unlocked c (unlock_time t) (height t)" "view_chain_id c (tx_hash t) \<noteq> blockchain_tx_id t"
    | (kept) "\<not> spendable t" "\<not> view_unlocked c (unlock_time t) (height t)" "view_chain_id c (tx_hash t) = blockchain_tx_id t" by blast
  then show ?case
  proof cases
    case spent
    then have row: "checked_row c t = Some t" by (simp add: checked_row_def)
    obtain d' where d': "spendability_check c txs d = (True, map (shown_row c) (filter (\<lambda>t. checked_row c t \<noteq> None) txs), d')"
        "db_ok d'" "Transactions d' = List.map_filter ?g (Transactions d)"
      using Cons.IH [OF Cons.prems(1) rest] by blast
    have "List.map_filter ?g (Transactions d) = List.map_filter (\<lambda>u. if u \<in> set (t # txs) then checked_row c u else Some u) (Transactions d)"
      using row t(2) by (intro map_filter_cong) auto
    then show ?thesis using d' spent row by (simp add: shown_row_def)
  next
    case kept
    then have row: "checked_row c t = Some t" by (simp add: checked_row_def)
    obtain d' where d': "spendability_check c txs d = (True, map (shown_row c) (filter (\<lambda>t. checked_row c t \<noteq> None) txs), d')"
        "db_ok d'" "Transactions d' = List.map_filter ?g (Transactions d)"
      using Cons.IH [OF Cons.prems(1) rest] by blast
    have "List.map_filter ?g (Transactions d) = List.map_filter (\<lambda>u. if u \<in> set (t # txs) then checked_row c u else Some u) (Transactions d)"
      using row t(2) by (intro map_filter_cong) auto
    then show ?thesis using d' kept row by (simp add: shown_row_def)
  next
    case free
    obtain d1 t' where m: "mark_spendable (view_clock c) (tx_id t) True d = (1, d1)" "db_ok d1"
        "Transactions d1 = map (\<lambda>u. if u = t then t' else u) (Transactions d)"
        "t' = t\<lparr>spendable := True, tx_timestamp := view_clock c\<rparr>" "t' \<notin> set (Transactions d)"
      by (rule mark_step [OF Cons.prems(1) t(1) free(1)])
    have row: "checked_row c t = Some t'" using free by (simp add: checked_row_def m(4))
    have new: "t' \<notin> set txs" using m(5) rest(2) by blast
    have sub: "set txs \<subseteq> set (Transactions d1)" using rest(2) t(2) unfolding m(3) by auto
    obtain d' where d': "spendability_check c txs d1 = (True, map (shown_row c) (filter (\<lambda>t. checked_row c t \<noteq> None) txs), d')"
        "db_ok d'" "Transactions d' = List.map_filter ?g (Transactions d1)"
      using Cons.IH [OF m(2) rest(1) sub] by blast
    have "List.map_filter ?g (Transactions d1) = List.map_filter (\<lambda>u. if u \<in> set (t # txs) then checked_row c u else Some u) (Transactions d)"
      unfolding m(3) map_filter_rules using row new by (intro map_filter_cong) simp
    then show ?thesis using d' free row m(1) by (simp add: shown_row_def)
  next
    case gone
    then have row: "checked_row c t = None" by (simp add: checked_row_def)
    obtain d1 where del: "delete_tx (tx_id t) d = (1, d1)" "Transactions d1 = filter (\<lambda>u. u \<noteq> t) (Transactions d)"
      using delete_one [OF Cons.prems(1) t(1)] by (metis prod.collapse)
    have ok: "db_ok d1" using delete_tx_ok [OF Cons.prems(1), of "tx_id t"] del(1) by simp
    have sub: "set txs \<subseteq> set (Transactions d1)" using rest(2) t(2) del(2) by auto
    obtain d' where d': "spendability_check c txs d1 = (True, map (shown_row c) (filter (\<lambda>t. checked_row c t \<noteq> None) txs), d')"
        "db_ok d'" "Transactions d' = List.map_filter ?g (Transactions d1)"
      using Cons.IH [OF ok rest(1) sub] by blast
    have "List.map_filter ?g (Transactions d1) = List.map_filter (\<lambda>u. if u \<in> set (t # txs) then checked_row c u else Some u) (Transactions d)"
      unfolding del(2) map_filter_rules using row by (intro map_filter_cong) auto
    then show ?thesis using d' gone row del(1) by simp
  qed
qed

lemma filter_map_filter:
  "(\<And>x y. g x = Some y \<Longrightarrow> P y = P x) \<Longrightarrow> filter P (List.map_filter g xs) = List.map_filter g (filter P xs)"
  by (induction xs) (auto simp: map_filter_simps split: option.split)

lemma map_filter_Some: "List.map_filter Some xs = xs"
  by (induction xs) (simp_all add: map_filter_simps)

text \<open>The check on all rows of an account.\<close>

lemma check_account:
  assumes ok: "db_ok d"
  shows "\<exists>d'. spendability_check c (select_transactions a d) d
        = (True, map (shown_row c) (filter (\<lambda>t. checked_row c t \<noteq> None) (select_transactions a d)), d')
    \<and> db_ok d' \<and> select_transactions a d' = List.map_filter (checked_row c) (select_transactions a d)
    \<and> (\<forall>b. b \<noteq> a \<longrightarrow> select_transactions b d' = select_transactions b d)"
proof -
  let ?txs = "select_transactions a d"
  have "distinct (Transactions d)" using ok by (auto simp: db_ok_simps keyed_def distinct_map)
  then have txs: "distinct ?txs" "set ?txs \<subseteq> set (Transactions d)" by (auto simp: select_transactions_def)
  let ?g = "\<lambda>t. if t \<in> set ?txs then checked_row c t else Some t"
  obtain d' where d': "spendability_check c ?txs d = (True, map (shown_row c) (filter (\<lambda>t. checked_row c t \<noteq> None) ?txs), d')"
      "db_ok d'" "Transactions d' = List.map_filter ?g (Transactions d)"
    using check_run [OF ok txs] by blast
  have account: "?g t = Some u \<Longrightarrow> (tx_account_id u = b) = (tx_account_id t = b)" for t u b
    by (auto simp: checked_row_def split: if_splits)
  have select: "select_transactions b d' = List.map_filter ?g (select_transactions b d)" for b
    using filter_map_filter [of ?g "\<lambda>t. tx_account_id t = b" "Transactions d", OF account]
    by (simp add: select_transactions_def [of b] d'(3))
  have "List.map_filter ?g ?txs = List.map_filter (checked_row c) ?txs"
    by (rule map_filter_cong) simp
  moreover have "List.map_filter ?g (select_transactions b d) = select_transactions b d" if "b \<noteq> a" for b
  proof -
    have "List.map_filter ?g (select_transactions b d) = List.map_filter Some (select_transactions b d)"
      using that by (intro map_filter_cong) (auto simp: select_transactions_def)
    then show ?thesis by (simp add: map_filter_Some)
  qed
  ultimately show ?thesis using d'(1,2) select by auto
qed

section \<open>Properties\<close>


definition wallet_account :: XmrAccount where
  "wallet_account = \<lparr>acc_id = 0, acc_address = ''A'', viewkey_hash = [], scanned_block_height = 0,
     scanned_block_timestamp = 0, start_height = 0, generated_locally = False\<rparr>"

definition wallet_tx :: XmrTransaction where
  "wallet_tx = \<lparr>tx_id = 0, tx_hash = ''h'', tx_prefix_hash = [], tx_pub_key = [], tx_account_id = 1, blockchain_tx_id = 5,
     total_received = 50, total_sent = 0, unlock_time = 110, height = 100, coinbase = False, is_rct = True, rct_type = 1,
     spendable = False, tx_payment_id = [], tx_mixin = 7, tx_timestamp = 11\<rparr>"

definition wallet_db :: db where
  "wallet_db = snd (insert_transaction wallet_tx (snd (insert_account wallet_account empty_db)))"

lemma wallet_db_reachable: "db_reachable wallet_db"
  unfolding wallet_db_def by (intro db_reachable.intros)

lemmas wallet_defs = wallet_db_def wallet_tx_def wallet_account_def empty_db_def insert_account_def insert_transaction_def



definition wallet_view :: chain_view where
  "wallet_view = \<lparr>view_unlocked = (\<lambda>_ _. True), view_chain_id = (\<lambda>_. 0), view_age = 10, view_clock = 99\<rparr>"


end
