(* ===== verification/RequestCore.thy ===== *)
theory RequestCore
  imports WalletDb SearchThreads "HOL-Library.AList"
begin

text \<open>
  What the request handlers of \<open>OpenMoneroRequests\<close> (\<open>src/src/OpenMoneroRequests.cpp\<close>) share: the JSON values
  they read and answer, the state of the server, finding and creating accounts, starting the search of an
  account, and the handlers \<open>login\<close> and \<open>ping\<close>. A handler runs to its end as one step. The JSON parser, the hash,
  the parsing of addresses and keys and the answers of the node are arguments (\<open>server_env\<close>).
\<close>

section \<open>JSON\<close>

text \<open>
  The numbers that the protocol uses are integers of 64 bits: non-negative ones, and signed ones in two's
  complement, which only answers have.
\<close>

datatype json = Null | Bool bool | Number u64 | Signed u64 | Str string | Arr "json list" | Obj "(string \<times> json) list"

text \<open>\<open>operator[]\<close> on a value that is read: a missing key gives null, a value that is no object throws (\<open>None\<close>).\<close>

fun jget :: "string \<Rightarrow> json \<Rightarrow> json option" where
  "jget k (Obj kv) = Some (case map_of kv k of Some v \<Rightarrow> v | None \<Rightarrow> Null)"
| "jget k Null = Some Null"
| "jget k _ = None"

fun jcount :: "string \<Rightarrow> json \<Rightarrow> nat" where
  "jcount k (Obj kv) = (if map_of kv k = None then 0 else 1)"
| "jcount k _ = 0"

text \<open>\<open>j[k] = v\<close>; the answers are null or objects whenever this is used.\<close>

fun jset :: "string \<Rightarrow> json \<Rightarrow> json \<Rightarrow> json" where
  "jset k v (Obj kv) = Obj (AList.update k v kv)"
| "jset k v _ = Obj [(k, v)]"

fun as_string :: "json \<Rightarrow> string option" where
  "as_string (Str s) = Some s"
| "as_string _ = None"

fun as_bool :: "json \<Rightarrow> bool option" where
  "as_bool (Bool b) = Some b"
| "as_bool _ = None"

fun as_number :: "json \<Rightarrow> u64 option" where
  "as_number (Number n) = Some n"
| "as_number (Signed n) = Some n"
| "as_number _ = None"

definition get_string :: "string \<Rightarrow> json \<Rightarrow> string option" where
  "get_string k j = Option.bind (jget k j) as_string"

definition get_bool :: "string \<Rightarrow> json \<Rightarrow> bool option" where
  "get_bool k j = Option.bind (jget k j) as_bool"

definition get_number :: "string \<Rightarrow> json \<Rightarrow> u64 option" where
  "get_number k j = Option.bind (jget k j) as_number"

section \<open>The server\<close>

datatype return_code = OK | UNPROCESSABLE_ENTITY

record reply =
  code :: return_code
  response :: json

text \<open>
  \<open>thread_accs\<close> is the copy of the account row that each search object keeps, \<open>thread_known\<close> the outputs it knows.
\<close>

record server =
  srv_db :: db
  srv_threads :: search_state
  thread_accs :: "string \<rightharpoonup> XmrAccount"
  thread_known :: "string \<Rightarrow> (string \<rightharpoonup> u64)"

text \<open>
  \<open>parse_address\<close> and \<open>parse_viewkey\<close> are the two steps of the constructor of \<open>TxSearch\<close> that throw; the latter
  gives the key in hex. \<open>spawn_ok\<close> is whether the system can create a thread, \<open>block_time\<close> the time stamp of a block (\<open>None\<close>
  when it cannot be read), \<open>seconds_now\<close> the clock.
\<close>

record server_env =
  parse_json :: "string \<Rightarrow> json option"
  make_hash :: "string \<Rightarrow> string"
  parse_address :: "string \<Rightarrow> bool"
  parse_viewkey :: "string \<Rightarrow> string option"
  spawn_ok :: bool
  block_time :: "u64 \<Rightarrow> u64 option"
  seconds_now :: u64
  current_height :: u64
  setup_import_fee :: u64
  max_number_of_blocks_to_import :: u64

definition session_close :: "return_code \<Rightarrow> string \<Rightarrow> json \<Rightarrow> reply" where
  "session_close c msg j = \<lparr>code = c, response = (if c \<noteq> OK then jset ''Error'' (Str msg) j else j)\<rparr>"

definition error_json :: "string \<Rightarrow> json" where
  "error_json reason = Obj [(''status'', Str ''error''), (''reason'', Str reason)]"

text \<open>The result is the request, or the answer that refuses it.\<close>

definition parse_request :: "'e server_env_scheme \<Rightarrow> string \<Rightarrow> string list \<Rightarrow> json \<Rightarrow> json + json" where
  "parse_request env body required j_response =
     (case parse_json env body of
        None \<Rightarrow> Inl (jset ''reason'' (Str ''reqest json parsing failed'') (jset ''status'' (Str ''error'') j_response))
      | Some j_request \<Rightarrow>
          (case find (\<lambda>v. jcount v j_request = 0) required of
             Some v \<Rightarrow> Inl (jset ''reason'' (Str (v @ '' value not provided'')) (jset ''status'' (Str ''error'') j_response))
           | None \<Rightarrow> Inr j_request))"

section \<open>Accounts\<close>

definition create_account :: "'e server_env_scheme \<Rightarrow> string \<Rightarrow> string \<Rightarrow> bool \<Rightarrow> db \<Rightarrow> XmrAccount option \<times> db" where
  "create_account env address view_key locally d =
     (case WalletDb.select_account address d of
        Some acc \<Rightarrow> (Some acc, d)
      | None \<Rightarrow>
          let timestamp = (case block_time env (current_height env) of
                Some t \<Rightarrow> if t \<noteq> 0 then t else seconds_now env | None \<Rightarrow> seconds_now env);
              start = (if setup_import_fee env = 0 \<and> \<not> locally then 0 else current_height env);
              acc = \<lparr>acc_id = 0, acc_address = address, viewkey_hash = make_hash env view_key,
                scanned_block_height = start, scanned_block_timestamp = timestamp, start_height = start,
                generated_locally = locally\<rparr>;
              (row, d) = insert_account acc d
          in if row = 0 then (None, d) else (Some (acc\<lparr>acc_id := row\<rparr>), d))"

text \<open>The outputs in the table are known from the start; a key that comes twice keeps the later amount.\<close>

definition populate_known_outputs :: "XmrAccount \<Rightarrow> db \<Rightarrow> (string \<rightharpoonup> u64)" where
  "populate_known_outputs acc d = foldl (\<lambda>known out. known(out_pub_key out \<mapsto> out_amount out)) Map.empty (select_outputs (acc_id acc) d)"

text \<open>The constructor of \<open>TxSearch\<close>, and the start of its thread.\<close>

definition construct_tx_search :: "'e server_env_scheme \<Rightarrow> XmrAccount \<Rightarrow> string \<Rightarrow> tx_search option" where
  "construct_tx_search env acc view_key =
     (if parse_address env (acc_address acc)
      then map_option (new_tx_search (scanned_block_height acc) (unat (seconds_now env))) (parse_viewkey env view_key)
      else None)"

definition start_search :: "'e server_env_scheme \<Rightarrow> XmrAccount \<Rightarrow> tx_search \<Rightarrow> server \<Rightarrow> bool \<times> server" where
  "start_search env acc t s =
     (let (ok, ts) = start_tx_search_thread (spawn_ok env) (acc_address acc) t (srv_threads s);
          started = (ok \<and> \<not> search_thread_exist (acc_address acc) (srv_threads s))
      in (ok, s\<lparr>srv_threads := ts,
        thread_accs := (if started then (thread_accs s)(acc_address acc \<mapsto> acc) else thread_accs s),
        thread_known := (if started then (thread_known s)(acc_address acc := populate_known_outputs acc (srv_db s))
          else thread_known s)\<rparr>))"

definition make_search_thread :: "'e server_env_scheme \<Rightarrow> XmrAccount \<Rightarrow> string \<Rightarrow> server \<Rightarrow> bool \<times> server" where
  "make_search_thread env acc view_key s =
     (if search_thread_exist (acc_address acc) (srv_threads s) then (True, s)
      else case construct_tx_search env acc view_key of
             None \<Rightarrow> (False, s)
           | Some t \<Rightarrow> start_search env acc t s)"

definition select_account_of :: "'e server_env_scheme \<Rightarrow> string \<Rightarrow> string \<Rightarrow> bool \<Rightarrow> server \<Rightarrow> XmrAccount option \<times> server" where
  "select_account_of env address view_key create_if_notfound s =
     (let checked = (\<lambda>acc. if make_hash env view_key \<noteq> viewkey_hash acc then None else Some acc)
      in case WalletDb.select_account address (srv_db s) of
           Some acc \<Rightarrow> (checked acc, s)
         | None \<Rightarrow>
             if \<not> create_if_notfound then (None, s)
             else (case create_account env address view_key True (srv_db s) of
                     (None, d) \<Rightarrow> (None, s\<lparr>srv_db := d\<rparr>)
                   | (Some acc, d) \<Rightarrow>
                       (case make_search_thread env acc view_key (s\<lparr>srv_db := d\<rparr>) of
                          (False, s) \<Rightarrow> (None, s)
                        | (True, s) \<Rightarrow> (checked acc, s))))"

text \<open>The account is the result when the function returns \<open>true\<close>.\<close>

definition login_and_start_search_thread ::
    "'e server_env_scheme \<Rightarrow> string \<Rightarrow> string \<Rightarrow> json \<Rightarrow> server \<Rightarrow> XmrAccount option \<times> json \<times> server" where
  "login_and_start_search_thread env address view_key j s =
     (let success = jset ''new_address'' (Bool False) (jset ''status'' (Str ''success'') j)
      in case WalletDb.select_account address (srv_db s) of
           None \<Rightarrow> (None, j, s)
         | Some acc \<Rightarrow>
             if make_hash env view_key = viewkey_hash acc
             then if \<not> search_thread_exist (acc_address acc) (srv_threads s)
                  then (case construct_tx_search env acc view_key of
                          None \<Rightarrow> (None, error_json ''Failed to construct TxSearch object'', s)
                        | Some t \<Rightarrow>
                            (case start_search env acc t s of
                               (True, s) \<Rightarrow> (Some acc, success, s)
                             | (False, s) \<Rightarrow> (None, error_json ''Failed created search thread for this account'', s)))
                  else (Some acc, success, s)
             else (None, error_json ''Viewkey provided is incorrect'', s))"

section \<open>Logging in\<close>

text \<open>The second half of \<open>login\<close>, behind the reading of the request.\<close>

definition login_as :: "'e server_env_scheme \<Rightarrow> string \<Rightarrow> string \<Rightarrow> bool \<Rightarrow> bool \<Rightarrow> server \<Rightarrow> reply \<times> server" where
  "login_as env address view_key locally create_only s =
     (let (acc, s) = select_account_of env address view_key False s;
          new_account_created = (acc = None);
          (acc, d) = (case acc of None \<Rightarrow> create_account env address view_key locally (srv_db s) | Some _ \<Rightarrow> (acc, srv_db s));
          s = s\<lparr>srv_db := d\<rparr>
      in case acc of
           None \<Rightarrow> (session_close OK [] (error_json ''Account creation failed''), s)
         | Some acc \<Rightarrow>
             let j = jset ''start_height'' (Number (start_height acc)) (jset ''generated_locally'' (Bool (generated_locally acc)) Null);
                 (logged_in, j, s) = (if create_only then (True, j, s)
                   else let (acc, j, s) = login_and_start_search_thread env address view_key j s in (acc \<noteq> None, j, s))
             in if logged_in
                then (session_close OK [] (jset ''new_address'' (Bool new_account_created) (jset ''status'' (Str ''success'') j)), s)
                else (session_close OK [] j, s))"

definition login :: "'e server_env_scheme \<Rightarrow> string \<Rightarrow> server \<Rightarrow> reply \<times> server" where
  "login env body s =
     (case parse_request env body [''address'', ''view_key''] Null of
        Inl j \<Rightarrow> (session_close OK [] j, s)
      | Inr req \<Rightarrow>
          (case (get_string ''address'' req, get_string ''view_key'' req, get_bool ''create_account'' req,
                 if jcount ''generated_locally'' req = 0 then Some False else get_bool ''generated_locally'' req) of
             (Some address, Some view_key, Some create_accountt, Some locally) \<Rightarrow>
               let create_only = (case get_bool ''create_only'' req of Some b \<Rightarrow> b | None \<Rightarrow> False)
               in if \<not> create_accountt \<and> \<not> create_only then (session_close OK [] (error_json ''Not making an account''), s)
                  else login_as env address view_key locally create_only s
           | _ \<Rightarrow> (session_close OK [] Null, s)))"

definition ping :: "'e server_env_scheme \<Rightarrow> string \<Rightarrow> server \<Rightarrow> reply \<times> server" where
  "ping env body s =
     (case parse_request env body [''address'', ''view_key''] Null of
        Inl j \<Rightarrow> (session_close OK [] j, s)
      | Inr req \<Rightarrow>
          (case (get_string ''address'' req, get_string ''view_key'' req) of
             (Some address, Some view_key) \<Rightarrow>
               let (exists, ts) = search_thread_exist_key address view_key (srv_threads s);
                   s = s\<lparr>srv_threads := ts\<rparr>
               in if \<not> exists then (session_close UNPROCESSABLE_ENTITY [] Null, s)
                  else let (ok, ts) = ping_search_thread (unat (seconds_now env)) address (srv_threads s);
                           s = s\<lparr>srv_threads := ts\<rparr>
                       in if \<not> ok then (session_close OK [] (error_json ''Pinging search thread failed.''), s)
                          else (session_close OK [] (Obj [(''status'', Str ''success'')]), s)
           | _ \<Rightarrow> (session_close UNPROCESSABLE_ENTITY [] Null, s)))"

section \<open>Lemmas\<close>

fun is_obj :: "json \<Rightarrow> bool" where
  "is_obj (Obj _) = True"
| "is_obj Null = True"
| "is_obj _ = False"

lemma is_obj_jset [simp]: "is_obj (jset k v j)"
  by (cases j) simp_all

lemma jget_jset [simp]: "jget k (jset k v j) = Some v"
  by (cases j) (simp_all add: update_conv')

lemma jget_jset_other [simp]: "is_obj j \<Longrightarrow> k \<noteq> l \<Longrightarrow> jget k (jset l v j) = jget k j"
  by (cases j) (simp_all add: update_conv')

lemma get_jset [simp]:
  "get_string k (jset k v j) = as_string v" "get_bool k (jset k v j) = as_bool v" "get_number k (jset k v j) = as_number v"
  by (simp_all add: get_string_def get_bool_def get_number_def)

lemma get_jset_other [simp]:
  "is_obj j \<Longrightarrow> k \<noteq> l \<Longrightarrow> get_string k (jset l v j) = get_string k j"
  "is_obj j \<Longrightarrow> k \<noteq> l \<Longrightarrow> get_bool k (jset l v j) = get_bool k j"
  "is_obj j \<Longrightarrow> k \<noteq> l \<Longrightarrow> get_number k (jset l v j) = get_number k j"
  by (simp_all add: get_string_def get_bool_def get_number_def)

lemma get_Obj [simp]:
  "get_string k (Obj kv) = Option.bind (map_of kv k) as_string"
  "get_bool k (Obj kv) = Option.bind (map_of kv k) as_bool"
  "get_number k (Obj kv) = Option.bind (map_of kv k) as_number"
  by (simp_all add: get_string_def get_bool_def get_number_def split: option.split)

lemma session_close_simps [simp]:
  "code (session_close c msg j) = c" "response (session_close OK msg j) = j"
  by (simp_all add: session_close_def)

lemma error_json_simps [simp]: "get_string ''status'' (error_json reason) = Some ''error''" "is_obj (error_json reason)"
    "k \<noteq> ''status'' \<Longrightarrow> k \<noteq> ''reason'' \<Longrightarrow> jcount k (error_json reason) = 0"
  by (simp_all add: error_json_def)

lemma get_string_count: "get_string k j = Some v \<Longrightarrow> jcount k j \<noteq> 0"
  by (cases "(k, j)" rule: jget.cases) (auto simp: get_string_def split: option.splits)

lemma get_number_count: "get_number k j = Some v \<Longrightarrow> jcount k j \<noteq> 0"
  by (cases "(k, j)" rule: jget.cases) (auto simp: get_number_def split: option.splits)

lemma get_bool_count: "get_bool k j = Some v \<Longrightarrow> jcount k j \<noteq> 0"
  by (cases "(k, j)" rule: jget.cases) (auto simp: get_bool_def split: option.splits)

text \<open>A request with an address and a key, and nothing else that must be there.\<close>

lemma parse_address_key:
  assumes "parse_json env body = Some req" "get_string ''address'' req = Some a" "get_string ''view_key'' req = Some k"
  shows "parse_request env body [''address'', ''view_key''] j = Inr req"
  using assms(1) get_string_count [OF assms(2)] get_string_count [OF assms(3)] by (simp add: parse_request_def)

lemma select_account_row:
  "select_account a d = Some acc \<Longrightarrow> acc \<in> set (Accounts d) \<and> acc_address acc = a"
  by (auto simp: select_account_def find_Some_iff)

lemma select_account_None: "select_account a d = None \<longleftrightarrow> a \<notin> acc_address ` set (Accounts d)"
  by (auto simp: select_account_def find_None_iff)

lemma find_append: "find P (xs @ ys) = (case find P xs of None \<Rightarrow> find P ys | Some x \<Rightarrow> Some x)"
  by (induction xs) auto

lemma select_account_append:
  "select_account a d = None \<Longrightarrow> Accounts d' = Accounts d @ [acc] \<Longrightarrow> acc_address acc = a \<Longrightarrow> select_account a d' = Some acc"
  by (simp add: select_account_def find_append)

lemma start_search_new:
  assumes "\<not> search_thread_exist (acc_address acc) (srv_threads s)" "spawn_ok env"
  shows "start_search env acc t s = (True, s\<lparr>srv_threads := (srv_threads s)\<lparr>searching_threads
      := searching_threads (srv_threads s) @ [(acc_address acc, t)]\<rparr>, thread_accs := (thread_accs s)(acc_address acc \<mapsto> acc),
      thread_known := (thread_known s)(acc_address acc := populate_known_outputs acc (srv_db s))\<rparr>)"
  using assms by (simp add: start_search_def start_tx_search_thread_def)

lemma new_thread:
  assumes "\<not> search_thread_exist a ts"
  shows "search_thread_exist a (ts\<lparr>searching_threads := searching_threads ts @ [(a, t)]\<rparr>)"
    "get_search_thread a (ts\<lparr>searching_threads := searching_threads ts @ [(a, t)]\<rparr>) = Some t"
  using assms by (auto simp: search_thread_exist_def get_search_thread_def map_of_eq_None_iff [THEN iffD2] map_add_Some_iff)

text \<open>The row that a new account gets.\<close>

definition new_row :: "'e server_env_scheme \<Rightarrow> string \<Rightarrow> string \<Rightarrow> bool \<Rightarrow> nat \<Rightarrow> XmrAccount \<Rightarrow> bool" where
  "new_row env a k locally row acc \<longleftrightarrow> acc_id acc = row \<and> acc_address acc = a \<and> viewkey_hash acc = make_hash env k
     \<and> generated_locally acc = locally \<and> scanned_block_height acc = start_height acc
     \<and> start_height acc = (if setup_import_fee env = 0 \<and> \<not> locally then 0 else current_height env)"

lemma create_account_new:
  assumes "select_account a d = None" "0 < next_id d"
  obtains acc where "create_account env a k locally d
      = (Some acc, d\<lparr>Accounts := Accounts d @ [acc], next_id := Suc (next_id d)\<rparr>)" "new_row env a k locally (next_id d) acc"
  using assms select_account_None [of a d]
  by (auto simp: create_account_def insert_account_def Let_def new_row_def split: option.splits)

lemma populate_account [simp]: "populate_known_outputs acc (d\<lparr>Accounts := rows, next_id := n\<rparr>) = populate_known_outputs acc d"
  by (simp add: populate_known_outputs_def select_outputs_def)

text \<open>The state behind the first login of an address.\<close>

definition registered :: "XmrAccount \<Rightarrow> tx_search \<Rightarrow> server \<Rightarrow> server" where
  "registered acc t s = s\<lparr>srv_db := (srv_db s)\<lparr>Accounts := Accounts (srv_db s) @ [acc], next_id := Suc (next_id (srv_db s))\<rparr>,
     thread_known := (thread_known s)(acc_address acc := populate_known_outputs acc (srv_db s)),
     srv_threads := (srv_threads s)\<lparr>searching_threads := searching_threads (srv_threads s) @ [(acc_address acc, t)]\<rparr>,
     thread_accs := (thread_accs s)(acc_address acc \<mapsto> acc)\<rparr>"

text \<open>A login request with an address and a key, without \<open>generated_locally\<close> and \<open>create_only\<close> unless given.\<close>

definition login_fields :: "'e server_env_scheme \<Rightarrow> string \<Rightarrow> string \<Rightarrow> string \<Rightarrow> bool \<Rightarrow> bool \<Rightarrow> bool" where
  "login_fields env body a k locally create_only \<longleftrightarrow> (\<exists>req. parse_json env body = Some req
     \<and> get_string ''address'' req = Some a \<and> get_string ''view_key'' req = Some k \<and> get_bool ''create_account'' req = Some True
     \<and> (if jcount ''generated_locally'' req = 0 then \<not> locally else get_bool ''generated_locally'' req = Some locally)
     \<and> (create_only \<longleftrightarrow> get_bool ''create_only'' req = Some True))"

lemma login_request:
  assumes "login_fields env body a k locally create_only"
  shows "login env body s = login_as env a k locally create_only s"
proof -
  obtain req where req: "parse_json env body = Some req" "get_string ''address'' req = Some a" "get_string ''view_key'' req = Some k"
      "get_bool ''create_account'' req = Some True"
      "(if jcount ''generated_locally'' req = 0 then Some False else get_bool ''generated_locally'' req) = Some locally"
      "create_only = (get_bool ''create_only'' req = Some True)"
    using assms by (auto simp: login_fields_def split: if_splits)
  have only: "(case get_bool ''create_only'' req of Some b \<Rightarrow> b | None \<Rightarrow> False) = create_only"
    unfolding req(6) by (auto split: option.split)
  show ?thesis
    by (simp only: login_def parse_address_key [OF req(1-3)] sum.case req(2-5) prod.case option.case only Let_def) simp
qed

lemma login_new:
  assumes "select_account a (srv_db s) = None" "0 < next_id (srv_db s)" "\<not> search_thread_exist a (srv_threads s)"
    and "parse_address env a" "parse_viewkey env k = Some hex" "spawn_ok env"
  obtains acc r where "login_as env a k locally False s
      = (r, registered acc (new_tx_search (scanned_block_height acc) (unat (seconds_now env)) hex) s)"
    "new_row env a k locally (next_id (srv_db s)) acc" "code r = OK"
    "get_string ''status'' (response r) = Some ''success''" "get_bool ''new_address'' (response r) = Some True"
proof -
  obtain acc where acc: "create_account env a k locally (srv_db s)
      = (Some acc, (srv_db s)\<lparr>Accounts := Accounts (srv_db s) @ [acc], next_id := Suc (next_id (srv_db s))\<rparr>)"
      "new_row env a k locally (next_id (srv_db s)) acc"
    by (rule create_account_new [OF assms(1,2)])
  let ?d = "(srv_db s)\<lparr>Accounts := Accounts (srv_db s) @ [acc], next_id := Suc (next_id (srv_db s))\<rparr>"
  have row: "acc_address acc = a" "viewkey_hash acc = make_hash env k" using acc(2) by (simp_all add: new_row_def)
  have sel: "select_account a ?d = Some acc" by (rule select_account_append [OF assms(1) _ row(1)]) simp
  have "construct_tx_search env acc k = Some (new_tx_search (scanned_block_height acc) (unat (seconds_now env)) hex)"
    using assms(4,5) row(1) by (simp add: construct_tx_search_def)
  then have "login_and_start_search_thread env a k j (s\<lparr>srv_db := ?d\<rparr>)
      = (Some acc, jset ''new_address'' (Bool False) (jset ''status'' (Str ''success'') j),
         registered acc (new_tx_search (scanned_block_height acc) (unat (seconds_now env)) hex) s)" for j
    using assms(3,6) sel row
    by (simp add: login_and_start_search_thread_def start_search_new registered_def)
  then show ?thesis
    using assms(1) acc that by (simp add: login_as_def select_account_of_def)
qed

lemma login_again:
  assumes "select_account a (srv_db s) = Some acc" "viewkey_hash acc = make_hash env k" "search_thread_exist a (srv_threads s)"
  obtains r where "login_as env a k locally False s = (r, s)" "code r = OK"
    "get_string ''status'' (response r) = Some ''success''" "get_bool ''new_address'' (response r) = Some False"
proof -
  have "acc_address acc = a" using select_account_row [OF assms(1)] by simp
  then show ?thesis
    using assms that by (simp add: login_as_def select_account_of_def login_and_start_search_thread_def)
qed

lemma login_wrong_key:
  assumes "select_account a (srv_db s) = Some acc" "viewkey_hash acc \<noteq> make_hash env k"
  shows "login_as env a k locally False s = (session_close OK [] (error_json ''Viewkey provided is incorrect''), s)"
    and "login_as env a k locally True s = (session_close OK [] (jset ''new_address'' (Bool True) (jset ''status'' (Str ''success'')
      (jset ''start_height'' (Number (start_height acc)) (jset ''generated_locally'' (Bool (generated_locally acc)) Null)))), s)"
  using assms
  by (simp_all add: login_as_def select_account_of_def create_account_def login_and_start_search_thread_def eq_commute [of "make_hash env k"])

section \<open>Properties\<close>

text \<open>C11: the first login of an address registers it: one row is added, with the hash of the key and the
  start of the scan at the top of the chain, or at block 0 for a wallet that comes from elsewhere when importing is free; a search
  thread starts at the row's height with a copy of the row, and the client hears that the address is new. The same request again
  succeeds, changes nothing, and says that the address is known.\<close>

theorem login_registers:
  assumes "login_fields env body a k locally False"
    and "db_ok (srv_db s)" and "select_account a (srv_db s) = None" and "\<not> search_thread_exist a (srv_threads s)"
    and "parse_address env a" and "parse_viewkey env k = Some hex" and "spawn_ok env"
  shows "\<exists>acc r r' s'. login env body s = (r, s') \<and> login env body s' = (r', s')
    \<and> new_row env a k locally (next_id (srv_db s)) acc \<and> Accounts (srv_db s') = Accounts (srv_db s) @ [acc] \<and> db_ok (srv_db s')
    \<and> get_searched_blk_no a (srv_threads s') = Some (scanned_block_height acc) \<and> thread_accs s' a = Some acc
    \<and> get_string ''status'' (response r) = Some ''success'' \<and> get_bool ''new_address'' (response r) = Some True
    \<and> get_string ''status'' (response r') = Some ''success'' \<and> get_bool ''new_address'' (response r') = Some False"
proof -
  have pos: "0 < next_id (srv_db s)" using assms(2) by (simp add: db_ok_simps)
  obtain acc r where first: "login_as env a k locally False s
      = (r, registered acc (new_tx_search (scanned_block_height acc) (unat (seconds_now env)) hex) s)"
      and row: "new_row env a k locally (next_id (srv_db s)) acc"
      and r: "get_string ''status'' (response r) = Some ''success''" "get_bool ''new_address'' (response r) = Some True"
    by (rule login_new [OF assms(3) pos assms(4-7)])
  define s' where "s' = registered acc (new_tx_search (scanned_block_height acc) (unat (seconds_now env)) hex) s"
  have acc: "acc_address acc = a" "viewkey_hash acc = make_hash env k" "acc_id acc = next_id (srv_db s)"
    using row by (simp_all add: new_row_def)
  have sel: "select_account a (srv_db s') = Some acc"
    by (rule select_account_append [OF assms(3) _ acc(1)]) (simp add: s'_def registered_def)
  have thread: "search_thread_exist a (srv_threads s')"
      "get_search_thread a (srv_threads s') = Some (new_tx_search (scanned_block_height acc) (unat (seconds_now env)) hex)"
    using new_thread [OF assms(4)] acc(1) by (simp_all add: s'_def registered_def)
  obtain r' where again: "login_as env a k locally False s' = (r', s')"
      "get_string ''status'' (response r') = Some ''success''" "get_bool ''new_address'' (response r') = Some False"
    by (rule login_again [OF sel acc(2) thread(1)])
  have "srv_db s' = snd (insert_account acc (srv_db s))"
    using assms(3) acc select_account_None [of a "srv_db s"] by (simp add: insert_account_def s'_def registered_def)
  then have ok: "db_ok (srv_db s')" using insert_account_ok [OF assms(2)] by simp
  show ?thesis
    using first again row r ok thread acc(1) unfolding login_request [OF assms(1)]
    by (intro exI [of _ acc] exI [of _ r] exI [of _ r'] exI [of _ s'])
       (simp add: s'_def registered_def get_searched_blk_no_def new_tx_search_def)
qed

definition sample_server_env :: server_env where
  "sample_server_env = \<lparr>parse_json = (\<lambda>body. Some (Obj [(''address'', Str ''A''), (''view_key'', Str body),
       (''create_account'', Bool True), (''create_only'', Bool (body = ''x''))])),
     make_hash = id, parse_address = (\<lambda>_. True), parse_viewkey = Some, spawn_ok = True, block_time = (\<lambda>_. Some 9),
     seconds_now = 10, current_height = 100, setup_import_fee = 0, max_number_of_blocks_to_import = 20\<rparr>"

definition empty_server :: server where
  "empty_server = \<lparr>srv_db = empty_db, srv_threads = initial_search, thread_accs = Map.empty,
     thread_known = (\<lambda>_. Map.empty)\<rparr>"

definition known_server :: server where
  "known_server = empty_server\<lparr>srv_db := snd (insert_account \<lparr>acc_id = 0, acc_address = ''A'', viewkey_hash = ''k'',
     scanned_block_height = 60, scanned_block_timestamp = 5, start_height = 50, generated_locally = True\<rparr> empty_db)\<rparr>"

lemma sample_login: "login_fields sample_server_env body ''A'' body False (body = ''x'')"
  by (simp add: login_fields_def sample_server_env_def)

theorem login_registers_witness:
  "\<exists>r s'. login sample_server_env ''k'' empty_server = (r, s') \<and> length (Accounts (srv_db s')) = 1
     \<and> get_bool ''new_address'' (response r) = Some True"
proof -
  have "login_fields sample_server_env ''k'' ''A'' ''k'' False False" using sample_login [of "''k''"] by simp
  moreover have "db_ok (srv_db empty_server)" by (simp add: empty_server_def empty_db_ok)
  moreover have "select_account ''A'' (srv_db empty_server) = None" "\<not> search_thread_exist ''A'' (srv_threads empty_server)"
    by (simp_all add: empty_server_def empty_db_def select_account_def search_thread_exist_def initial_search_def)
  moreover have "parse_address sample_server_env ''A''" "parse_viewkey sample_server_env ''k'' = Some ''k''" "spawn_ok sample_server_env"
    by (simp_all add: sample_server_env_def)
  ultimately obtain acc r s' where "login sample_server_env ''k'' empty_server = (r, s')"
      "Accounts (srv_db s') = Accounts (srv_db empty_server) @ [acc]" "get_bool ''new_address'' (response r) = Some True"
    using login_registers [of sample_server_env "''k''" "''A''" "''k''" False empty_server "''k''"] by blast
  then show ?thesis by (auto simp: empty_server_def empty_db_def)
qed

text \<open>C17: a login with the wrong key is refused and changes nothing, unless the request says \<open>create_only\<close>: then it
  succeeds, says that the known address is new, and tells the start height and the origin of the account.\<close>

theorem create_only_skips_key:
  assumes "login_fields env body a k locally create_only"
    and "select_account a (srv_db s) = Some acc" and "viewkey_hash acc \<noteq> make_hash env k"
  shows "\<exists>r. login env body s = (r, s)
    \<and> (if create_only
        then get_string ''status'' (response r) = Some ''success'' \<and> get_bool ''new_address'' (response r) = Some True
          \<and> get_number ''start_height'' (response r) = Some (start_height acc)
          \<and> get_bool ''generated_locally'' (response r) = Some (generated_locally acc)
        else response r = error_json ''Viewkey provided is incorrect'')"
  using login_wrong_key [OF assms(2,3)] unfolding login_request [OF assms(1)] by (cases create_only) simp_all

theorem create_only_skips_key_witness:
  "\<exists>r. login sample_server_env ''x'' known_server = (r, known_server) \<and> get_string ''status'' (response r) = Some ''success''
     \<and> get_number ''start_height'' (response r) = Some 50"
proof -
  obtain acc where acc: "select_account ''A'' (srv_db known_server) = Some acc" "viewkey_hash acc = ''k''" "start_height acc = 50"
    by (simp add: known_server_def empty_db_def insert_account_def select_account_def)
  have "viewkey_hash acc \<noteq> make_hash sample_server_env ''x''" using acc(2) by (simp add: sample_server_env_def)
  from create_only_skips_key [OF sample_login acc(1) this] show ?thesis using acc(3) by auto
qed

end
