(* ===== verification/ChainStatus.thy ===== *)
theory ChainStatus
  imports UnlockChecker
begin

text \<open>
  The parts of \<open>CurrentBlockchainStatus\<close> (\<open>src/src/CurrentBlockchainStatus.cpp\<close>) that compute on what the node
  answers: the height, the unlock test, the transactions of a range of blocks, the searches in the memory
  pool, and the search for an import payment. The node's core and RPC, hex parsing and the identification
  of payments (xmregcore) are parameters.
\<close>

section \<open>Height and unlock test\<close>

text \<open>The RPC answers the number of blocks, or fails; the height is stored in 64 bits.\<close>

definition update_current_blockchain_height :: "u64 option \<Rightarrow> u64 \<Rightarrow> u64" where
  "update_current_blockchain_height answer current_height =
     (case answer of Some tmp \<Rightarrow> tmp - 1 | None \<Rightarrow> current_height)"

definition is_tx_unlocked_now :: "unlock_config \<Rightarrow> u64 \<Rightarrow> network_type \<Rightarrow> u64 \<Rightarrow> u64 \<Rightarrow> u64 \<Rightarrow> bool" where
  "is_tx_unlocked_now c now net_type current_height unlock_time block_height =
     is_unlocked c now net_type current_height unlock_time block_height"

section \<open>The transactions of a range of blocks\<close>

record block =
  blk_timestamp :: u64
  miner_tx_hash :: string
  tx_hashes :: "string list"

fun init_txs_data_vector :: "u64 \<Rightarrow> block list \<Rightarrow> string list \<times> (u64 \<times> u64 \<times> bool) list" where
  "init_txs_data_vector blk_height [] = ([], [])"
| "init_txs_data_vector blk_height (blk # blks) =
     (let (txs_to_get, txs_data) = init_txs_data_vector (blk_height + 1) blks
      in (miner_tx_hash blk # tx_hashes blk @ txs_to_get,
          (blk_height, blk_timestamp blk, True) # map (\<lambda>_. (blk_height, blk_timestamp blk, False)) (tx_hashes blk) @ txs_data))"

text \<open>\<open>get_txs\<close> answers the transactions it found and the hashes it missed, or fails.\<close>

definition get_txs_in_blocks :: "(string list \<Rightarrow> ('tx list \<times> string list) option) \<Rightarrow> u64 \<Rightarrow> block list
    \<Rightarrow> (string list \<times> 'tx list \<times> (u64 \<times> u64 \<times> bool) list) option" where
  "get_txs_in_blocks get_txs h1 blks =
     (let (hashes, data) = init_txs_data_vector h1 blks
      in case get_txs hashes of
           None \<Rightarrow> None
         | Some (txs, missed) \<Rightarrow> if missed \<noteq> [] \<or> length hashes \<noteq> length txs then None else Some (hashes, txs, data))"

section \<open>The memory pool\<close>

text \<open>The pool is the list of receive time and transaction; hashes and key images of a transaction are parameters.\<close>

definition find_tx_in_mempool :: "('tx \<Rightarrow> string) \<Rightarrow> string \<Rightarrow> (u64 \<times> 'tx) list \<Rightarrow> 'tx option" where
  "find_tx_in_mempool hash_of h pool = find (\<lambda>tx. hash_of tx = h) (map snd pool)"

text \<open>The inputs that are not of type \<open>txin_to_key\<close> have no key image (\<open>None\<close>).\<close>

fun find_key_images_in_mempool :: "('tx \<Rightarrow> 'k list) \<Rightarrow> 'k option list \<Rightarrow> (u64 \<times> 'tx) list \<Rightarrow> bool" where
  "find_key_images_in_mempool images [] pool = False"
| "find_key_images_in_mempool images (None # vin) pool = find_key_images_in_mempool images vin pool"
| "find_key_images_in_mempool images (Some k # vin) pool =
     (if list_ex (\<lambda>mtx. list_ex (\<lambda>mki. mki = k) (images (snd mtx))) pool then True
      else find_key_images_in_mempool images vin pool)"

text \<open>The long payment id when it is not null, else the short one when that is not null.\<close>

definition get_payment_id_as_string :: "('tx \<Rightarrow> string option \<times> string option) \<Rightarrow> 'tx \<Rightarrow> string" where
  "get_payment_id_as_string get_payment_id tx =
     (case get_payment_id tx of (Some long, _) \<Rightarrow> long | (None, Some short) \<Rightarrow> short | (None, None) \<Rightarrow> [])"

section \<open>The search for an import payment\<close>

text \<open>
  The loop over the last blocks; \<open>get_txs i\<close> is the transactions of block \<open>i\<close>, \<open>None\<close> when the block or its
  transactions cannot be had. The outer \<open>None\<close> is a loop that does not end: the counter is a 64-bit
  number and the test \<open>blk_i <= current_blockchain_height\<close> holds for all of them at the maximal height.
\<close>

partial_function (option) last_blocks :: "(u64 \<Rightarrow> 'tx list option) \<Rightarrow> u64 \<Rightarrow> u64 \<Rightarrow> 'tx list option option" where
  "last_blocks get_txs blk_i height =
     (if blk_i \<le> height
      then case get_txs blk_i of
             None \<Rightarrow> Some None
           | Some blk_txs \<Rightarrow> Option.bind (last_blocks get_txs (blk_i + 1) height) (\<lambda>rest. Some (map_option ((@) blk_txs) rest))
      else Some (Some []))"

record 'tx payment_view =
  mempool :: "'tx list"
  block_txs_at :: "u64 \<Rightarrow> 'tx list option"
  parse_payment_id :: "string \<Rightarrow> string option"
  payment_id_of :: "'tx \<Rightarrow> string"
  amount_paid :: "'tx \<Rightarrow> u64"
  hash_of_tx :: "'tx \<Rightarrow> string"

text \<open>\<open>Some (Some h)\<close> is the return of \<open>true\<close> with the hash, \<open>Some None\<close> that of \<open>false\<close>.\<close>

definition search_if_payment_made :: "'tx payment_view \<Rightarrow> u64 \<Rightarrow> string \<Rightarrow> u64 \<Rightarrow> string option option" where
  "search_if_payment_made v current_height payment_id_str desired_amount =
     Option.bind (last_blocks (block_txs_at v) (current_height - 10) current_height)
       (\<lambda>found. Some (case found of
          None \<Rightarrow> None
        | Some blk_txs \<Rightarrow>
            (case parse_payment_id v payment_id_str of
               None \<Rightarrow> None
             | Some expected \<Rightarrow>
                 map_option (hash_of_tx v)
                   (find (\<lambda>tx. payment_id_of v tx = expected \<and> amount_paid v tx \<ge> desired_amount) (mempool v @ blk_txs)))))"

section \<open>Lemmas\<close>

lemma init_txs_spec:
  "length (fst (init_txs_data_vector h blks)) = length (snd (init_txs_data_vector h blks))
   \<and> fst (init_txs_data_vector h blks) = concat (map (\<lambda>blk. miner_tx_hash blk # tx_hashes blk) blks)
   \<and> map (fst \<circ> snd) (snd (init_txs_data_vector h blks)) = concat (map (\<lambda>blk. replicate (Suc (length (tx_hashes blk))) (blk_timestamp blk)) blks)"
  by (induction h blks rule: init_txs_data_vector.induct) (auto simp: Let_def case_prod_beta map_replicate_const)

lemma find_key_images_iff:
  "find_key_images_in_mempool images vin pool \<longleftrightarrow> (\<exists>k tx. Some k \<in> set vin \<and> tx \<in> snd ` set pool \<and> k \<in> set (images tx))"
  by (induction images vin pool rule: find_key_images_in_mempool.induct) (auto simp: list_ex_iff)

text \<open>The heights that the loop visits.\<close>

definition block_range :: "u64 \<Rightarrow> u64 \<Rightarrow> u64 list" where
  "block_range a b = map of_nat [unat a..<Suc (unat b)]"

lemma last_blocks_spec:
  assumes "height < - 1"
  shows "last_blocks get_txs blk_i height =
    Some (if \<forall>i\<in>set (block_range blk_i height). get_txs i \<noteq> None
          then Some (concat (map (\<lambda>i. the (get_txs i)) (block_range blk_i height))) else None)"
proof (induction "Suc (unat height) - unat blk_i" arbitrary: blk_i)
  case 0
  then have "\<not> blk_i \<le> height" by (simp add: word_le_nat_alt)
  moreover have "block_range blk_i height = []" using 0 by (simp add: block_range_def)
  ultimately show ?case by (subst last_blocks.simps) simp
next
  case (Suc k)
  then have le: "blk_i \<le> height" by (simp add: word_le_nat_alt)
  then have "blk_i < - 1" using assms by (rule order_le_less_trans)
  then have "1 + blk_i \<noteq> 0" by (metis add.commute eq_neg_iff_add_eq_0 less_irrefl)
  then have n: "unat (blk_i + 1) = Suc (unat blk_i)" using unatSuc [of blk_i] by (simp add: add.commute)
  have range: "block_range blk_i height = blk_i # block_range (blk_i + 1) height"
  proof -
    have "[unat blk_i..<Suc (unat height)] = unat blk_i # [Suc (unat blk_i)..<Suc (unat height)]"
      using le by (intro upt_conv_Cons) (simp add: word_le_nat_alt)
    then show ?thesis by (simp only: block_range_def n list.map of_nat_unat ucast_id)
  qed
  have "k = Suc (unat height) - unat (blk_i + 1)" using Suc.hyps(2) n by simp
  from Suc.hyps(1) [OF this] show ?case
    using le range by (subst last_blocks.simps) (auto split: option.split)
qed

lemma block_range_wrapped: "unat h < 10 \<Longrightarrow> block_range (h - 10) h = []"
proof -
  assume h: "unat h < 10"
  have "unat h < unat (h - 10)"
  proof -
    have "h < 10" using h by (simp add: word_less_nat_alt)
    then have "unat (h - 10) = unat h + 2 ^ 64 - 10" using h by (subst unat_sub_if_size) (simp add: word_size word_le_nat_alt)
    then show ?thesis using h by simp
  qed
  then show ?thesis by (simp add: block_range_def)
qed

lemma block_range_eleven: "10 \<le> unat h \<Longrightarrow> block_range (h - 10) h = map of_nat [unat h - 10..<Suc (unat h)]"
proof -
  assume "10 \<le> unat h"
  then have "unat (h - 10) = unat h - 10" by (subst unat_sub_if_size) simp
  then show ?thesis by (simp add: block_range_def)
qed

section \<open>What the search finds\<close>

text \<open>The last eleven heights of the chain, none below height ten.\<close>

definition recent_heights :: "u64 \<Rightarrow> u64 list" where
  "recent_heights height = (if unat height < 10 then [] else map of_nat [unat height - 10..<Suc (unat height)])"

definition pays :: "'tx payment_view \<Rightarrow> string \<Rightarrow> u64 \<Rightarrow> 'tx \<Rightarrow> bool" where
  "pays v expected desired_amount tx \<longleftrightarrow> payment_id_of v tx = expected \<and> amount_paid v tx \<ge> desired_amount"

definition candidates :: "'tx payment_view \<Rightarrow> u64 \<Rightarrow> 'tx list" where
  "candidates v height = mempool v @ concat (map (\<lambda>i. the (block_txs_at v i)) (recent_heights height))"

lemma block_range_recent: "block_range (h - 10) h = recent_heights h"
  by (simp add: recent_heights_def block_range_wrapped block_range_eleven del: upt_Suc)

lemma search_candidates:
  assumes "height < - 1" "\<forall>i\<in>set (recent_heights height). block_txs_at v i \<noteq> None" "parse_payment_id v pid = Some expected"
  shows "search_if_payment_made v height pid desired_amount
    = Some (map_option (hash_of_tx v) (find (pays v expected desired_amount) (candidates v height)))"
  using assms by (simp add: search_if_payment_made_def last_blocks_spec block_range_recent candidates_def pays_def [abs_def])

lemma search_refused:
  assumes "height < - 1" "(\<exists>i\<in>set (recent_heights height). block_txs_at v i = None) \<or> parse_payment_id v pid = None"
  shows "search_if_payment_made v height pid desired_amount = Some None"
  using assms by (auto simp: search_if_payment_made_def last_blocks_spec block_range_recent)

lemma find_dropWhile: "find P xs = (case dropWhile (Not \<circ> P) xs of [] \<Rightarrow> None | x # _ \<Rightarrow> Some x)"
  by (induction xs) auto

text \<open>C27: below the maximal height the search for an import payment ends. It answers no when one of the
  recent blocks cannot be read or the payment id cannot be parsed; otherwise it looks at the memory pool and then at
  the blocks of the last eleven heights, in that order, and answers the hash of the first transaction
  that carries the id and pays enough, and no exactly when there is none. While the chain is below height
  ten the subtraction wraps and no block is looked at: a payment that is already in a block is not found.\<close>

theorem payment_search:
  assumes "height < - 1"
  shows "((\<exists>i\<in>set (recent_heights height). block_txs_at v i = None) \<or> parse_payment_id v pid = None
      \<longrightarrow> search_if_payment_made v height pid desired_amount = Some None)
    \<and> ((\<forall>i\<in>set (recent_heights height). block_txs_at v i \<noteq> None) \<and> parse_payment_id v pid = Some expected
      \<longrightarrow> (search_if_payment_made v height pid desired_amount = Some None
             \<longleftrightarrow> list_all (\<lambda>tx. \<not> pays v expected desired_amount tx) (candidates v height))
        \<and> (\<forall>h. search_if_payment_made v height pid desired_amount = Some (Some h)
             \<longleftrightarrow> (\<exists>tx rest. dropWhile (Not \<circ> pays v expected desired_amount) (candidates v height) = tx # rest
                    \<and> h = hash_of_tx v tx)))
    \<and> (height < 10 \<longrightarrow> candidates v height = mempool v)"
proof (intro conjI impI)
  assume "(\<exists>i\<in>set (recent_heights height). block_txs_at v i = None) \<or> parse_payment_id v pid = None"
  with assms show "search_if_payment_made v height pid desired_amount = Some None" by (rule search_refused)
next
  assume "(\<forall>i\<in>set (recent_heights height). block_txs_at v i \<noteq> None) \<and> parse_payment_id v pid = Some expected"
  then have search: "search_if_payment_made v height pid desired_amount
      = Some (map_option (hash_of_tx v) (find (pays v expected desired_amount) (candidates v height)))"
    using search_candidates [OF assms] by blast
  show "search_if_payment_made v height pid desired_amount = Some None
      \<longleftrightarrow> list_all (\<lambda>tx. \<not> pays v expected desired_amount tx) (candidates v height)"
    by (auto simp: search find_None_iff list_all_iff)
  show "\<forall>h. search_if_payment_made v height pid desired_amount = Some (Some h)
      \<longleftrightarrow> (\<exists>tx rest. dropWhile (Not \<circ> pays v expected desired_amount) (candidates v height) = tx # rest \<and> h = hash_of_tx v tx)"
    by (auto simp: search find_dropWhile simp del: dropWhile_eq_Nil_conv split: list.splits)
next
  assume "height < 10"
  then show "candidates v height = mempool v" by (simp add: candidates_def recent_heights_def word_less_nat_alt)
qed

text \<open>A chain of height five whose block three holds a sufficient payment: the answer is no.\<close>

definition young_chain :: "nat payment_view" where
  "young_chain = \<lparr>mempool = [], block_txs_at = (\<lambda>i. Some (if i = 3 then [7] else [])), parse_payment_id = Some,
     payment_id_of = (\<lambda>_. ''ab''), amount_paid = (\<lambda>_. 100), hash_of_tx = (\<lambda>_. ''h'')\<rparr>"

theorem payment_search_witness:
  "block_txs_at young_chain 3 = Some [7] \<and> pays young_chain ''ab'' 50 7
   \<and> search_if_payment_made young_chain 5 ''ab'' 50 = Some None"
proof -
  have "candidates young_chain 5 = []"
    using payment_search [of 5 young_chain "''ab''" 50 "''ab''"] by (simp add: young_chain_def)
  moreover have "recent_heights 5 = []" by (simp add: recent_heights_def)
  ultimately show ?thesis
    using payment_search [of 5 young_chain "''ab''" 50 "''ab''"] by (simp add: young_chain_def pays_def)
qed

end
