(* ===== verification/ImportRequests.thy ===== *)
theory ImportRequests
  imports RequestCore ChainStatus
begin

text \<open>
  The two handlers that import the past transactions of an account, \<open>import_wallet_request\<close> and
  \<open>import_recent_wallet_request\<close> of \<open>OpenMoneroRequests\<close> (\<open>src/src/OpenMoneroRequests.cpp\<close>): both set the scan of the
  account back, in its row, in the search thread and in the thread's copy of the row; the first one
  against a payment.
\<close>

section \<open>Decimal numbers\<close>

text \<open>\<open>std::to_string\<close>.\<close>

definition digit :: "nat \<Rightarrow> char" where
  "digit n = char_of (48 + n)"

fun decimal :: "nat \<Rightarrow> string" where
  "decimal n = (if n < 10 then [digit n] else decimal (n div 10) @ [digit (n mod 10)])"

definition to_string :: "u64 \<Rightarrow> string" where
  "to_string n = decimal (unat n)"

declare decimal.simps [simp del]

section \<open>The handlers\<close>

text \<open>
  \<open>payment_chain\<close> is what \<open>search_if_payment_made\<close> sees; \<open>random_payment_id\<close> the new id in hex,
  \<open>integrated_address\<close> the address that carries an id (\<open>None\<close> when it cannot be made, an empty string in the code),
  \<open>lexical_cast\<close> the conversion to a number. The text of a library's exception is abbreviated.
\<close>

record 'tx import_env = server_env +
  payment_chain :: "'tx payment_view"
  random_payment_id :: string
  integrated_address :: "string \<Rightarrow> string option"
  lexical_cast :: "string \<Rightarrow> u64 option"

text \<open>\<open>None\<close> is the failure; a payment with the key 0 is one that has no row yet.\<close>

definition no_payment :: XmrPayment where
  "no_payment = \<lparr>pay_id = 0, pay_account_id = 0, payment_id = [], pay_tx_hash = [], request_fulfilled = False,
     import_fee = 0, payment_address = []\<rparr>"

definition select_payment :: "XmrAccount \<Rightarrow> db \<Rightarrow> XmrPayment option" where
  "select_payment acc d =
     (case filter (\<lambda>p. pay_account_id p = acc_id acc) (Payments d) of
        [] \<Rightarrow> Some no_payment | [p] \<Rightarrow> Some p | _ \<Rightarrow> None)"

definition update_acc :: "string \<Rightarrow> XmrAccount \<Rightarrow> server \<Rightarrow> bool \<times> server" where
  "update_acc address acc s =
     (if \<not> search_thread_exist address (srv_threads s) then (False, s)
      else (True, s\<lparr>thread_accs := (thread_accs s)(address \<mapsto> acc)\<rparr>))"

text \<open>
  What both handlers do with the new row: the table, the search thread, the thread's copy; \<open>Inl\<close> is the
  message of the step that fails, with the state as it is then.
\<close>

definition move_scan :: "string \<times> string \<times> string \<Rightarrow> string \<Rightarrow> XmrAccount \<Rightarrow> XmrAccount \<Rightarrow> server \<Rightarrow> string option \<times> server" where
  "move_scan msgs address acc updated s =
     (case update_account acc updated (srv_db s) of
        (False, d) \<Rightarrow> (Some (fst msgs), s\<lparr>srv_db := d\<rparr>)
      | (True, d) \<Rightarrow>
          let s = s\<lparr>srv_db := d\<rparr>
          in case set_new_searched_blk_no address (scanned_block_height updated) (srv_threads s) of
               (False, ts) \<Rightarrow> (Some (fst (snd msgs)), s\<lparr>srv_threads := ts\<rparr>)
             | (True, ts) \<Rightarrow>
                 (case update_acc address updated (s\<lparr>srv_threads := ts\<rparr>) of
                    (False, s) \<Rightarrow> (Some (snd (snd msgs)), s)
                  | (True, s) \<Rightarrow> (None, s)))"

definition wallet_msgs :: "string \<times> string \<times> string" where
  "wallet_msgs = (''Updating scanned_block_height failed!'', ''Updating searched_blk_no failed!'', ''updating acc in search thread failed!'')"

definition recent_msgs :: "string \<times> string \<times> string" where
  "recent_msgs = (''Updating account failed!'', ''Updating searched_blk_no failed!'', ''updating acc in search thread failed!'')"

definition paid_msgs :: "string \<times> string \<times> string" where
  "paid_msgs = (''Updating scanned_block_height failed!'', ''updating searched_blk_no failed!'', ''updating acc in search thread failed!'')"

definition free_import :: "json \<Rightarrow> string \<Rightarrow> XmrAccount \<Rightarrow> server \<Rightarrow> reply \<times> server" where
  "free_import j address acc s =
     (case move_scan wallet_msgs address acc (acc\<lparr>scanned_block_height := 0, start_height := 0\<rparr>) s of
        (Some msg, s) \<Rightarrow> (session_close UNPROCESSABLE_ENTITY msg j, s)
      | (None, s) \<Rightarrow>
          (session_close OK [] (jset ''error'' (Str []) (jset ''new_request'' (Bool True)
             (jset ''status'' (Str ''Import will start shortly'') (jset ''request_fulfilled'' (Bool True) j)))), s))"

text \<open>A new record for a payment.\<close>

definition new_payment :: "('tx, 'e) import_env_scheme \<Rightarrow> json \<Rightarrow> XmrAccount \<Rightarrow> XmrPayment \<Rightarrow> server \<Rightarrow> reply \<times> server" where
  "new_payment env j acc p s =
     (let address = (case integrated_address env (random_payment_id env) of Some a \<Rightarrow> a | None \<Rightarrow> []);
          p = p\<lparr>pay_account_id := acc_id acc, payment_id := random_payment_id env, import_fee := setup_import_fee env,
                request_fulfilled := False, pay_tx_hash := [], payment_address := address\<rparr>;
          (row, d) = insert_payment p (srv_db s);
          s = s\<lparr>srv_db := d\<rparr>
      in if row = 0 then (session_close UNPROCESSABLE_ENTITY ''Failed to create new payment record!'' j, s)
         else (session_close OK [] (jset ''error'' (Str []) (jset ''status'' (Str ''Payment not yet received'')
                (jset ''payment_address'' (Str (payment_address p)) (jset ''request_fulfilled'' (Bool (request_fulfilled p))
                (jset ''new_request'' (Bool True) (jset ''import_fee'' (Str (to_string (import_fee p)))
                (jset ''payment_id'' (Number (of_nat row)) j))))))), s))"

text \<open>The record is there and open: look for the payment, mark it, and set the scan back.\<close>

definition check_payment :: "('tx, 'e) import_env_scheme \<Rightarrow> json \<Rightarrow> string \<Rightarrow> XmrAccount \<Rightarrow> XmrPayment \<Rightarrow> server \<Rightarrow> (reply \<times> server) option" where
  "check_payment env j address acc p s =
     (case integrated_address env (payment_id p) of
        None \<Rightarrow> Some (session_close UNPROCESSABLE_ENTITY ''get_account_integrated_address_as_str failed!'' j, s)
      | Some integrated \<Rightarrow>
          let j = jset ''status'' (Str ''Payment not yet received'') (jset ''payment_address'' (Str integrated)
                    (jset ''request_fulfilled'' (Bool (request_fulfilled p)) (jset ''new_request'' (Bool False)
                    (jset ''import_fee'' (Str (to_string (import_fee p))) (jset ''payment_id'' (Str (payment_id p)) j)))))
          in Option.bind (search_if_payment_made (payment_chain env) (current_height env) (payment_id p) (import_fee p))
               (\<lambda>found. Some (case found of
                  None \<Rightarrow> (session_close OK [] j, s)
                | Some h \<Rightarrow>
                    (case update_payment p (p\<lparr>request_fulfilled := True, pay_tx_hash := h\<rparr>) (srv_db s) of
                       (False, d) \<Rightarrow> (session_close UNPROCESSABLE_ENTITY ''Updating payment db failed!'' j, s\<lparr>srv_db := d\<rparr>)
                     | (True, d) \<Rightarrow>
                         (case move_scan paid_msgs address acc (acc\<lparr>scanned_block_height := 0, start_height := 0\<rparr>) (s\<lparr>srv_db := d\<rparr>) of
                            (Some msg, s) \<Rightarrow> (session_close UNPROCESSABLE_ENTITY msg j, s)
                          | (None, s) \<Rightarrow>
                              (session_close OK [] (jset ''error'' (Str []) (jset ''new_request'' (Bool True)
                                 (jset ''status'' (Str ''Payment received. Thank you.'')
                                 (jset ''request_fulfilled'' (Bool True) j)))), s))))))"

definition import_answer :: "('tx, 'e) import_env_scheme \<Rightarrow> json" where
  "import_answer env = jset ''error'' (Str ''Some error occured'') (jset ''status'' (Str ''error'')
     (jset ''import_fee'' (Str (to_string (setup_import_fee env))) (jset ''request_fulfilled'' (Bool False) Null)))"

text \<open>The outer \<open>None\<close> is the search for the payment that does not end (at the maximal height).\<close>

definition import_wallet_request :: "('tx, 'e) import_env_scheme \<Rightarrow> string \<Rightarrow> server \<Rightarrow> (reply \<times> server) option" where
  "import_wallet_request env body s =
     (case parse_request env body [''address'', ''view_key''] Null of
        Inl j \<Rightarrow> Some (session_close UNPROCESSABLE_ENTITY ''Cant parse json body!'' j, s)
      | Inr req \<Rightarrow>
          (case (get_string ''address'' req, get_string ''view_key'' req) of
             (Some address, Some view_key) \<Rightarrow>
               let j = import_answer env
               in (case select_account_of env address view_key True s of
                     (None, s) \<Rightarrow> Some (session_close UNPROCESSABLE_ENTITY ''The account login or creation failed!'' j, s)
                   | (Some acc, s) \<Rightarrow>
                       if setup_import_fee env = 0 then Some (free_import j address acc s)
                       else (case select_payment acc (srv_db s) of
                               None \<Rightarrow> Some (session_close UNPROCESSABLE_ENTITY ''Selecting payment details failed!'' j, s)
                             | Some p \<Rightarrow>
                                 if pay_id p = 0 then Some (new_payment env j acc p s)
                                 else if request_fulfilled p
                                 then Some (session_close OK [] (jset ''error'' (Str []) (jset ''new_request'' (Bool False)
                                        (jset ''status'' (Str ''Wallet already imported or in the progress.'')
                                        (jset ''import_fee'' (Number 0) (jset ''request_fulfilled'' (Bool True) j))))), s)
                                 else check_payment env j address acc p s))
           | _ \<Rightarrow> Some (session_close UNPROCESSABLE_ENTITY ''json exception'' Null, s)))"

text \<open>
  A number of blocks that is no string makes the handler of the
  exception throw again; the session is not closed then (\<open>None\<close>).
\<close>

definition import_recent_wallet_request :: "('tx, 'e) import_env_scheme \<Rightarrow> string \<Rightarrow> server \<Rightarrow> (reply \<times> server) option" where
  "import_recent_wallet_request env body s =
     (let j = jset ''request_fulfilled'' (Bool False) Null in
      case parse_request env body [''address'', ''view_key'', ''no_blocks_to_import''] j of
        Inl j \<Rightarrow> Some (session_close UNPROCESSABLE_ENTITY ''Cant parse json body!'' j, s)
      | Inr req \<Rightarrow>
          (case (get_string ''address'' req, get_string ''view_key'' req) of
             (Some address, Some view_key) \<Rightarrow>
               (case get_string ''no_blocks_to_import'' req of
                  None \<Rightarrow> None
                | Some str \<Rightarrow>
                    (case lexical_cast env str of
                       None \<Rightarrow> Some (session_close UNPROCESSABLE_ENTITY (''Cant parse '' @ str @ '' into number'') j, s)
                     | Some asked \<Rightarrow>
                         (case select_account_of env address view_key True s of
                            (None, s) \<Rightarrow> Some (session_close UNPROCESSABLE_ENTITY ''The account login or creation failed!'' j, s)
                          | (Some acc, s) \<Rightarrow>
                              let no_blocks = min (min asked (max_number_of_blocks_to_import env)) (current_height env)
                              in if scanned_block_height acc < no_blocks
                                 then Some (session_close UNPROCESSABLE_ENTITY ''scanned_block_height < no_blocks_to_import!'' j, s)
                                 else let from = (if setup_import_fee env = 0 then current_height env else scanned_block_height acc);
                                          updated = acc\<lparr>scanned_block_height := from - no_blocks\<rparr>
                                      in (case move_scan recent_msgs address acc updated s of
                                            (Some msg, s) \<Rightarrow> Some (session_close UNPROCESSABLE_ENTITY msg j, s)
                                          | (None, s) \<Rightarrow>
                                              Some (session_close OK [] (jset ''status'' (Str ''Updating account with for importing recent txs successeful.'')
                                                (jset ''request_fulfilled'' (Bool True) j)), s)))))
           | _ \<Rightarrow> Some (session_close UNPROCESSABLE_ENTITY ''json exception'' j, s)))"

section \<open>Lemmas\<close>

lemma select_account_of_known:
  assumes "select_account a (srv_db s) = Some acc"
  shows "select_account_of env a k create s = (if make_hash env k = viewkey_hash acc then Some acc else None, s)"
  using assms by (simp add: select_account_of_def)

lemma select_account_unique:
  assumes "db_ok d" "acc \<in> set (Accounts d)"
  shows "select_account (acc_address acc) d = Some acc"
proof (cases "select_account (acc_address acc) d")
  case None
  then show ?thesis using assms(2) by (auto simp: select_account_None)
next
  case (Some b)
  then have "b \<in> set (Accounts d)" "acc_address b = acc_address acc" using select_account_row by blast+
  then show ?thesis using Some keyed_find [of acc_address "Accounts d" b acc] assms by (simp add: db_ok_simps)
qed

lemma updated_row_selected:
  assumes "db_ok d" "select_account a d = Some acc" "acc_id new = acc_id acc" "acc_address new = a"
  shows "db_ok (snd (update_account acc new d))" "select_account a (snd (update_account acc new d)) = Some new"
proof -
  show ok: "db_ok (snd (update_account acc new d))" by (rule update_same_key_ok(1) [OF assms(1,3)])
  have acc: "acc \<in> set (Accounts d)" "acc_address new = acc_address acc" using select_account_row [OF assms(2)] assms(4) by simp_all
  then have "new \<in> set (Accounts (snd (update_account acc new d)))"
    unfolding update_account_row [OF assms(1) acc(1) assms(3) acc(2)] by (auto simp: image_iff)
  from select_account_unique [OF ok this] show "select_account a (snd (update_account acc new d)) = Some new"
    using assms(4) by simp
qed

lemma set_blk_no_thread:
  assumes "get_search_thread a ts = Some t"
  shows "get_searched_blk_no a (snd (set_new_searched_blk_no a n ts)) = Some n"
    "search_thread_exist a (snd (set_new_searched_blk_no a n ts))" "fst (set_new_searched_blk_no a n ts)"
proof -
  have ex: "search_thread_exist a ts"
    using assms by (auto simp: search_thread_exist_def get_search_thread_def intro: rev_image_eqI dest: map_of_SomeD)
  moreover have "search_thread_exist a (update_thread a f ts) = search_thread_exist a ts" for f
    unfolding search_thread_exist_def by (simp flip: set_map)
  ultimately show "get_searched_blk_no a (snd (set_new_searched_blk_no a n ts)) = Some n"
    "search_thread_exist a (snd (set_new_searched_blk_no a n ts))" "fst (set_new_searched_blk_no a n ts)"
    using assms by (simp_all add: set_new_searched_blk_no_def get_searched_blk_no_def get_update set_searched_blk_no_def)
qed

text \<open>What \<open>move_scan\<close> leaves: the row, the thread and the thread's copy agree.\<close>

lemma move_scan_agrees:
  assumes "db_ok (srv_db s)" "select_account a (srv_db s) = Some acc" "acc_id new = acc_id acc" "acc_address new = a"
    and "move_scan msgs a acc new s = (None, s')"
  shows "select_account a (srv_db s') = Some new \<and> db_ok (srv_db s')
    \<and> get_searched_blk_no a (srv_threads s') = Some (scanned_block_height new) \<and> thread_accs s' a = Some new"
proof -
  obtain ok d where d: "update_account acc new (srv_db s) = (ok, d)" by force
  obtain ok2 ts where ts: "set_new_searched_blk_no a (scanned_block_height new) (srv_threads s) = (ok2, ts)" by force
  have ok: ok ok2 using assms(5) d ts by (auto simp: move_scan_def Let_def split: bool.splits prod.splits)
  then obtain t where t: "get_search_thread a (srv_threads s) = Some t"
    using ts by (auto simp: set_new_searched_blk_no_def search_thread_exist_def get_search_thread_def split: if_splits
        dest: weak_map_of_SomeI)
  have s': "s' = s\<lparr>srv_db := d, srv_threads := ts, thread_accs := (thread_accs s)(a \<mapsto> new)\<rparr>"
    using assms(5) d ts ok by (auto simp: move_scan_def Let_def update_acc_def split: bool.splits prod.splits if_splits)
  show ?thesis
    using updated_row_selected [OF assms(1-4)] set_blk_no_thread [OF t, of "scanned_block_height new"] d ts by (simp add: s')
qed

lemma move_scan_db:
  "srv_db (snd (move_scan msgs a acc new s)) = snd (update_account acc new (srv_db s))"
  "fst (move_scan msgs a acc new s) = None \<longleftrightarrow> fst (update_account acc new (srv_db s)) \<and> search_thread_exist a (srv_threads s)"
proof -
  have ex: "search_thread_exist a (update_thread a f ts) = search_thread_exist a ts" for f ts
    unfolding search_thread_exist_def by (simp flip: set_map)
  show "srv_db (snd (move_scan msgs a acc new s)) = snd (update_account acc new (srv_db s))"
    by (auto simp: move_scan_def Let_def update_acc_def split: bool.splits prod.splits if_splits)
  show "fst (move_scan msgs a acc new s) = None \<longleftrightarrow> fst (update_account acc new (srv_db s)) \<and> search_thread_exist a (srv_threads s)"
    by (auto simp: move_scan_def Let_def update_acc_def set_new_searched_blk_no_def ex split: bool.splits prod.splits if_splits)
qed

lemma filter_keyed:
  assumes "keyed f rows" "r \<in> set rows"
  shows "filter (\<lambda>x. f x = f r) rows = [r]"
  using assms
proof (induction rows)
  case (Cons x rows)
  show ?case
  proof (cases "f x = f r")
    case True
    then have "x = r" using Cons.prems keyed_find [OF Cons.prems(1), of x r] by simp
    moreover have "f y \<noteq> f r" if "y \<in> set rows" for y
      using Cons.prems(1) that True by (metis image_eqI keyed_def list.set_map distinct.simps(2) list.map(2))
    ultimately show ?thesis using True by (simp add: filter_empty_conv)
  next
    case False
    then show ?thesis using Cons by (auto simp: keyed_def)
  qed
qed simp

lemma select_payment_row:
  assumes "db_ok d" "p \<in> set (Payments d)" "pay_account_id p = acc_id acc"
  shows "select_payment acc d = Some p"
  using filter_keyed [of pay_account_id "Payments d" p] assms by (simp add: select_payment_def db_ok_simps)

lemma select_payment_Some:
  "select_payment acc d = Some p \<Longrightarrow> pay_id p \<noteq> 0 \<Longrightarrow> p \<in> set (Payments d) \<and> pay_account_id p = acc_id acc"
proof -
  assume a: "select_payment acc d = Some p" "pay_id p \<noteq> 0"
  then have "filter (\<lambda>p. pay_account_id p = acc_id acc) (Payments d) = [p]"
    by (auto simp: select_payment_def no_payment_def split: list.splits)
  then have "p \<in> set (filter (\<lambda>p. pay_account_id p = acc_id acc) (Payments d))" by (simp only: list.set_intros)
  then show ?thesis by simp
qed

lemma mark_payment:
  assumes "db_ok d" "p \<in> set (Payments d)" "\<not> request_fulfilled p" and q_def: "q = p\<lparr>request_fulfilled := True, pay_tx_hash := h\<rparr>"
  obtains d' where "update_payment p q d = (True, d')" "db_ok d'" "q \<in> set (Payments d')" "Accounts d' = Accounts d"
proof -
  have keyed: "keyed pay_id (Payments d)" "keyed pay_account_id (Payments d)" "keyed payment_id (Payments d)"
    using assms(1) by (simp_all add: db_ok_simps)
  have q: "pay_id q = pay_id p" "pay_account_id q = pay_account_id p" "payment_id q = payment_id p" "q \<noteq> p"
    using assms(3) by (auto simp: q_def dest: arg_cong [of _ _ request_fulfilled])
  have own: "x = p" if "x \<in> set (Payments d)" "pay_id x = pay_id p \<or> pay_account_id x = pay_account_id p \<or> payment_id x = payment_id p" for x
    using keyed_find [OF keyed(1) that(1) assms(2)] keyed_find [OF keyed(2) that(1) assms(2)] keyed_find [OF keyed(3) that(1) assms(2)]
      that(2) by blast
  let ?d = "d\<lparr>Payments := map (\<lambda>x. if pay_id x = pay_id p then q else x) (Payments d)\<rparr>"
  have "q \<notin> set (Payments d)" using own [of q] q by blast
  moreover have "pay_account_id p \<in> acc_id ` set (Accounts d)" using assms(1,2) by (simp add: db_ok_simps)
  moreover have "pay_id p \<in> pay_id ` set (Payments d)" using assms(2) by (rule imageI)
  moreover have "pay_account_id p \<notin> pay_account_id ` set (filter (\<lambda>x. pay_id x \<noteq> pay_id p) (Payments d))"
      "payment_id p \<notin> payment_id ` set (filter (\<lambda>x. pay_id x \<noteq> pay_id p) (Payments d))"
      "pay_id p \<notin> pay_id ` set (filter (\<lambda>x. pay_id x \<noteq> pay_id p) (Payments d))"
    using own by fastforce+
  ultimately have upd: "update_payment p q d = (True, ?d)"
    by (simp add: update_payment_def Let_def q(1-3))
  have "db_ok ?d" using update_same_key_ok(2) [OF assms(1) q(1)] upd by simp
  moreover have "q \<in> set (Payments ?d)" using assms(2) by (auto simp: image_iff)
  ultimately show ?thesis using upd that by simp
qed

text \<open>The request of a known account with the right key.\<close>

definition asks_import :: "('tx, 'e) import_env_scheme \<Rightarrow> string \<Rightarrow> string \<Rightarrow> XmrAccount \<Rightarrow> server \<Rightarrow> json \<Rightarrow> bool" where
  "asks_import env body a acc s req \<longleftrightarrow> (\<exists>k. parse_json env body = Some req \<and> get_string ''address'' req = Some a
     \<and> get_string ''view_key'' req = Some k \<and> select_account a (srv_db s) = Some acc \<and> make_hash env k = viewkey_hash acc)"

text \<open>The number of blocks that the recent import goes back, and the block it goes back from.\<close>

definition recent_blocks :: "('tx, 'e) import_env_scheme \<Rightarrow> u64 \<Rightarrow> u64" where
  "recent_blocks env asked = min (min asked (max_number_of_blocks_to_import env)) (current_height env)"

definition recent_base :: "('tx, 'e) import_env_scheme \<Rightarrow> XmrAccount \<Rightarrow> u64" where
  "recent_base env acc = (if setup_import_fee env = 0 then current_height env else scanned_block_height acc)"

lemma import_known:
  assumes "asks_import env body a acc s req" "setup_import_fee env \<noteq> 0" "select_payment acc (srv_db s) = Some p" "pay_id p \<noteq> 0"
  shows "import_wallet_request env body s =
    (if request_fulfilled p
     then Some (session_close OK [] (jset ''error'' (Str []) (jset ''new_request'' (Bool False)
            (jset ''status'' (Str ''Wallet already imported or in the progress.'')
            (jset ''import_fee'' (Number 0) (jset ''request_fulfilled'' (Bool True) (import_answer env)))))), s)
     else check_payment env (import_answer env) a acc p s)"
proof -
  obtain k where k: "parse_json env body = Some req" "get_string ''address'' req = Some a" "get_string ''view_key'' req = Some k"
      "select_account a (srv_db s) = Some acc" "make_hash env k = viewkey_hash acc"
    using assms(1) by (auto simp: asks_import_def)
  have sel: "select_account_of env a k True s = (Some acc, s)" using select_account_of_known [OF k(4), of env k True] k(5) by simp
  show ?thesis
    by (simp only: import_wallet_request_def Let_def parse_address_key [OF k(1-3)] k(2,3) sel assms(2-4) sum.case prod.case option.case if_False)
qed

text \<open>The payment is there: what \<open>check_payment\<close> leaves.\<close>

lemma check_payment_found:
  assumes "db_ok (srv_db s)" "select_account a (srv_db s) = Some acc" "p \<in> set (Payments (srv_db s))" "\<not> request_fulfilled p"
    and "integrated_address env (payment_id p) = Some ia"
    and "search_if_payment_made (payment_chain env) (current_height env) (payment_id p) (import_fee p) = Some (Some h)"
  obtains r s' where "check_payment env j a acc p s = Some (r, s')"
    "p\<lparr>request_fulfilled := True, pay_tx_hash := h\<rparr> \<in> set (Payments (srv_db s'))" "db_ok (srv_db s')"
    "select_account a (srv_db s') = Some (acc\<lparr>scanned_block_height := 0, start_height := 0\<rparr>)"
    "code r = OK \<longleftrightarrow> search_thread_exist a (srv_threads s) \<and> acc \<noteq> acc\<lparr>scanned_block_height := 0, start_height := 0\<rparr>"
proof -
  let ?q = "p\<lparr>request_fulfilled := True, pay_tx_hash := h\<rparr>"
  let ?new = "acc\<lparr>scanned_block_height := 0, start_height := 0\<rparr>"
  obtain d' where d': "update_payment p ?q (srv_db s) = (True, d')" "db_ok d'" "?q \<in> set (Payments d')" "Accounts d' = Accounts (srv_db s)"
    by (rule mark_payment [OF assms(1,3,4) refl])
  obtain msg s' where m: "move_scan paid_msgs a acc ?new (s\<lparr>srv_db := d'\<rparr>) = (msg, s')" by force
  have sel: "select_account a d' = Some acc" using assms(2) d'(4) by (simp add: select_account_def)
  have acc: "acc \<in> set (Accounts d')" "acc_address ?new = a" using select_account_row [OF sel] by simp_all
  note upd = update_account_row [OF d'(2) acc(1), of ?new, simplified]
  have db: "srv_db s' = snd (update_account acc ?new d')"
    and msg: "msg = None \<longleftrightarrow> fst (update_account acc ?new d') \<and> search_thread_exist a (srv_threads s)"
    using move_scan_db [of paid_msgs a acc ?new "s\<lparr>srv_db := d'\<rparr>"] m by simp_all
  have pay: "Payments (srv_db s') = Payments d'" unfolding db upd by simp
  have ok: "db_ok (srv_db s')" "select_account a (srv_db s') = Some ?new"
    unfolding db by (rule updated_row_selected [OF d'(2) sel]; simp add: acc(2))+
  obtain r where "check_payment env j a acc p s = Some (r, s')" "code r = OK \<longleftrightarrow> msg = None"
    using assms(5,6) d'(1) m by (cases msg) (simp_all add: check_payment_def Let_def)
  moreover have "fst (update_account acc ?new d') \<longleftrightarrow> acc \<noteq> ?new" unfolding upd by auto
  ultimately show ?thesis using that [of r s'] pay d'(3) ok msg by auto
qed

section \<open>Properties\<close>


text \<open>An account at block 60 whose search thread runs, and a payment that is in the memory pool.\<close>

definition paid_chain :: "nat payment_view" where
  "paid_chain = \<lparr>mempool = [7], block_txs_at = (\<lambda>_. Some []), parse_payment_id = Some, payment_id_of = (\<lambda>_. ''p''),
     amount_paid = (\<lambda>_. 100), hash_of_tx = (\<lambda>_. ''h'')\<rparr>"

definition sample_import_env :: "u64 \<Rightarrow> nat import_env" where
  "sample_import_env fee = \<lparr>parse_json = (\<lambda>body. Some (Obj [(''address'', Str ''A''), (''view_key'', Str ''k''), (''no_blocks_to_import'', Str body)])),
     make_hash = id, parse_address = (\<lambda>_. True), parse_viewkey = Some, spawn_ok = True, block_time = (\<lambda>_. Some 9),
     seconds_now = 10, current_height = 100, setup_import_fee = fee, max_number_of_blocks_to_import = 20,
     payment_chain = paid_chain, random_payment_id = ''p'', integrated_address = Some, lexical_cast = (\<lambda>str. Some (of_nat (length str)))\<rparr>"

definition import_account :: XmrAccount where
  "import_account = \<lparr>acc_id = 1, acc_address = ''A'', viewkey_hash = ''k'', scanned_block_height = 60,
     scanned_block_timestamp = 5, start_height = 50, generated_locally = True\<rparr>"

definition import_payment :: XmrPayment where
  "import_payment = \<lparr>pay_id = 2, pay_account_id = 1, payment_id = ''p'', pay_tx_hash = [], request_fulfilled = False,
     import_fee = 50, payment_address = ''p''\<rparr>"

definition import_server :: server where
  "import_server = \<lparr>srv_db = snd (insert_payment import_payment (snd (insert_account import_account empty_db))),
     srv_threads = initial_search\<lparr>searching_threads := [(''A'', new_tx_search 60 10 ''k'')]\<rparr>, thread_accs = [''A'' \<mapsto> import_account],
     thread_known = (\<lambda>_. Map.empty)\<rparr>"

lemma import_server_ok: "db_ok (srv_db import_server)"
  unfolding import_server_def by (simp add: insert_payment_ok insert_account_ok empty_db_ok)

lemmas import_server_defs = import_server_def import_payment_def import_account_def insert_payment_def insert_account_def empty_db_def

lemma import_server_asks:
  "asks_import (sample_import_env fee) body ''A'' import_account import_server
     (Obj [(''address'', Str ''A''), (''view_key'', Str ''k''), (''no_blocks_to_import'', Str body)])"
  by (simp add: asks_import_def sample_import_env_def import_server_defs select_account_def)


text \<open>C19: an import that has to be paid waits for its payment: while the chain shows none, nothing changes.
  Once it is found, the record of the payment is marked with the transaction and the row of the account is set back to block 0,
  and every later request hears that the import was done. The client hears of the success only if a search thread of the account is
  running (and the row was not at block 0 already); otherwise the request fails although the payment is used up.\<close>

theorem paid_import:
  assumes "asks_import env body a acc s req" and "db_ok (srv_db s)" and "setup_import_fee env \<noteq> 0"
    and "select_payment acc (srv_db s) = Some p" and "pay_id p \<noteq> 0" and "\<not> request_fulfilled p"
    and "integrated_address env (payment_id p) = Some ia"
    and "search_if_payment_made (payment_chain env) (current_height env) (payment_id p) (import_fee p) = Some result"
  shows "\<exists>r s'. import_wallet_request env body s = Some (r, s')
    \<and> (case result of
         None \<Rightarrow> s' = s \<and> get_string ''status'' (response r) = Some ''Payment not yet received''
       | Some h \<Rightarrow> p\<lparr>request_fulfilled := True, pay_tx_hash := h\<rparr> \<in> set (Payments (srv_db s'))
           \<and> select_account a (srv_db s') = Some (acc\<lparr>scanned_block_height := 0, start_height := 0\<rparr>)
           \<and> (code r = OK \<longleftrightarrow> search_thread_exist a (srv_threads s) \<and> acc \<noteq> acc\<lparr>scanned_block_height := 0, start_height := 0\<rparr>)
           \<and> (\<exists>r2. import_wallet_request env body s' = Some (r2, s')
                \<and> get_string ''status'' (response r2) = Some ''Wallet already imported or in the progress.''))"
proof -
  have sel: "select_account a (srv_db s) = Some acc" using assms(1) by (auto simp: asks_import_def)
  have p: "p \<in> set (Payments (srv_db s))" "pay_account_id p = acc_id acc" using select_payment_Some [OF assms(4,5)] by auto
  note run = import_known [OF assms(1,3,4,5)]
  show ?thesis
  proof (cases result)
    case None
    then show ?thesis using assms(6-8) run by (simp add: check_payment_def Let_def)
  next
    case (Some h)
    let ?new = "acc\<lparr>scanned_block_height := 0, start_height := 0\<rparr>"
    let ?q = "p\<lparr>request_fulfilled := True, pay_tx_hash := h\<rparr>"
    obtain r s' where r: "check_payment env (import_answer env) a acc p s = Some (r, s')" "?q \<in> set (Payments (srv_db s'))"
        "db_ok (srv_db s')" "select_account a (srv_db s') = Some ?new"
        "code r = OK \<longleftrightarrow> search_thread_exist a (srv_threads s) \<and> acc \<noteq> ?new"
      using check_payment_found [OF assms(2) sel p(1) assms(6,7), of h] assms(8) Some by blast
    have later: "asks_import env body a ?new s' req" using assms(1) r(4) by (auto simp: asks_import_def)
    have "select_payment ?new (srv_db s') = Some ?q" using p(2) by (intro select_payment_row [OF r(3,2)]) simp
    from import_known [OF later assms(3) this] assms(5)
    have "\<exists>r2. import_wallet_request env body s' = Some (r2, s')
        \<and> get_string ''status'' (response r2) = Some ''Wallet already imported or in the progress.''" by simp
    then show ?thesis using r run assms(6) Some by auto
  qed
qed

theorem paid_import_witness:
  "\<exists>r s'. import_wallet_request (sample_import_env 50) [] import_server = Some (r, s') \<and> code r = OK
     \<and> import_payment\<lparr>request_fulfilled := True, pay_tx_hash := ''h''\<rparr> \<in> set (Payments (srv_db s'))"
proof -
  let ?env = "sample_import_env 50"
  have fee: "setup_import_fee ?env \<noteq> 0" by (simp add: sample_import_env_def)
  have pay: "select_payment import_account (srv_db import_server) = Some import_payment" "pay_id import_payment \<noteq> 0"
      "\<not> request_fulfilled import_payment"
    by (simp_all add: select_payment_def import_server_defs)
  have ia: "integrated_address ?env (payment_id import_payment) = Some ''p''"
    by (simp add: sample_import_env_def import_payment_def)
  have "\<forall>i\<in>set (recent_heights 100). block_txs_at paid_chain i \<noteq> None" by (simp add: paid_chain_def)
  then have found: "search_if_payment_made (payment_chain ?env) (current_height ?env) (payment_id import_payment) (import_fee import_payment) = Some (Some ''h'')"
    using search_candidates [of 100 paid_chain "''p''" "''p''" 50]
    by (simp add: sample_import_env_def import_payment_def candidates_def pays_def paid_chain_def)
  have thread: "search_thread_exist ''A'' (srv_threads import_server)" "import_account \<noteq> import_account\<lparr>scanned_block_height := 0, start_height := 0\<rparr>"
    by (simp_all add: import_server_def search_thread_exist_def import_account_def)
  from paid_import [OF import_server_asks [of 50 "[]"] import_server_ok fee pay ia found] show ?thesis using thread by auto
qed

end
