(* ===== verification/TxRecord.thy ===== *)
theory TxRecord
  imports WalletDb
begin

text \<open>
  How the search thread records the transactions of one window of blocks (\<open>TxSearch::operator()\<close>,
  \<open>src/src/TxSearch.cpp\<close> 167-603) in the database of \<open>WalletDb\<close>. What the identification of outputs and
  inputs (xmregcore) and the chain (the node's core) answer for a transaction is the record \<open>tx_info\<close>;
  the unlock test and the age constant are the record \<open>scan_env\<close>.
\<close>

section \<open>What the thread knows of a transaction\<close>

record out_info =
  oi_pub_key :: string
  oi_amount :: u64
  oi_idx_in_tx :: u64
  oi_rtc_outpk :: string
  oi_rtc_mask :: string
  oi_rtc_amount :: string

record in_info =
  ii_key_img :: string
  ii_out_pub_key :: string

text \<open>
  \<open>ti_chain_id\<close> is the result of \<open>tx_exist\<close>, \<open>ti_indices\<close> that of \<open>get_amount_specific_indices\<close> (\<open>None\<close> when they
  return false), \<open>ti_total_received\<close> that of \<open>calc_total_xmr\<close>.
\<close>

record tx_info =
  ti_hash :: string
  ti_prefix_hash :: string
  ti_pub_key :: string
  ti_unlock_time :: u64
  ti_blk_height :: u64
  ti_blk_timestamp :: u64
  ti_coinbase :: bool
  ti_version :: nat
  ti_rct_type :: nat
  ti_payment_id :: string
  ti_mixin_no :: u64
  ti_outs :: "out_info list"
  ti_ins :: "in_info list"
  ti_total_received :: u64
  ti_chain_id :: "u64 option"
  ti_indices :: "u64 list option"

record scan_env =
  spendable_age :: u64
  is_tx_unlocked :: "u64 \<Rightarrow> u64 \<Rightarrow> bool"
  account_id :: nat

datatype search_error = Cant_Delete_Tx | Tx_Not_In_Blockchain | No_Indices | Tx_Id_Zero | Index_Out_Of_Range

text \<open>How the body of the loop over the transactions ends: at its end, by \<open>continue\<close>, or by an exception.\<close>

datatype outcome = Done | Next | Raised search_error

text \<open>
  The state of the body: the tables as its connection sees them, the tables a rollback returns to (\<open>None\<close>
  while no transaction is open), the known outputs, the time stamp object that all transactions of the
  window share, and the key of the row in \<open>Transactions\<close> (0 while there is none).
\<close>

record recording =
  r_db :: db
  r_base :: "db option"
  r_known :: "string \<rightharpoonup> u64"
  r_blk_timestamp :: "u64 option"
  r_tx_id :: nat

section \<open>The steps\<close>

definition delete_existing_tx_if_exists :: "nat \<Rightarrow> string \<Rightarrow> db \<Rightarrow> bool \<times> db" where
  "delete_existing_tx_if_exists account h d =
     (case tx_exists account h d of
        Some existing \<Rightarrow> let (rows, d) = delete_tx (tx_id existing) d in (rows \<noteq> 0, d)
      | None \<Rightarrow> (True, d))"

definition window_timestamp :: "tx_info \<Rightarrow> recording \<Rightarrow> recording" where
  "window_timestamp info r =
     (case r_blk_timestamp r of None \<Rightarrow> r\<lparr>r_blk_timestamp := Some (ti_blk_timestamp info)\<rparr> | Some _ \<Rightarrow> r)"

text \<open>
  \<open>delete_existing_tx_if_exists(tx_hash_str)\<close> is called without the connection of the transaction: it takes
  another one from the pool, on which the deletion is committed at once.
\<close>

definition open_transaction :: "scan_env \<Rightarrow> tx_info \<Rightarrow> recording \<Rightarrow> search_error option \<times> recording" where
  "open_transaction env info r =
     (case r_base r of
        Some _ \<Rightarrow> (None, r)
      | None \<Rightarrow>
          let (ok, d) = delete_existing_tx_if_exists (account_id env) (ti_hash info) (r_db r);
              r = r\<lparr>r_db := d, r_base := Some d\<rparr>
          in (if ok then None else Some Cant_Delete_Tx, r))"

definition tx_unlock_time :: "scan_env \<Rightarrow> tx_info \<Rightarrow> u64" where
  "tx_unlock_time env info =
     (if ti_unlock_time info = 0 then ti_blk_height info + spendable_age env else ti_unlock_time info)"

definition mixin_no :: "tx_info \<Rightarrow> u64" where
  "mixin_no info = (if ti_coinbase info then 0 else ti_mixin_no info)"

definition tx_row :: "scan_env \<Rightarrow> tx_info \<Rightarrow> u64 \<Rightarrow> u64 \<Rightarrow> u64 \<Rightarrow> u64 \<Rightarrow> XmrTransaction" where
  "tx_row env info chain_id received sent stamp =
     \<lparr>tx_id = 0, tx_hash = ti_hash info, tx_prefix_hash = ti_prefix_hash info, tx_pub_key = ti_pub_key info,
      tx_account_id = account_id env, blockchain_tx_id = chain_id, total_received = received, total_sent = sent,
      unlock_time = tx_unlock_time env info, height = ti_blk_height info, coinbase = ti_coinbase info,
      is_rct = (ti_version info = 2), rct_type = (if ti_version info = 2 then ti_rct_type info else 0),
      spendable = is_tx_unlocked env (tx_unlock_time env info) (ti_blk_height info),
      tx_payment_id = ti_payment_id info, tx_mixin = mixin_no info, tx_timestamp = stamp\<rparr>"

definition output_row :: "scan_env \<Rightarrow> tx_info \<Rightarrow> nat \<Rightarrow> u64 \<Rightarrow> u64 \<Rightarrow> out_info \<Rightarrow> XmrOutput" where
  "output_row env info row stamp index out =
     \<lparr>out_id = 0, out_account_id = account_id env, out_tx_id = row, out_pub_key = oi_pub_key out,
      rct_outpk = oi_rtc_outpk out, rct_mask = oi_rtc_mask out, rct_amount = oi_rtc_amount out,
      out_tx_pub_key = ti_pub_key info, out_amount = oi_amount out, global_index = index,
      out_index = oi_idx_in_tx out, out_mixin = mixin_no info, out_timestamp = stamp\<rparr>"

text \<open>
  The loop over the identified outputs; \<open>amount_specific_indices.at\<close> throws beyond the end, \<open>insert\<close> into the
  known outputs keeps an entry that is there.
\<close>

fun output_rows :: "scan_env \<Rightarrow> tx_info \<Rightarrow> nat \<Rightarrow> u64 \<Rightarrow> u64 list \<Rightarrow> out_info list \<Rightarrow> (string \<rightharpoonup> u64)
    \<Rightarrow> XmrOutput list option \<times> (string \<rightharpoonup> u64)" where
  "output_rows env info row stamp indices [] known = (Some [], known)"
| "output_rows env info row stamp indices (out # outs) known =
     (if unat (oi_idx_in_tx out) < length indices
      then let known = (if oi_pub_key out \<in> dom known then known else known(oi_pub_key out \<mapsto> oi_amount out));
               (rows, known) = output_rows env info row stamp indices outs known
           in (map_option ((#) (output_row env info row stamp (indices ! unat (oi_idx_in_tx out)) out)) rows, known)
      else (None, known))"

definition stamp_of :: "recording \<Rightarrow> u64" where
  "stamp_of r = the (r_blk_timestamp r)"

text \<open>The first component; \<open>None\<close> goes on to the second.\<close>

definition record_outputs :: "scan_env \<Rightarrow> tx_info \<Rightarrow> recording \<Rightarrow> outcome option \<times> recording" where
  "record_outputs env info r =
     (if ti_outs info = [] then (None, r)
      else case open_transaction env info (window_timestamp info r) of
        (Some e, r) \<Rightarrow> (Some (Raised e), r)
      | (None, r) \<Rightarrow>
          (case ti_chain_id info of
             None \<Rightarrow> (Some (Raised Tx_Not_In_Blockchain), r)
           | Some chain_id \<Rightarrow>
               let (row, d) = insert_transaction (tx_row env info chain_id (ti_total_received info) 0 (stamp_of r)) (r_db r);
                   r = r\<lparr>r_db := d, r_tx_id := row\<rparr>
               in case ti_indices info of
                    None \<Rightarrow> (Some (Raised No_Indices), r)
                  | Some indices \<Rightarrow>
                      if row = 0 then (Some (Raised Tx_Id_Zero), r)
                      else (case output_rows env info row (stamp_of r) indices (ti_outs info) (r_known r) of
                              (None, known) \<Rightarrow> (Some (Raised Index_Out_Of_Range), r\<lparr>r_known := known\<rparr>)
                            | (Some rows, known) \<Rightarrow>
                                let (n, d) = insert_outputs rows (r_db r);
                                    r = r\<lparr>r_db := d, r_known := known\<rparr>
                                in (if n = 0 then Some Next else None, r))))"

text \<open>The inputs whose output the wallet has, and their sum in 64 bits.\<close>

fun inputs_found :: "scan_env \<Rightarrow> u64 \<Rightarrow> db \<Rightarrow> in_info list \<Rightarrow> XmrInput list" where
  "inputs_found env stamp d [] = []"
| "inputs_found env stamp d (i # is) =
     (case output_exists (ii_out_pub_key i) d of
        Some out \<Rightarrow> \<lparr>in_id = 0, in_account_id = account_id env, in_tx_id = 0, in_output_id = out_id out,
            key_image = ii_key_img i, in_amount = out_amount out, in_timestamp = stamp\<rparr> # inputs_found env stamp d is
      | None \<Rightarrow> inputs_found env stamp d is)"

definition total_sent_of :: "XmrInput list \<Rightarrow> u64" where
  "total_sent_of rows = sum_list (map in_amount rows)"

definition record_inputs :: "scan_env \<Rightarrow> tx_info \<Rightarrow> recording \<Rightarrow> outcome option \<times> recording" where
  "record_inputs env info r =
     (if ti_ins info = [] then (None, r)
      else case open_transaction env info (window_timestamp info r) of
        (Some e, r) \<Rightarrow> (Some (Raised e), r)
      | (None, r) \<Rightarrow>
          (case ti_chain_id info of
             None \<Rightarrow> (Some (Raised Tx_Not_In_Blockchain), r)
           | Some chain_id \<Rightarrow>
               let found = inputs_found env (stamp_of r) (r_db r) (ti_ins info)
               in if found = [] then (None, r)
                  else
                    let (row, d) =
                          (if r_tx_id r = 0
                           then insert_transaction (tx_row env info chain_id 0 (total_sent_of found) (stamp_of r)) (r_db r)
                           else (r_tx_id r, r_db r));
                        r = r\<lparr>r_db := d, r_tx_id := row\<rparr>
                    in if row = 0 then (Some (Raised Tx_Id_Zero), r)
                       else let (n, d) = insert_inputs (map (\<lambda>i. i\<lparr>in_tx_id := row\<rparr>) found) (r_db r)
                            in (if n = 0 then Some Next else None, r\<lparr>r_db := d\<rparr>)))"

text \<open>
  The end of the body: the transaction object is committed, or destroyed uncommitted, which rolls back;
  the counter of the row keys is not rolled back.
\<close>

definition close_transaction :: "bool \<Rightarrow> recording \<Rightarrow> recording" where
  "close_transaction commit r =
     (case r_base r of
        None \<Rightarrow> r
      | Some base \<Rightarrow> r\<lparr>r_base := None, r_db := (if commit then r_db r else base\<lparr>next_id := next_id (r_db r)\<rparr>)\<rparr>)"

definition process_tx :: "scan_env \<Rightarrow> tx_info \<Rightarrow> recording \<Rightarrow> outcome \<times> recording" where
  "process_tx env info r =
     (let r = r\<lparr>r_base := None, r_tx_id := 0\<rparr> in
      case record_outputs env info r of
        (Some stop, r) \<Rightarrow> (stop, close_transaction False r)
      | (None, r) \<Rightarrow>
          (case record_inputs env info r of
             (Some stop, r) \<Rightarrow> (stop, close_transaction False r)
           | (None, r) \<Rightarrow> (Done, close_transaction True r)))"

text \<open>The loop over the transactions of a window; an exception leaves it.\<close>

fun process_txs :: "scan_env \<Rightarrow> tx_info list \<Rightarrow> recording \<Rightarrow> search_error option \<times> recording" where
  "process_txs env [] r = (None, r)"
| "process_txs env (info # infos) r =
     (case process_tx env info r of
        (Raised e, r) \<Rightarrow> (Some e, r)
      | (_, r) \<Rightarrow> process_txs env infos r)"

section \<open>The database stays well-formed\<close>

definition rec_ok :: "recording \<Rightarrow> bool" where
  "rec_ok r \<longleftrightarrow> db_ok (r_db r) \<and> (\<forall>b. r_base r = Some b \<longrightarrow> db_ok b \<and> next_id b \<le> next_id (r_db r))"

lemma db_ok_later: "db_ok d \<Longrightarrow> next_id d \<le> n \<Longrightarrow> db_ok (d\<lparr>next_id := n\<rparr>)"
  by (fastforce simp: db_ok_simps)

lemma next_id_insert: "next_id d \<le> next_id (snd (insert_transaction t d))"
  by (simp add: insert_transaction_def)

text \<open>Working on the tables of an open transaction.\<close>

lemma rec_ok_work: "rec_ok r \<Longrightarrow> db_ok d \<Longrightarrow> next_id (r_db r) \<le> next_id d \<Longrightarrow> rec_ok (r\<lparr>r_db := d\<rparr>)"
  by (auto simp: rec_ok_def)

lemma rec_ok_fields [simp]:
  "rec_ok (r\<lparr>r_tx_id := n\<rparr>) = rec_ok r" "rec_ok (r\<lparr>r_known := k\<rparr>) = rec_ok r" "rec_ok (r\<lparr>r_blk_timestamp := t\<rparr>) = rec_ok r"
  by (simp_all add: rec_ok_def)

lemma tx_exists_Some: "tx_exists account h d = Some t \<longleftrightarrow> t \<in> set (Transactions d) \<and> tx_account_id t = account \<and> tx_hash t = h"
  if "db_ok d"
proof
  assume "t \<in> set (Transactions d) \<and> tx_account_id t = account \<and> tx_hash t = h"
  moreover then obtain u where "tx_exists account h d = Some u"
    unfolding tx_exists_def by (metis (mono_tags, lifting) find_None_iff option.exhaust)
  moreover then have "u \<in> set (Transactions d)" "tx_account_id u = account" "tx_hash u = h"
    by (auto simp: tx_exists_def find_Some_iff)
  ultimately show "tx_exists account h d = Some t"
    using that keyed_find [of "\<lambda>t. (tx_hash t, tx_account_id t)" "Transactions d" t u] by (simp add: db_ok_simps)
qed (auto simp: tx_exists_def find_Some_iff)

lemma delete_existing_spec:
  assumes "db_ok d"
  obtains d0 where "delete_existing_tx_if_exists account h d = (True, d0)" "db_ok d0"
    "Transactions d0 = filter (\<lambda>t. \<not> (tx_account_id t = account \<and> tx_hash t = h)) (Transactions d)"
    "next_id d0 = next_id d" "Accounts d0 = Accounts d"
proof (cases "tx_exists account h d")
  case None
  then have "filter (\<lambda>t. \<not> (tx_account_id t = account \<and> tx_hash t = h)) (Transactions d) = Transactions d"
    by (auto simp: tx_exists_def find_None_iff filter_id_conv)
  with None assms that [of d] show ?thesis by (simp add: delete_existing_tx_if_exists_def)
next
  case (Some t)
  then have t: "t \<in> set (Transactions d)" "tx_account_id t = account" "tx_hash t = h"
    using tx_exists_Some [OF assms] by auto
  have "tx_id u \<noteq> tx_id t \<longleftrightarrow> \<not> (tx_account_id u = account \<and> tx_hash u = h)" if "u \<in> set (Transactions d)" for u
    using keyed_find [of tx_id "Transactions d" u t] keyed_find [of "\<lambda>t. (tx_hash t, tx_account_id t)" "Transactions d" u t] that t assms
    by (auto simp: db_ok_simps)
  then have rows: "filter (\<lambda>u. tx_id u \<noteq> tx_id t) (Transactions d)
      = filter (\<lambda>t. \<not> (tx_account_id t = account \<and> tx_hash t = h)) (Transactions d)"
    by (rule filter_cong [OF refl])
  have del: "delete_tx (tx_id t) d = (1, snd (delete_tx (tx_id t) d))" using t by (simp add: delete_tx_def)
  show ?thesis
  proof (rule that)
    show "delete_existing_tx_if_exists account h d = (True, snd (delete_tx (tx_id t) d))"
      using Some by (simp add: delete_existing_tx_if_exists_def) (subst del, simp)
    show "db_ok (snd (delete_tx (tx_id t) d))" by (rule delete_tx_ok [OF assms])
  qed (use rows t in \<open>auto simp: delete_tx_def\<close>)
qed

lemma open_transaction_spec:
  assumes "rec_ok r" "r_base r = None"
  obtains d0 where "open_transaction env info r = (None, r\<lparr>r_db := d0, r_base := Some d0\<rparr>)" "db_ok d0"
    "Transactions d0 = filter (\<lambda>t. \<not> (tx_account_id t = account_id env \<and> tx_hash t = ti_hash info)) (Transactions (r_db r))"
    "next_id d0 = next_id (r_db r)" "Accounts d0 = Accounts (r_db r)"
proof -
  have ok: "db_ok (r_db r)" using assms(1) by (simp add: rec_ok_def)
  obtain d0 where d0: "delete_existing_tx_if_exists (account_id env) (ti_hash info) (r_db r) = (True, d0)" "db_ok d0"
    "Transactions d0 = filter (\<lambda>t. \<not> (tx_account_id t = account_id env \<and> tx_hash t = ti_hash info)) (Transactions (r_db r))"
    "next_id d0 = next_id (r_db r)" "Accounts d0 = Accounts (r_db r)"
    using delete_existing_spec [OF ok, of "account_id env" "ti_hash info" thesis] by blast
  then show ?thesis using assms(2) that [of d0] by (simp add: open_transaction_def)
qed

lemma open_transaction_ok: "rec_ok r \<Longrightarrow> rec_ok (snd (open_transaction env info r))"
proof (cases "r_base r")
  case None
  assume ok: "rec_ok r"
  obtain d0 where "open_transaction env info r = (None, r\<lparr>r_db := d0, r_base := Some d0\<rparr>)" "db_ok d0"
    using open_transaction_spec [OF ok None, of env info thesis] by blast
  then show ?thesis by (simp add: rec_ok_def)
qed (simp add: open_transaction_def)

lemma window_timestamp_ok [simp]: "rec_ok (window_timestamp info r) = rec_ok r" "r_db (window_timestamp info r) = r_db r"
    "r_base (window_timestamp info r) = r_base r" "r_tx_id (window_timestamp info r) = r_tx_id r"
  by (simp_all add: window_timestamp_def split: option.split)

lemma insert_transaction_step:
  "insert_transaction t d = (row, d') \<Longrightarrow> db_ok d \<Longrightarrow> db_ok d' \<and> next_id d \<le> next_id d'"
  using insert_transaction_ok [of d t] next_id_insert [of d t] by simp

lemma insert_outputs_step: "insert_outputs rows d = (n, d') \<Longrightarrow> db_ok d \<Longrightarrow> db_ok d' \<and> next_id d \<le> next_id d'"
  using insert_rows_ok(1) [of d rows] output_table.insert_rows_rest [of rows d] by simp

lemma insert_inputs_step: "insert_inputs rows d = (n, d') \<Longrightarrow> db_ok d \<Longrightarrow> db_ok d' \<and> next_id d \<le> next_id d'"
  using insert_rows_ok(2) [of d rows] input_table.insert_rows_rest [of rows d] by simp

lemma rec_ok_trans: "rec_ok r \<Longrightarrow> db_ok (r_db r') \<and> next_id (r_db r) \<le> next_id (r_db r') \<Longrightarrow> r_base r' = r_base r \<Longrightarrow> rec_ok r'"
  by (auto simp: rec_ok_def intro: order_trans)

lemma record_outputs_ok:
  assumes "rec_ok r" "record_outputs env info r = (res, r')"
  shows "rec_ok r' \<and> (ti_outs info \<noteq> [] \<longrightarrow> r_base r' = r_base (snd (open_transaction env info (window_timestamp info r))))"
proof (cases "ti_outs info = []")
  case False
  obtain e r1 where r1: "open_transaction env info (window_timestamp info r) = (e, r1)" by force
  have ok: "rec_ok r1" using open_transaction_ok [of "window_timestamp info r" env info] r1 assms(1) by simp
  then have db: "db_ok (r_db r1)" by (simp add: rec_ok_def)
  have "db_ok (r_db r') \<and> next_id (r_db r1) \<le> next_id (r_db r') \<and> r_base r' = r_base r1"
    using assms(2) False r1 db unfolding record_outputs_def
    by (auto simp: Let_def split: prod.splits option.splits if_splits
        dest!: insert_transaction_step insert_outputs_step intro: order_trans)
  then show ?thesis using rec_ok_trans [OF ok] r1 by simp
qed (use assms in \<open>simp add: record_outputs_def\<close>)

lemma record_inputs_ok:
  assumes "rec_ok r" "record_inputs env info r = (res, r')"
  shows "rec_ok r' \<and> (ti_ins info \<noteq> [] \<longrightarrow> r_base r' = r_base (snd (open_transaction env info (window_timestamp info r))))"
proof (cases "ti_ins info = []")
  case False
  obtain e r1 where r1: "open_transaction env info (window_timestamp info r) = (e, r1)" by force
  have ok: "rec_ok r1" using open_transaction_ok [of "window_timestamp info r" env info] r1 assms(1) by simp
  then have db: "db_ok (r_db r1)" by (simp add: rec_ok_def)
  have "db_ok (r_db r') \<and> next_id (r_db r1) \<le> next_id (r_db r') \<and> r_base r' = r_base r1"
    using assms(2) False r1 db unfolding record_inputs_def
    by (auto simp: Let_def split: prod.splits option.splits if_splits
        dest!: insert_transaction_step insert_inputs_step intro: order_trans)
  then show ?thesis using rec_ok_trans [OF ok] r1 by simp
qed (use assms in \<open>simp add: record_inputs_def\<close>)

lemma close_ok: "rec_ok r \<Longrightarrow> db_ok (r_db (close_transaction commit r))"
  by (auto simp: rec_ok_def close_transaction_def db_ok_later split: option.split)

lemma process_tx_ok:
  assumes "db_ok (r_db r)"
  shows "db_ok (r_db (snd (process_tx env info r)))"
proof -
  have ok: "rec_ok (r\<lparr>r_base := None, r_tx_id := 0\<rparr>)" using assms by (simp add: rec_ok_def)
  obtain res1 r1 where r1: "record_outputs env info (r\<lparr>r_base := None, r_tx_id := 0\<rparr>) = (res1, r1)" by force
  obtain res2 r2 where r2: "record_inputs env info r1 = (res2, r2)" by force
  have ok1: "rec_ok r1" using record_outputs_ok [OF ok r1] by blast
  have ok2: "rec_ok r2" using record_inputs_ok [OF ok1 r2] by blast
  show ?thesis
    using r1 r2 close_ok [OF ok1] close_ok [OF ok2] by (auto simp: process_tx_def Let_def split: option.split)
qed

lemma process_txs_ok: "db_ok (r_db r) \<Longrightarrow> db_ok (r_db (snd (process_txs env infos r)))"
proof (induction env infos r rule: process_txs.induct)
  case (2 env info infos r)
  then show ?case
    using process_tx_ok [OF "2.prems", of env info] by (auto split: prod.split outcome.split)
qed simp

section \<open>What is recorded\<close>

lemma output_rows_spec:
  "fst (output_rows env info row stamp indices outs known) =
     (if \<forall>out\<in>set outs. unat (oi_idx_in_tx out) < length indices
      then Some (map (\<lambda>out. output_row env info row stamp (indices ! unat (oi_idx_in_tx out)) out) outs) else None)"
  by (induction outs arbitrary: known) (simp_all add: Let_def case_prod_beta)

lemma insert_transaction_Some:
  "insert_transaction t d = (row, d') \<Longrightarrow> row \<noteq> 0 \<Longrightarrow>
   row = next_id d \<and> d' = d\<lparr>Transactions := Transactions d @ [t\<lparr>tx_id := next_id d\<rparr>], next_id := Suc (next_id d)\<rparr>"
  by (auto simp: insert_transaction_def split: if_splits)

text \<open>The tables after the first component of a transaction with outputs.\<close>

lemma record_outputs_content:
  assumes "rec_ok r" "r_base r = None" "ti_outs info \<noteq> []" "record_outputs env info r = (None, r1)"
  obtains d0 chain indices where "db_ok d0" "next_id d0 \<le> next_id (r_db r1)" "r_base r1 = Some d0"
    "Transactions d0 = filter (\<lambda>t. \<not> (tx_account_id t = account_id env \<and> tx_hash t = ti_hash info)) (Transactions (r_db r))"
    "ti_chain_id info = Some chain" "ti_indices info = Some indices"
    "r_tx_id r1 = next_id d0" "r_blk_timestamp r1 = Some (stamp_of (window_timestamp info r))"
    "Transactions (r_db r1) = Transactions d0
       @ [(tx_row env info chain (ti_total_received info) 0 (stamp_of (window_timestamp info r)))\<lparr>tx_id := next_id d0\<rparr>]"
    "map (\<lambda>out. out\<lparr>out_id := 0\<rparr>) (Outputs (r_db r1)) = map (\<lambda>out. out\<lparr>out_id := 0\<rparr>) (Outputs d0)
       @ map (\<lambda>out. output_row env info (next_id d0) (stamp_of (window_timestamp info r)) (indices ! unat (oi_idx_in_tx out)) out) (ti_outs info)"
    "Inputs (r_db r1) = Inputs d0"
proof -
  let ?w = "window_timestamp info r"
  let ?stamp = "stamp_of ?w"
  have stamp: "r_blk_timestamp ?w = Some ?stamp"
    by (auto simp: window_timestamp_def stamp_of_def split: option.split)
  have w: "rec_ok ?w" "r_base ?w = None" using assms(1,2) by simp_all
  obtain d0 where d0: "open_transaction env info ?w = (None, ?w\<lparr>r_db := d0, r_base := Some d0\<rparr>)" "db_ok d0"
      "Transactions d0 = filter (\<lambda>t. \<not> (tx_account_id t = account_id env \<and> tx_hash t = ti_hash info)) (Transactions (r_db r))"
    using open_transaction_spec [OF w, of env info thesis] by auto
  obtain chain where chain: "ti_chain_id info = Some chain"
    using assms(3,4) d0(1) by (cases "ti_chain_id info") (auto simp: record_outputs_def)
  define t where "t = tx_row env info chain (ti_total_received info) 0 ?stamp"
  obtain row d1 where ins: "insert_transaction t d0 = (row, d1)" by force
  obtain indices where indices: "ti_indices info = Some indices"
    using assms(3,4) d0(1) chain ins by (cases "ti_indices info") (auto simp: record_outputs_def t_def stamp_of_def Let_def)
  have row: "row \<noteq> 0"
    using assms(3,4) d0(1) chain ins indices by (auto simp: record_outputs_def t_def stamp_of_def Let_def split: if_split_asm)
  obtain rows known where rows: "output_rows env info row ?stamp indices (ti_outs info) (r_known ?w) = (rows, known)" by force
  obtain rs where rs: "rows = Some rs"
    using assms(3,4) d0(1) chain ins indices row rows by (cases rows) (auto simp: record_outputs_def t_def stamp_of_def Let_def)
  obtain n d2 where outs: "insert_outputs rs d1 = (n, d2)" by force
  have r1: "n \<noteq> 0" "r1 = ?w\<lparr>r_db := d2, r_base := Some d0, r_tx_id := row, r_known := known\<rparr>"
    using assms(3,4) d0(1) chain ins indices row rows rs outs
    by (auto simp: record_outputs_def t_def stamp_of_def Let_def split: if_splits)
  note tx = insert_transaction_Some [OF ins row]
  have rs': "rs = map (\<lambda>out. output_row env info row ?stamp (indices ! unat (oi_idx_in_tx out)) out) (ti_outs info)"
    using output_rows_spec [of env info row ?stamp indices "ti_outs info" "r_known ?w"] rows rs by (auto split: if_splits)
  have clear: "map (\<lambda>out. out\<lparr>out_id := 0\<rparr>) rs = rs" unfolding rs' by (simp add: output_row_def)
  note content = output_table.insert_rows_appends [OF outs r1(1)] output_table.insert_rows_rest [OF outs]
  show ?thesis
  proof (rule that [OF d0(2) _ _ d0(3) chain indices])
    show "next_id d0 \<le> next_id (r_db r1)"
      using insert_transaction_step [OF ins d0(2)] insert_outputs_step [OF outs] by (auto simp: r1(2))
    show "map (\<lambda>out. out\<lparr>out_id := 0\<rparr>) (Outputs (r_db r1)) = map (\<lambda>out. out\<lparr>out_id := 0\<rparr>) (Outputs d0)
       @ map (\<lambda>out. output_row env info (next_id d0) ?stamp (indices ! unat (oi_idx_in_tx out)) out) (ti_outs info)"
      using content tx clear rs' by (simp add: r1(2))
  qed (use content tx stamp in \<open>simp_all add: r1(2) t_def\<close>)
qed

text \<open>The second component behind the first: the transaction is open and the row is there.\<close>

lemma inputs_found_outputs: "Outputs d' = Outputs d \<Longrightarrow> inputs_found env stamp d' is = inputs_found env stamp d is"
  by (induction "is") (simp_all add: output_exists_def split: option.split)

lemma inputs_found_ids: "i \<in> set (inputs_found env stamp d is) \<Longrightarrow> in_id i = 0"
  by (induction "is") (auto split: option.splits)

lemma record_inputs_content:
  assumes "r_base r = Some b" "r_blk_timestamp r = Some stamp" "r_tx_id r \<noteq> 0" "record_inputs env info r = (None, r2)"
  shows "r_base r2 = Some b \<and> r_blk_timestamp r2 = Some stamp \<and> Transactions (r_db r2) = Transactions (r_db r)
    \<and> Outputs (r_db r2) = Outputs (r_db r)
    \<and> map (\<lambda>i. i\<lparr>in_id := 0\<rparr>) (Inputs (r_db r2)) = map (\<lambda>i. i\<lparr>in_id := 0\<rparr>) (Inputs (r_db r))
        @ map (\<lambda>i. i\<lparr>in_tx_id := r_tx_id r\<rparr>) (inputs_found env stamp (r_db r) (ti_ins info))"
proof (cases "ti_ins info = [] \<or> inputs_found env stamp (r_db r) (ti_ins info) = []")
  case True
  have "open_transaction env info (window_timestamp info r) = (None, r)"
    using assms(1,2) by (simp add: open_transaction_def window_timestamp_def)
  with True have "r2 = r"
    using assms(2,4) by (cases "ti_ins info = []") (auto simp: record_inputs_def stamp_of_def Let_def split: option.splits)
  then show ?thesis using True assms by auto
next
  case False
  let ?found = "inputs_found env stamp (r_db r) (ti_ins info)"
  let ?rows = "map (\<lambda>i. i\<lparr>in_tx_id := r_tx_id r\<rparr>) ?found"
  obtain n d where ins: "insert_inputs ?rows (r_db r) = (n, d)" by force
  have "open_transaction env info (window_timestamp info r) = (None, r)"
    using assms(1,2) by (simp add: open_transaction_def window_timestamp_def)
  then have r2: "n \<noteq> 0" "r2 = r\<lparr>r_db := d\<rparr>"
    using assms(2-4) False ins
    by (auto simp: record_inputs_def stamp_of_def Let_def split: option.splits if_splits)
  have "map (\<lambda>i. i\<lparr>in_id := 0\<rparr>) ?rows = ?rows"
    using inputs_found_ids by (auto intro!: map_idI)
  then show ?thesis
    using input_table.insert_rows_appends [OF ins r2(1)] input_table.insert_rows_rest [OF ins] assms(1,2) by (simp add: r2(2))
qed

lemma process_tx_done:
  assumes "process_tx env info r = (Done, r')"
  obtains r1 r2 where "record_outputs env info (r\<lparr>r_base := None, r_tx_id := 0\<rparr>) = (None, r1)"
    "record_inputs env info r1 = (None, r2)" "r' = close_transaction True r2"
proof -
  obtain res1 r1 where r1: "record_outputs env info (r\<lparr>r_base := None, r_tx_id := 0\<rparr>) = (res1, r1)" by force
  obtain res2 r2 where r2: "record_inputs env info r1 = (res2, r2)" by force
  have no: "res1 \<noteq> Some Done" "res2 \<noteq> Some Done"
    using r1 r2
    by (auto simp: record_outputs_def record_inputs_def Let_def split: if_splits option.splits prod.splits)
  show ?thesis
    using assms r1 r2 no that by (cases res1; cases res2) (auto simp: process_tx_def)
qed

lemma filter_clear: "(\<And>x. P (f x) = P x) \<Longrightarrow> map f (filter P xs) = filter P (map f xs)"
  by (induction xs) auto

section \<open>The time stamps of a window\<close>

lemma insert_transaction_rows:
  "insert_transaction t d = (row, d') \<Longrightarrow> set (Transactions d') \<subseteq> set (Transactions d) \<union> {t\<lparr>tx_id := next_id d\<rparr>}"
  by (auto simp: insert_transaction_def split: if_splits)

lemma insert_rows_transactions:
  "insert_outputs rows d = (n, d') \<Longrightarrow> Transactions d' = Transactions d"
  "insert_inputs ins d = (n, d') \<Longrightarrow> Transactions d' = Transactions d"
  by (auto dest: output_table.insert_rows_rest input_table.insert_rows_rest)

lemma delete_existing_rows:
  "delete_existing_tx_if_exists account h d = (ok, d') \<Longrightarrow> set (Transactions d') \<subseteq> set (Transactions d)"
  by (auto simp: delete_existing_tx_if_exists_def delete_tx_def Let_def split: option.splits if_splits)

definition stamped :: "XmrTransaction set \<Rightarrow> u64 \<Rightarrow> recording \<Rightarrow> bool" where
  "stamped old stamp r \<longleftrightarrow> r_blk_timestamp r = Some stamp
     \<and> (\<forall>b. r_base r = Some b \<longrightarrow> set (Transactions b) \<subseteq> old)
     \<and> (\<forall>t\<in>set (Transactions (r_db r)). t \<in> old \<or> tx_timestamp t = stamp)"

lemma stamped_open:
  assumes "stamped old stamp r" "set (Transactions (r_db r)) \<subseteq> old \<or> r_base r \<noteq> None" "open_transaction env info r = (e, r')"
  shows "stamped old stamp r'"
proof (cases "r_base r")
  case None
  obtain ok d where d: "delete_existing_tx_if_exists (account_id env) (ti_hash info) (r_db r) = (ok, d)" by force
  then have "r' = r\<lparr>r_db := d, r_base := Some d\<rparr>" using assms(3) None by (simp add: open_transaction_def)
  then show ?thesis using assms(1,2) None delete_existing_rows [OF d] by (auto simp: stamped_def)
qed (use assms in \<open>simp add: open_transaction_def\<close>)

lemma stamped_work:
  assumes "stamped old stamp r" "r_base r' = r_base r \<and> r_blk_timestamp r' = r_blk_timestamp r
    \<and> (\<forall>t\<in>set (Transactions (r_db r')). t \<in> set (Transactions (r_db r)) \<or> tx_timestamp t = stamp)"
  shows "stamped old stamp r'"
  using assms by (auto simp: stamped_def)

lemma insert_transaction_stamp:
  "insert_transaction (tx_row env info c x y stamp) d = (row, d') \<Longrightarrow>
   \<forall>t\<in>set (Transactions d'). t \<in> set (Transactions d) \<or> tx_timestamp t = stamp"
  by (auto simp: insert_transaction_def tx_row_def split: if_splits)

lemma stage_stamped:
  assumes "stamped old stamp (window_timestamp info r)" "set (Transactions (r_db r)) \<subseteq> old \<or> r_base r \<noteq> None"
  shows "\<lbrakk>ti_outs info \<noteq> []; record_outputs env info r = (res, r')\<rbrakk> \<Longrightarrow> stamped old stamp r'"
    and "\<lbrakk>ti_ins info \<noteq> []; record_inputs env info r = (res, r')\<rbrakk> \<Longrightarrow> stamped old stamp r'"
proof -
  obtain e r1 where r1: "open_transaction env info (window_timestamp info r) = (e, r1)" by force
  have st: "stamped old stamp r1" by (rule stamped_open [OF assms(1) _ r1]) (use assms(2) in auto)
  then have stamp: "stamp_of r1 = stamp" by (simp add: stamped_def stamp_of_def)
  show "stamped old stamp r'" if "ti_outs info \<noteq> []" "record_outputs env info r = (res, r')"
    using that r1 stamp unfolding record_outputs_def
    by (intro stamped_work [OF st])
      (auto simp: Let_def stamp_of_def split: prod.splits option.splits if_splits
        dest!: insert_transaction_stamp insert_rows_transactions)
  show "stamped old stamp r'" if "ti_ins info \<noteq> []" "record_inputs env info r = (res, r')"
    using that r1 stamp unfolding record_inputs_def
    by (intro stamped_work [OF st])
      (auto simp: Let_def stamp_of_def split: prod.splits option.splits if_splits
        dest!: insert_transaction_stamp insert_rows_transactions)
qed

definition found :: "tx_info \<Rightarrow> bool" where
  "found info \<longleftrightarrow> ti_outs info \<noteq> [] \<or> ti_ins info \<noteq> []"

lemma process_tx_stamps:
  assumes "process_tx env info r = (res, r')"
  shows "if found info
    then r_blk_timestamp r' = Some (stamp_of (window_timestamp info r))
      \<and> (\<forall>t\<in>set (Transactions (r_db r')). t \<in> set (Transactions (r_db r)) \<or> tx_timestamp t = stamp_of (window_timestamp info r))
    else r_blk_timestamp r' = r_blk_timestamp r \<and> r_db r' = r_db r"
proof (cases "found info")
  case True
  let ?r = "r\<lparr>r_base := None, r_tx_id := 0\<rparr>"
  let ?stamp = "stamp_of (window_timestamp info r)"
  let ?old = "set (Transactions (r_db r))"
  obtain res1 r1 where r1: "record_outputs env info ?r = (res1, r1)" by force
  obtain res2 r2 where r2: "record_inputs env info r1 = (res2, r2)" by force
  have st0: "stamped ?old ?stamp (window_timestamp info ?r)"
    by (auto simp: stamped_def window_timestamp_def stamp_of_def split: option.split)
  have r1_same: "r1 = ?r \<and> res1 = None" if "ti_outs info = []" using that r1 by (simp add: record_outputs_def)
  have st1: "stamped ?old ?stamp r1" "r_base r1 \<noteq> None" if "ti_outs info \<noteq> []"
  proof -
    show "stamped ?old ?stamp r1" by (rule stage_stamped(1) [OF st0 _ that r1]) simp
    show "r_base r1 \<noteq> None"
      using that r1 by (auto simp: record_outputs_def open_transaction_def Let_def split: prod.splits option.splits if_splits)
  qed
  have win: "stamped ?old ?stamp (window_timestamp info r1)" if "stamped ?old ?stamp r1"
    using that by (auto simp: window_timestamp_def stamped_def)
  have st2: "stamped ?old ?stamp r2"
  proof (cases "ti_ins info = []")
    case True
    then have "r2 = r1" using r2 by (simp add: record_inputs_def)
    then show ?thesis using True \<open>found info\<close> st1(1) by (simp add: found_def)
  next
    case False
    show ?thesis
    proof (cases "ti_outs info = []")
      case True
      then show ?thesis using stage_stamped(2) [OF _ _ False r2, of ?old ?stamp] r1_same st0 by auto
    next
      case outs: False
      then show ?thesis using stage_stamped(2) [OF win [OF st1(1)] _ False r2] st1(2) by blast
    qed
  qed
  have close: "stamped ?old ?stamp x \<Longrightarrow> stamped ?old ?stamp (close_transaction c x)" for c x
    by (auto simp: stamped_def close_transaction_def split: option.splits if_splits)
  have "\<exists>x c. r' = close_transaction c x \<and> stamped ?old ?stamp x"
    using assms r1 r2 st1(1) st2 r1_same by (cases res1; cases res2) (auto simp: process_tx_def)
  then have "stamped ?old ?stamp r'" using close by blast
  then show ?thesis using True by (auto simp: stamped_def)
next
  case False
  then have "r' = r\<lparr>r_base := None, r_tx_id := 0\<rparr>"
    using assms by (simp add: found_def process_tx_def record_outputs_def record_inputs_def close_transaction_def)
  then show ?thesis using False by simp
qed

lemma process_txs_stamps:
  "process_txs env infos r = (e, r') \<Longrightarrow>
   \<forall>t\<in>set (Transactions (r_db r')). t \<in> set (Transactions (r_db r))
     \<or> Some (tx_timestamp t) = (case r_blk_timestamp r of Some s \<Rightarrow> Some s | None \<Rightarrow> map_option ti_blk_timestamp (find found infos))"
proof (induction infos arbitrary: r)
  case (Cons info infos)
  obtain res r1 where p: "process_tx env info r = (res, r1)" by force
  note st = process_tx_stamps [OF p]
  have stamp: "stamp_of (window_timestamp info r) = (case r_blk_timestamp r of Some s \<Rightarrow> s | None \<Rightarrow> ti_blk_timestamp info)"
    by (simp add: stamp_of_def window_timestamp_def split: option.split)
  have rest: "r' = r1 \<or> process_txs env infos r1 = (e, r')"
    using Cons.prems p by (auto split: outcome.splits)
  then show ?case
    using Cons.IH [of r1] st stamp by (auto split: if_splits option.splits)
qed simp

section \<open>Properties\<close>


text \<open>An account, a transaction with one output of it, and a database that holds the account.\<close>

definition sample_env :: scan_env where
  "sample_env = \<lparr>spendable_age = 10, is_tx_unlocked = (\<lambda>_ _. False), account_id = 1\<rparr>"

definition sample_out :: "string \<Rightarrow> out_info" where
  "sample_out key = \<lparr>oi_pub_key = key, oi_amount = 50, oi_idx_in_tx = 0, oi_rtc_outpk = [], oi_rtc_mask = [], oi_rtc_amount = []\<rparr>"

definition sample_info :: "string \<Rightarrow> u64 \<Rightarrow> out_info list \<Rightarrow> tx_info" where
  "sample_info h time outs =
     \<lparr>ti_hash = h, ti_prefix_hash = [], ti_pub_key = [], ti_unlock_time = 0, ti_blk_height = 100, ti_blk_timestamp = time,
      ti_coinbase = False, ti_version = 2, ti_rct_type = 1, ti_payment_id = [], ti_mixin_no = 7, ti_outs = outs, ti_ins = [],
      ti_total_received = 50, ti_chain_id = Some 5, ti_indices = Some [900]\<rparr>"

definition sample_db :: db where
  "sample_db = snd (insert_account \<lparr>acc_id = 0, acc_address = ''A'', viewkey_hash = [], scanned_block_height = 0,
     scanned_block_timestamp = 0, start_height = 0, generated_locally = False\<rparr> empty_db)"

definition sample_recording :: recording where
  "sample_recording = \<lparr>r_db = sample_db, r_base = None, r_known = Map.empty, r_blk_timestamp = None, r_tx_id = 0\<rparr>"

lemmas sample_record_defs = sample_env_def sample_out_def sample_info_def sample_db_def sample_recording_def
  insert_account_def empty_db_def
lemmas record_defs = process_tx_def record_outputs_def record_inputs_def open_transaction_def window_timestamp_def
  delete_existing_tx_if_exists_def tx_exists_def insert_transaction_def insert_rows_def add_output_def output_row_def
  tx_row_def close_transaction_def Let_def stamp_of_def mixin_no_def tx_unlock_time_def delete_tx_def

lemma sample_db_ok: "db_ok sample_db"
  unfolding sample_db_def by (rule insert_account_ok [OF empty_db_ok])

lemma sample_recorded: "fst (process_tx sample_env (sample_info ''h'' 11 [sample_out ''k'']) sample_recording) = Done"
  by (simp add: record_defs sample_record_defs)



text \<open>
  The row for \<open>h\<close> exists; scanning the transaction again identifies an output key that another
  transaction of the wallet has.
\<close>

definition recorded_twice :: recording where
  "recorded_twice =
     snd (process_tx sample_env (sample_info ''g'' 12 [sample_out ''j''])
       (snd (process_tx sample_env (sample_info ''h'' 11 [sample_out ''k'']) sample_recording)))"

lemma recorded_twice_ok: "db_ok (r_db recorded_twice)"
  unfolding recorded_twice_def by (intro process_tx_ok) (simp add: sample_recording_def sample_db_ok)


text \<open>All transactions that one window records carry the block time of the first transaction of the
  window in which something was found, whatever their own block: a row that is in the database after
  the window was there before or has that time stamp.\<close>

theorem window_shares_timestamp:
  assumes "r_blk_timestamp r = None" and "process_txs env infos r = (e, r')" and "t \<in> set (Transactions (r_db r'))"
  shows "t \<in> set (Transactions (r_db r)) \<or> Some (tx_timestamp t) = map_option ti_blk_timestamp (find found infos)"
  using process_txs_stamps [OF assms(2)] assms(1,3) by auto

theorem window_shares_timestamp_witness:
  "map tx_timestamp (Transactions (r_db (snd (process_txs sample_env
      [sample_info ''h'' 11 [sample_out ''k''], sample_info ''g'' 99 [sample_out ''j'']] sample_recording)))) = [11, 11]"
proof -
  let ?infos = "[sample_info ''h'' 11 [sample_out ''k''], sample_info ''g'' 99 [sample_out ''j'']]"
  let ?p = "process_txs sample_env ?infos sample_recording"
  have eq: "?p = (fst ?p, snd ?p)" by simp
  have none: "r_blk_timestamp sample_recording = None" "Transactions (r_db sample_recording) = []"
    by (simp_all add: sample_record_defs)
  have "tx_timestamp t = 11" if "t \<in> set (Transactions (r_db (snd ?p)))" for t
    using window_shares_timestamp [OF none(1) eq that] none(2) by (simp add: found_def sample_info_def)
  moreover have "length (Transactions (r_db (snd ?p))) = 2"
    by (simp add: record_defs sample_record_defs)
  ultimately show ?thesis by (auto simp: length_Suc_conv numeral_2_eq_2)
qed

end
