(* ===== verification/RandomOuts.thy ===== *)
theory RandomOuts
  imports Prelude
begin

text \<open>
  The choice of decoy outputs (\<open>RandomOutputs\<close>, \<open>src/src/RandomOutputs.cpp\<close>). The histogram of the node, the
  key of an output and the random numbers are parameters: \<open>raw n num\<close> is the number that the \<open>n\<close>-th call
  computes from the random generator (in floating point, at most \<open>num\<close>), \<open>garbage n\<close> the bytes of the key
  variable that it finds uninitialised.
\<close>

record out_entry =
  global_amount_index :: u64
  out_key :: string

record outs_for_amount =
  ofa_amount :: u64
  ofa_outs :: "out_entry list"

record out_source =
  histogram :: "(u64 \<times> u64) list option"
  raw :: "nat \<Rightarrow> u64 \<Rightarrow> u64"
  output_pub_key :: "u64 \<Rightarrow> u64 \<Rightarrow> string option"
  garbage :: "nat \<Rightarrow> string"

definition max_no_of_trials :: nat where
  "max_no_of_trials = 100"

definition get_random_output_index :: "out_source \<Rightarrow> nat \<Rightarrow> u64 \<Rightarrow> u64" where
  "get_random_output_index src n num_outs =
     (let i = raw src n num_outs in if i = num_outs then i - 1 else i)"

text \<open>
  The \<open>while\<close> loop for one amount: \<open>seen_indices\<close> are the indices of the entries so far, \<open>n\<close> counts the calls
  of the random generator. \<open>None\<close> is the return of \<open>false\<close>; what \<open>found_outputs\<close> holds then is not kept, as the caller
  does not read it.
\<close>

function pick_outs :: "out_source \<Rightarrow> u64 \<Rightarrow> u64 \<Rightarrow> nat \<Rightarrow> nat \<Rightarrow> nat \<Rightarrow> out_entry list \<Rightarrow> (out_entry list \<times> nat) option" where
  "pick_outs src amount num_outs outs_count trial_i n outs =
     (if length outs < outs_count
      then if trial_i > max_no_of_trials then None
           else let idx = get_random_output_index src n num_outs in
                if idx \<in> global_amount_index ` set outs
                then pick_outs src amount num_outs outs_count (trial_i + 1) (n + 1) outs
                else let key = (case output_pub_key src amount idx of Some k \<Rightarrow> k | None \<Rightarrow> garbage src n)
                     in pick_outs src amount num_outs outs_count (trial_i + 1) (n + 1)
                          (outs @ [\<lparr>global_amount_index = idx, out_key = key\<rparr>])
      else Some (outs, n))"
  by pat_completeness auto
termination by (relation "measure (\<lambda>(src, amount, num, c, trial_i, n, outs). Suc max_no_of_trials - trial_i)") auto

fun outs_for_amounts :: "out_source \<Rightarrow> (u64 \<times> u64) list \<Rightarrow> nat \<Rightarrow> u64 list \<Rightarrow> nat \<Rightarrow> outs_for_amount list option" where
  "outs_for_amounts src hist outs_count [] n = Some []"
| "outs_for_amounts src hist outs_count (amount # amounts) n =
     (case map_of hist amount of
        None \<Rightarrow> None
      | Some num_outs \<Rightarrow>
          (case pick_outs src amount num_outs outs_count 0 n [] of
             None \<Rightarrow> None
           | Some (outs, n) \<Rightarrow>
               map_option ((#) \<lparr>ofa_amount = amount, ofa_outs = outs\<rparr>) (outs_for_amounts src hist outs_count amounts n)))"

definition find_random_outputs :: "out_source \<Rightarrow> nat \<Rightarrow> u64 list \<Rightarrow> outs_for_amount list option" where
  "find_random_outputs src outs_count amounts =
     (case histogram src of None \<Rightarrow> None | Some hist \<Rightarrow> outs_for_amounts src hist outs_count amounts 0)"

section \<open>The loop\<close>

declare pick_outs.simps [simp del]

definition good_out :: "out_source \<Rightarrow> u64 \<Rightarrow> u64 \<Rightarrow> out_entry \<Rightarrow> bool" where
  "good_out src amount num_outs e \<longleftrightarrow>
     (num_outs \<noteq> 0 \<longrightarrow> global_amount_index e < num_outs)
     \<and> (\<forall>k. output_pub_key src amount (global_amount_index e) = Some k \<longrightarrow> out_key e = k)"

lemma random_index_less:
  assumes "\<forall>n num. raw src n num \<le> num" "num_outs \<noteq> 0"
  shows "get_random_output_index src n num_outs < num_outs"
proof (cases "raw src n num_outs = num_outs")
  case True
  have "unat (num_outs - 1) < unat num_outs" using assms(2) by (simp add: unat_minus_one unat_gt_0)
  then have "num_outs - 1 < num_outs" by (simp add: word_less_nat_alt)
  then show ?thesis using True by (simp add: get_random_output_index_def)
next
  case False
  then show ?thesis using assms(1) by (simp add: get_random_output_index_def order.not_eq_order_implies_strict)
qed

lemma pick_outs_spec:
  "\<lbrakk>pick_outs src amount num_outs c trial_i n outs = Some (res, n'); \<forall>n num. raw src n num \<le> num;
     distinct (map global_amount_index outs); \<forall>e\<in>set outs. good_out src amount num_outs e; length outs \<le> c;
     trial_i \<le> Suc max_no_of_trials\<rbrakk> \<Longrightarrow>
   length res = c \<and> distinct (map global_amount_index res) \<and> (\<forall>e\<in>set res. good_out src amount num_outs e)
   \<and> n + c \<le> n' + length outs \<and> n' + trial_i \<le> n + Suc max_no_of_trials"
proof (induction src amount num_outs c trial_i n outs rule: pick_outs.induct)
  case (1 src amount num_outs c trial_i n outs)
  let ?idx = "get_random_output_index src n num_outs"
  let ?key = "case output_pub_key src amount ?idx of Some k \<Rightarrow> k | None \<Rightarrow> garbage src n"
  let ?e = "\<lparr>global_amount_index = ?idx, out_key = ?key\<rparr>"
  show ?case
  proof (cases "length outs < c")
    case more: True
    then have trial: "\<not> trial_i > max_no_of_trials" using "1.prems"(1) by (subst (asm) pick_outs.simps) (auto split: if_splits)
    show ?thesis
    proof (cases "?idx \<in> global_amount_index ` set outs")
      case True
      then have "pick_outs src amount num_outs c (trial_i + 1) (n + 1) outs = Some (res, n')"
        using "1.prems"(1) more trial by (subst (asm) pick_outs.simps) (simp add: Let_def)
      from "1.IH"(1) [OF more trial refl True this "1.prems"(2-5)] trial show ?thesis by auto
    next
      case False
      have good: "good_out src amount num_outs ?e"
        using random_index_less [OF "1.prems"(2)] by (auto simp: good_out_def split: option.split)
      have "pick_outs src amount num_outs c (trial_i + 1) (n + 1) (outs @ [?e]) = Some (res, n')"
        using "1.prems"(1) more trial False by (subst (asm) pick_outs.simps) (simp add: Let_def)
      from "1.IH"(2) [OF more trial refl False refl this "1.prems"(2)] show ?thesis
        using "1.prems"(3,4) False good more trial by auto
    qed
  next
    case False
    then have "res = outs \<and> n' = n" using "1.prems"(1) by (subst (asm) pick_outs.simps) simp
    then show ?thesis using "1.prems" False by simp
  qed
qed

definition good_amount :: "out_source \<Rightarrow> (u64 \<times> u64) list \<Rightarrow> nat \<Rightarrow> outs_for_amount \<Rightarrow> bool" where
  "good_amount src hist outs_count og \<longleftrightarrow>
     (\<exists>num_outs. map_of hist (ofa_amount og) = Some num_outs \<and> length (ofa_outs og) = outs_count
        \<and> distinct (map global_amount_index (ofa_outs og)) \<and> (\<forall>e\<in>set (ofa_outs og). good_out src (ofa_amount og) num_outs e))"

lemma outs_for_amounts_spec:
  "\<lbrakk>outs_for_amounts src hist outs_count amounts n = Some res; \<forall>n num. raw src n num \<le> num\<rbrakk> \<Longrightarrow>
   map ofa_amount res = amounts \<and> (\<forall>og\<in>set res. good_amount src hist outs_count og)
   \<and> (amounts \<noteq> [] \<longrightarrow> outs_count \<le> Suc max_no_of_trials)"
proof (induction amounts arbitrary: n res)
  case (Cons amount amounts)
  obtain num_outs where num: "map_of hist amount = Some num_outs" using Cons.prems(1) by (auto split: option.splits)
  obtain outs n1 where outs: "pick_outs src amount num_outs outs_count 0 n [] = Some (outs, n1)"
    using Cons.prems(1) num by (auto split: option.splits)
  obtain rest where rest: "outs_for_amounts src hist outs_count amounts n1 = Some rest"
      "res = \<lparr>ofa_amount = amount, ofa_outs = outs\<rparr> # rest"
    using Cons.prems(1) num outs by (auto split: option.splits)
  have "length outs = outs_count \<and> distinct (map global_amount_index outs) \<and> (\<forall>e\<in>set outs. good_out src amount num_outs e)
      \<and> n + outs_count \<le> n1 \<and> n1 \<le> n + Suc max_no_of_trials"
    using pick_outs_spec [OF outs Cons.prems(2)] by simp
  then show ?case using Cons.IH [OF rest(1) Cons.prems(2)] rest(2) num by (auto simp: good_amount_def)
qed simp

section \<open>Properties\<close>


definition sample_source :: out_source where
  "sample_source = \<lparr>histogram = Some [(7, 2)], raw = (\<lambda>n num. if n = 0 then 0 else num),
     output_pub_key = (\<lambda>_ _. Some ''k''), garbage = (\<lambda>_. [])\<rparr>"


end
