(* ===== verification/BalanceRequests.thy ===== *)
theory BalanceRequests
  imports ImportRequests TxRecord RandomOuts
begin

text \<open>
  The handlers that tell the client what an account has: \<open>get_address_txs\<close>, \<open>get_address_info\<close>,
  \<open>get_unspent_outs\<close> and \<open>get_random_outs\<close> of \<open>OpenMoneroRequests\<close> (\<open>src/src/OpenMoneroRequests.cpp\<close>), and the scan of the memory
  pool, \<open>TxSearch::find_txs_in_mempool\<close> (\<open>src/src/TxSearch.cpp\<close>). A reply \<open>None\<close> is an exception that leaves the
  handler, what it changed before stays. Times in milliseconds are products in 64 bits; the code takes some of them in floating point,
  which is exact for them.
\<close>

record 'tx balance_env = "'tx import_env" +
  txs_view :: chain_view
  pool :: "(u64 \<times> tx_info) list"
  fork_version :: u64
  base_fee :: u64
  random_source :: out_source
  rct_field :: "u64 \<Rightarrow> u64 \<Rightarrow> string"

definition select_output_by_id :: "nat \<Rightarrow> db \<Rightarrow> XmrOutput option" where
  "select_output_by_id row d = find (\<lambda>out. out_id out = row) (Outputs d)"

definition spent_json :: "u64 \<Rightarrow> string \<Rightarrow> XmrOutput \<Rightarrow> json" where
  "spent_json amount k out =
     Obj [(''amount'', Str (to_string amount)), (''key_image'', Str k), (''tx_pub_key'', Str (out_tx_pub_key out)),
          (''out_index'', Number (out_index out)), (''mixin'', Number (out_mixin out))]"

section \<open>The memory pool\<close>

fun pool_spendings :: "db \<Rightarrow> in_info list \<Rightarrow> json list \<times> u64" where
  "pool_spendings d [] = ([], 0)"
| "pool_spendings d (i # is) =
     (let (keys, sent) = pool_spendings d is
      in case output_exists (ii_out_pub_key i) d of
           Some out \<Rightarrow> (spent_json (out_amount out) (ii_key_img i) out # keys, out_amount out + sent)
         | None \<Rightarrow> (keys, sent))"

definition pool_json :: "u64 \<Rightarrow> u64 \<Rightarrow> tx_info \<Rightarrow> u64 \<Rightarrow> u64 \<Rightarrow> json \<Rightarrow> json" where
  "pool_json now_height time info received sent unlock =
     Obj [(''id'', Number 0), (''hash'', Str (ti_hash info)), (''tx_pub_key'', Str (ti_pub_key info)),
          (''timestamp'', Number (time * 1000)), (''total_received'', Str (to_string received)),
          (''total_sent'', Str (to_string sent)), (''unlock_time'', unlock), (''height'', Number now_height),
          (''payment_id'', Str (ti_payment_id info)), (''coinbase'', Bool False), (''is_rct'', Bool (ti_version info = 2)),
          (''rct_type'', Number (if ti_version info = 2 then of_nat (ti_rct_type info) else 0)),
          (''mixin'', Number (mixin_no info)), (''mempool'', Bool True)]"

fun find_txs_in_mempool :: "u64 \<Rightarrow> db \<Rightarrow> (u64 \<times> tx_info) list \<Rightarrow> json list \<Rightarrow> json list" where
  "find_txs_in_mempool now_height d [] js = js"
| "find_txs_in_mempool now_height d ((time, info) # txs) js =
     (let js = (if ti_outs info \<noteq> [] then js @ [pool_json now_height time info (ti_total_received info) 0 (Str ''0'')] else js);
          (keys, sent) = pool_spendings d (ti_ins info);
          js = (if keys = [] then js
                   else if ti_outs info \<noteq> []
                   then butlast js @ [jset ''spent_outputs'' (Arr keys) (jset ''total_sent'' (Str (to_string sent)) (last js))]
                   else js @ [jset ''spent_outputs'' (Arr keys) (pool_json now_height time info 0 sent (Number 0))])
      in find_txs_in_mempool now_height d txs js)"

section \<open>The transactions of an account\<close>

fun spent_outputs :: "db \<Rightarrow> XmrInput list \<Rightarrow> json list \<times> u64" where
  "spent_outputs d [] = ([], 0)"
| "spent_outputs d (i # is) =
     (let (spent, sum_all) = spent_outputs d is
      in case select_output_by_id (in_output_id i) d of
           Some out \<Rightarrow> (spent_json (in_amount i) (key_image i) out # spent, in_amount i + sum_all)
         | None \<Rightarrow> (spent, sum_all))"

definition tx_json :: "db \<Rightarrow> XmrTransaction \<Rightarrow> json" where
  "tx_json d tx =
     (let j = Obj [(''id'', Number (blockchain_tx_id tx)), (''coinbase'', Bool (coinbase tx)), (''tx_pub_key'', Str (tx_pub_key tx)),
            (''hash'', Str (tx_hash tx)), (''height'', Number (height tx)), (''mixin'', Number (tx_mixin tx)),
            (''payment_id'', Str (tx_payment_id tx)), (''unlock_time'', Number (unlock_time tx)), (''total_sent'', Number 0),
            (''total_received'', Str (to_string (total_received tx))), (''timestamp'', Number (tx_timestamp tx * 1000)),
            (''mempool'', Bool False)];
          inputs = select_inputs_for_tx (tx_id tx) d;
          (spent, sum_all) = spent_outputs d inputs
      in if inputs = [] then j else jset ''spent_outputs'' (Arr spent) (jset ''total_sent'' (Str (to_string sum_all)) j))"

text \<open>
  The transactions of the pool get ids behind the last one; \<open>None\<close> when a sum is not a string. The sums
  add up from the right here; 64-bit addition does not care.
\<close>

fun pool_entries :: "(string \<Rightarrow> u64 option) \<Rightarrow> u64 \<Rightarrow> json list \<Rightarrow> (json list \<times> u64 \<times> u64) option" where
  "pool_entries num last_id [] = Some ([], 0, 0)"
| "pool_entries num last_id (j # js) =
     (case (Option.bind (get_string ''total_received'' j) num, Option.bind (get_string ''total_sent'' j) num,
            pool_entries num (last_id + 1) js) of
        (Some received, Some sent, Some (entries, receiveds, sents)) \<Rightarrow>
          Some (jset ''id'' (Number (last_id + 1)) j # entries, received + receiveds, sent + sents)
      | _ \<Rightarrow> None)"

fun elements :: "json \<Rightarrow> json list" where
  "elements (Arr js) = js"
| "elements _ = []"

definition last_tx_id :: "json \<Rightarrow> u64" where
  "last_tx_id txs = (case elements txs of [] \<Rightarrow> 0 | js \<Rightarrow> (case get_number ''id'' (last js) of Some n \<Rightarrow> n | None \<Rightarrow> 0))"

definition add_pool :: "(string \<Rightarrow> u64 option) \<Rightarrow> json list \<Rightarrow> json \<Rightarrow> json option" where
  "add_pool num js j =
     (if js = [] then Some j
      else let txs = (case jget ''transactions'' j of Some t \<Rightarrow> t | None \<Rightarrow> Null) in
        case (pool_entries num (last_tx_id txs) js, Option.bind (get_string ''total_received'' j) num,
              Option.bind (get_string ''total_received_unlocked'' j) num) of
          (Some (entries, received, sent), Some sum_all, Some unlocked) \<Rightarrow>
            Some (jset ''total_received_unlocked'' (Str (to_string (unlocked + received - sent)))
              (jset ''total_received'' (Str (to_string (sum_all + received - sent)))
                (jset ''transactions'' (Arr (elements txs @ entries)) j)))
        | _ \<Rightarrow> None)"

definition account_json :: "('tx, 'e) balance_env_scheme \<Rightarrow> XmrAccount \<Rightarrow> json \<Rightarrow> json" where
  "account_json env acc j =
     jset ''blockchain_height'' (Number (current_height env)) (jset ''scanned_block_timestamp'' (Number (scanned_block_timestamp acc))
       (jset ''scanned_block_height'' (Number (scanned_block_height acc)) (jset ''start_height'' (Number (start_height acc)) j)))"

definition txs_template :: json where
  "txs_template = Obj [(''total_received'', Number 0), (''total_received_unlocked'', Number 0), (''scanned_height'', Number 0),
     (''scanned_block_height'', Number 0), (''scanned_block_timestamp'', Number 0), (''start_height'', Number 0),
     (''blockchain_height'', Number 0), (''transactions'', Arr [])]"

definition get_address_txs :: "('tx, 'e) balance_env_scheme \<Rightarrow> string \<Rightarrow> server \<Rightarrow> reply option \<times> server" where
  "get_address_txs env body s =
     (case parse_request env body [''address'', ''view_key''] Null of
        Inl j \<Rightarrow> (Some (session_close OK [] j), s)
      | Inr req \<Rightarrow>
          (case (get_string ''address'' req, get_string ''view_key'' req) of
             (Some address, Some view_key) \<Rightarrow>
               (case login_and_start_search_thread env address view_key txs_template s of
                  (None, _, s) \<Rightarrow> (Some (session_close OK [] (error_json ''Search thread does not exist.'')), s)
                | (Some acc, j, s) \<Rightarrow>
                    let j = account_json env acc (jset ''total_received'' (Number 0) j);
                        txs = select_transactions (acc_id acc) (srv_db s);
                        (ok, txs, d) = spendability_check (txs_view env) txs (srv_db s);
                        s = s\<lparr>srv_db := d\<rparr>;
                        j = (if ok
                             then jset ''transactions'' (Arr (map (tx_json d) txs))
                               (jset ''total_received_unlocked'' (Str (to_string (\<Sum>t\<leftarrow>filter spendable txs. total_received t)))
                               (jset ''total_received'' (Str (to_string (\<Sum>t\<leftarrow>txs. total_received t))) j))
                             else j)
                    in if search_thread_exist address (srv_threads s)
                       then (map_option (session_close OK [])
                               (add_pool (lexical_cast env) (find_txs_in_mempool (current_height env) d (pool env) []) j), s)
                       else (Some (session_close OK [] j), s))
           | _ \<Rightarrow> (Some (session_close UNPROCESSABLE_ENTITY [] Null), s)))"

section \<open>The balance of an account\<close>

text \<open>The loop over the outputs of one transaction: the spent outputs, what was received and what was sent.\<close>

definition info_of_out :: "db \<Rightarrow> XmrOutput \<Rightarrow> json list \<times> u64 \<times> u64" where
  "info_of_out d out =
     (let ins = select_inputs_for_out (out_id out) d
      in (map (\<lambda>i. spent_json (in_amount i) (key_image i) out) ins, out_amount out, \<Sum>i\<leftarrow>ins. in_amount i))"

fun info_of_outs :: "db \<Rightarrow> XmrOutput list \<Rightarrow> json list \<times> u64 \<times> u64" where
  "info_of_outs d [] = ([], 0, 0)"
| "info_of_outs d (out # outs) =
     (let (spent, received, sent) = info_of_out d out;
          (spents, receiveds, sents) = info_of_outs d outs
      in (spent @ spents, received + receiveds, sent + sents))"

fun info_of_txs :: "db \<Rightarrow> XmrTransaction list \<Rightarrow> json list \<times> u64 \<times> u64" where
  "info_of_txs d [] = ([], 0, 0)"
| "info_of_txs d (tx # txs) =
     (let (spent, received, sent) = info_of_outs d (select_outputs_for_tx (tx_id tx) d);
          (spents, receiveds, sents) = info_of_txs d txs
      in (spent @ spents, received + receiveds, sent + sents))"

text \<open>A row that was set back by more than ten blocks by hand moves the search.\<close>

definition follow_row :: "string \<Rightarrow> XmrAccount \<Rightarrow> server \<Rightarrow> server" where
  "follow_row address acc s =
     (case get_searched_blk_no address (srv_threads s) of
        Some searched \<Rightarrow>
          if searched > scanned_block_height acc + 10
          then s\<lparr>srv_threads := snd (set_new_searched_blk_no address (scanned_block_height acc) (srv_threads s))\<rparr> else s
      | None \<Rightarrow> s)"

definition info_template :: json where
  "info_template = Obj [(''locked_funds'', Str ''0''), (''total_received'', Str ''0''), (''total_sent'', Str ''0''),
     (''scanned_height'', Number 0), (''scanned_block_height'', Number 0), (''scanned_block_timestamp'', Number 0),
     (''start_height'', Number 0), (''blockchain_height'', Number 0), (''spent_outputs'', Null)]"

definition get_address_info :: "('tx, 'e) balance_env_scheme \<Rightarrow> string \<Rightarrow> server \<Rightarrow> reply \<times> server" where
  "get_address_info env body s =
     (case parse_request env body [''address'', ''view_key''] Null of
        Inl j \<Rightarrow> (session_close OK [] j, s)
      | Inr req \<Rightarrow>
          (case (get_string ''address'' req, get_string ''view_key'' req) of
             (Some address, Some view_key) \<Rightarrow>
               (case login_and_start_search_thread env address view_key info_template s of
                  (None, _, s) \<Rightarrow> (session_close OK [] (error_json ''Search thread does not exist.''), s)
                | (Some acc, j, s) \<Rightarrow>
                    let s = s\<lparr>srv_threads := snd (ping_search_thread (unat (seconds_now env)) address (srv_threads s))\<rparr>;
                        s = follow_row address acc s;
                        j = account_json env acc (jset ''total_received'' (Str (to_string 0)) j);
                        (ok, txs, d) = spendability_check (txs_view env) (select_transactions (acc_id acc) (srv_db s)) (srv_db s);
                        s = s\<lparr>srv_db := d\<rparr>;
                        (spent, received, sent) = info_of_txs d txs;
                        j = (if ok then jset ''spent_outputs'' (Arr spent) (jset ''total_sent'' (Str (to_string sent))
                               (jset ''total_received'' (Str (to_string received)) j)) else j)
                    in (session_close OK [] j, s))
           | _ \<Rightarrow> (session_close OK [] Null, s)))"

section \<open>Outputs to spend\<close>

definition get_rct :: "XmrOutput \<Rightarrow> string" where
  "get_rct out = rct_outpk out @ rct_mask out @ rct_amount out"

definition rct_of :: "XmrTransaction \<Rightarrow> XmrOutput \<Rightarrow> string" where
  "rct_of tx out =
     (if \<not> is_rct tx then []
      else if rct_type tx = 0 then ''coinbase''
      else if rct_type tx = 5 then rct_outpk out @ rct_mask out @ rct_amount out
      else if rct_type tx = 6 then rct_outpk out @ take 16 (rct_amount out)
      else get_rct out)"

definition out_json :: "db \<Rightarrow> XmrTransaction \<Rightarrow> XmrOutput \<Rightarrow> json" where
  "out_json d tx out =
     Obj [(''amount'', Str (to_string (out_amount out))), (''public_key'', Str (out_pub_key out)), (''index'', Number (out_index out)),
          (''global_index'', Number (global_index out)), (''rct'', Str (rct_of tx out)), (''tx_id'', Number (of_nat (out_tx_id out))),
          (''tx_hash'', Str (tx_hash tx)), (''tx_prefix_hash'', Str (tx_prefix_hash tx)), (''tx_pub_key'', Str (tx_pub_key tx)),
          (''timestamp'', Number (out_timestamp out * 1000)), (''height'', Number (height tx)),
          (''spend_key_images'', Arr (map (\<lambda>i. Str (key_image i)) (select_inputs_for_out (out_id out) d)))]"

fun unspent_of_outs :: "db \<Rightarrow> u64 \<Rightarrow> XmrTransaction \<Rightarrow> XmrOutput list \<Rightarrow> json list \<times> u64" where
  "unspent_of_outs d dust tx [] = ([], 0)"
| "unspent_of_outs d dust tx (out # outs) =
     (let (js, sum_all) = unspent_of_outs d dust tx outs
      in if out_amount out < dust then (js, sum_all) else (out_json d tx out # js, out_amount out + sum_all))"

fun unspent_of_txs :: "chain_view \<Rightarrow> db \<Rightarrow> u64 \<Rightarrow> XmrTransaction list \<Rightarrow> json list \<times> u64" where
  "unspent_of_txs c d dust [] = ([], 0)"
| "unspent_of_txs c d dust (tx # txs) =
     (let (js, sum_all) = unspent_of_txs c d dust txs
      in if \<not> view_unlocked c (unlock_time tx) (height tx) then (js, sum_all)
         else let (outs, amount) = unspent_of_outs d dust tx (select_outputs_for_tx (tx_id tx) d)
              in (outs @ js, amount + sum_all))"

definition outs_template :: "u64 \<Rightarrow> json" where
  "outs_template fork = Obj [(''amount'', Str ''0''), (''fork_version'', Number fork), (''outputs'', Arr [])]"

definition get_unspent_outs :: "('tx, 'e) balance_env_scheme \<Rightarrow> string \<Rightarrow> server \<Rightarrow> reply \<times> server" where
  "get_unspent_outs env body s =
     (case parse_request env body [''address'', ''view_key'', ''mixin'', ''use_dust'', ''dust_threshold'', ''amount''] Null of
        Inl j \<Rightarrow> (session_close OK [] j, s)
      | Inr req \<Rightarrow>
          (case (get_string ''address'' req, get_string ''view_key'' req, get_number ''mixin'' req, get_bool ''use_dust'' req,
                 Option.bind (get_string ''dust_threshold'' req) (lexical_cast env), Option.bind (get_string ''amount'' req) (lexical_cast env)) of
             (Some address, Some view_key, Some mixin, Some use_dust, Some dust, Some amount) \<Rightarrow>
               if \<not> search_thread_exist address (srv_threads s)
               then (session_close OK [] (error_json ''Search thread does not exist.''), s)
               else (case login_and_start_search_thread env address view_key (outs_template (fork_version env)) s of
                       (None, j, s) \<Rightarrow> (session_close OK [] j, s)
                     | (Some acc, j, s) \<Rightarrow>
                         let (outs, sum_all) = unspent_of_txs (txs_view env) (srv_db s) dust (select_transactions (acc_id acc) (srv_db s))
                         in (session_close OK [] (jset ''per_byte_fee'' (Number (base_fee env))
                               (jset ''amount'' (Str (to_string sum_all)) (jset ''outputs'' (Arr outs) j))), s))
           | _ \<Rightarrow> (session_close OK [] Null, s)))"

section \<open>Decoys\<close>

text \<open>What the loop \<open>for (json amount: j)\<close> goes over.\<close>

fun iterate :: "json \<Rightarrow> json list" where
  "iterate Null = []"
| "iterate (Arr js) = js"
| "iterate (Obj kv) = map snd kv"
| "iterate j = [j]"

text \<open>
  The amounts; \<open>Inl True\<close> is an element that is no string (an exception that leaves the handler), \<open>Inl False\<close> one
  that is no number.
\<close>

fun read_amounts :: "(string \<Rightarrow> u64 option) \<Rightarrow> json list \<Rightarrow> bool + u64 list" where
  "read_amounts num [] = Inr []"
| "read_amounts num (j # js) =
     (case as_string j of
        None \<Rightarrow> Inl True
      | Some str \<Rightarrow>
          (case num str of
             None \<Rightarrow> Inl False
           | Some n \<Rightarrow> (case read_amounts num js of Inl e \<Rightarrow> Inl e | Inr ns \<Rightarrow> Inr (n # ns))))"

definition decoys_json :: "('tx, 'e) balance_env_scheme \<Rightarrow> outs_for_amount \<Rightarrow> json" where
  "decoys_json env outs =
     Obj [(''amount'', Str (to_string (ofa_amount outs))),
          (''outputs'', Arr (map (\<lambda>out. Obj [(''global_index'', Number (global_amount_index out)), (''public_key'', Str (out_key out)),
             (''rct'', Str (rct_field env (global_amount_index out) (ofa_amount outs)))]) (ofa_outs outs)))]"

text \<open>All replies of the handler, and whether an exception leaves it.\<close>

definition get_random_outs :: "('tx, 'e) balance_env_scheme \<Rightarrow> string \<Rightarrow> reply list \<times> bool" where
  "get_random_outs env body =
     (case parse_request env body [] Null of
        Inl j \<Rightarrow> ([session_close OK [] j], False)
      | Inr req \<Rightarrow>
          (case get_number ''count'' req of
             None \<Rightarrow> ([session_close OK [] Null], False)
           | Some count \<Rightarrow>
               let j = (if count > 41 then jset ''error'' (Str ''Request ring size too large'') (jset ''status'' (Str ''error'') Null) else Null);
                   first = (if count > 41 then [session_close OK [] j] else [])
               in case read_amounts (lexical_cast env) (case jget ''amounts'' req of Some v \<Rightarrow> iterate v | None \<Rightarrow> []) of
                    Inl True \<Rightarrow> (first, True)
                  | Inl False \<Rightarrow> (first @ [session_close OK [] j], False)
                  | Inr amounts \<Rightarrow>
                      (case find_random_outputs (random_source env) (unat count) amounts of
                         Some js \<Rightarrow>
                           (first @ [session_close OK [] (if js = [] then jset ''amount_outs'' Null j
                              else jset ''amount_outs'' (Arr (map (decoys_json env) js)) j)], False)
                       | None \<Rightarrow> (first @ [session_close OK [] (jset ''error'' (Str ''Error getting random outputs from monero deamon'')
                              (jset ''status'' (Str ''error'') j))], False))))"

section \<open>Lemmas\<close>

lemma login_thread_wrong_key:
  assumes "select_account a (srv_db s) = Some acc" "make_hash env k \<noteq> viewkey_hash acc"
  shows "login_and_start_search_thread env a k j s = (None, error_json ''Viewkey provided is incorrect'', s)"
  using assms by (simp add: login_and_start_search_thread_def)

lemma login_thread_running:
  assumes "select_account a (srv_db s) = Some acc" "make_hash env k = viewkey_hash acc" "search_thread_exist a (srv_threads s)"
  shows "login_and_start_search_thread env a k j s
    = (Some acc, jset ''new_address'' (Bool False) (jset ''status'' (Str ''success'') j), s)"
  using assms select_account_row [OF assms(1)] by (simp add: login_and_start_search_thread_def)

text \<open>Sums over the rows that belong to one of several keys.\<close>

lemma sum_list_grouped:
  fixes g :: "'r \<Rightarrow> u64"
  assumes "distinct ids"
  shows "(\<Sum>i\<leftarrow>ids. \<Sum>x\<leftarrow>filter (\<lambda>x. f x = i) rows. g x) = (\<Sum>x\<leftarrow>filter (\<lambda>x. f x \<in> set ids) rows. g x)"
  using assms
proof (induction ids)
  case (Cons i ids)
  have "(\<Sum>x\<leftarrow>filter (\<lambda>x. f x \<in> insert i (set ids)) rows. g x)
      = (\<Sum>x\<leftarrow>filter (\<lambda>x. f x = i) rows. g x) + (\<Sum>x\<leftarrow>filter (\<lambda>x. f x \<in> set ids) rows. g x)"
    using Cons.prems by (induction rows) auto
  then show ?case using Cons by simp
qed simp

lemma info_of_outs_sums:
  "fst (snd (info_of_outs d outs)) = (\<Sum>out\<leftarrow>outs. out_amount out)"
  "snd (snd (info_of_outs d outs)) = (\<Sum>out\<leftarrow>outs. \<Sum>i\<leftarrow>select_inputs_for_out (out_id out) d. in_amount i)"
  by (induction outs) (simp_all add: info_of_out_def Let_def case_prod_beta)

lemma info_of_txs_sums:
  "fst (snd (info_of_txs d txs)) = (\<Sum>row\<leftarrow>map tx_id txs. \<Sum>out\<leftarrow>filter (\<lambda>out. out_tx_id out = row) (Outputs d). out_amount out)"
  "snd (snd (info_of_txs d txs)) = (\<Sum>row\<leftarrow>map tx_id txs. \<Sum>out\<leftarrow>filter (\<lambda>out. out_tx_id out = row) (Outputs d).
     \<Sum>i\<leftarrow>select_inputs_for_out (out_id out) d. in_amount i)"
  by (induction txs) (simp_all add: info_of_outs_sums Let_def case_prod_beta select_outputs_for_tx_def)

text \<open>The outputs that the wallet has for an account, and the inputs that may spend them.\<close>

definition account_outputs :: "nat \<Rightarrow> db \<Rightarrow> XmrOutput list" where
  "account_outputs a d = filter (\<lambda>out. out_tx_id out \<in> tx_id ` set (select_transactions a d)) (Outputs d)"

definition account_inputs :: "nat \<Rightarrow> db \<Rightarrow> XmrInput list" where
  "account_inputs a d = filter (\<lambda>i. in_output_id i \<in> out_id ` set (account_outputs a d)) (Inputs d)"

lemma info_of_account:
  assumes "db_ok d" "map tx_id txs = map tx_id (select_transactions a d)"
  shows "fst (snd (info_of_txs d txs)) = (\<Sum>out\<leftarrow>account_outputs a d. out_amount out)"
    "snd (snd (info_of_txs d txs)) = (\<Sum>i\<leftarrow>account_inputs a d. in_amount i)"
proof -
  have "distinct (map tx_id (Transactions d))" "distinct (map out_id (Outputs d))" using assms(1) by (simp_all add: db_ok_simps keyed_def)
  then have ids: "distinct (map tx_id txs)" "distinct (map out_id (account_outputs a d))"
    unfolding assms(2) by (simp_all add: select_transactions_def account_outputs_def distinct_map_filter)
  have outs: "filter (\<lambda>out. out_tx_id out \<in> set (map tx_id txs)) (Outputs d) = account_outputs a d"
    unfolding assms(2) by (simp add: account_outputs_def)
  show "fst (snd (info_of_txs d txs)) = (\<Sum>out\<leftarrow>account_outputs a d. out_amount out)"
    unfolding info_of_txs_sums sum_list_grouped [OF ids(1)] outs ..
  have "snd (snd (info_of_txs d txs)) = (\<Sum>row\<leftarrow>map out_id (account_outputs a d). \<Sum>i\<leftarrow>filter (\<lambda>i. in_output_id i = row) (Inputs d). in_amount i)"
    unfolding info_of_txs_sums sum_list_grouped [OF ids(1)] outs by (simp add: select_inputs_for_out_def comp_def)
  also have "\<dots> = (\<Sum>i\<leftarrow>account_inputs a d. in_amount i)"
    unfolding sum_list_grouped [OF ids(2)] by (simp add: account_inputs_def)
  finally show "snd (snd (info_of_txs d txs)) = (\<Sum>i\<leftarrow>account_inputs a d. in_amount i)" .
qed

lemma shown_ids:
  "map tx_id (map (shown_row c) (filter (\<lambda>t. checked_row c t \<noteq> None) txs)) = map tx_id (List.map_filter (checked_row c) txs)"
proof (induction txs)
  case (Cons t txs)
  then show ?case by (auto simp: map_filter_simps shown_row_def checked_row_def)
qed (simp add: map_filter_simps)

lemma unspent_of_outs_sum:
  "snd (unspent_of_outs d dust tx outs) = (\<Sum>out\<leftarrow>filter (\<lambda>out. dust \<le> out_amount out) outs. out_amount out)"
  "fst (unspent_of_outs d dust tx outs) = map (out_json d tx) (filter (\<lambda>out. dust \<le> out_amount out) outs)"
  by (induction outs) (auto simp: Let_def case_prod_beta)

lemma unspent_of_txs_sum:
  "snd (unspent_of_txs c d dust txs) = (\<Sum>row\<leftarrow>map tx_id (filter (\<lambda>t. view_unlocked c (unlock_time t) (height t)) txs).
     \<Sum>out\<leftarrow>filter (\<lambda>out. out_tx_id out = row) (filter (\<lambda>out. dust \<le> out_amount out) (Outputs d)). out_amount out)"
  by (induction txs) (simp_all add: unspent_of_outs_sum Let_def case_prod_beta select_outputs_for_tx_def conj_commute)

text \<open>The outputs that can be offered to the client: of unlocked transactions, and not dust.\<close>

definition spendable_outputs :: "chain_view \<Rightarrow> u64 \<Rightarrow> nat \<Rightarrow> db \<Rightarrow> XmrOutput list" where
  "spendable_outputs c dust a d = filter (\<lambda>out. \<exists>t\<in>set (select_transactions a d).
     view_unlocked c (unlock_time t) (height t) \<and> tx_id t = out_tx_id out) (filter (\<lambda>out. dust \<le> out_amount out) (Outputs d))"

lemma unspent_of_account:
  assumes "db_ok d"
  shows "snd (unspent_of_txs c d dust (select_transactions a d)) = (\<Sum>out\<leftarrow>spendable_outputs c dust a d. out_amount out)"
proof -
  let ?txs = "filter (\<lambda>t. view_unlocked c (unlock_time t) (height t)) (select_transactions a d)"
  have ids: "distinct (map tx_id ?txs)"
    using assms by (simp add: db_ok_simps keyed_def select_transactions_def distinct_map_filter)
  have eq: "(\<lambda>out. out_tx_id out \<in> set (map tx_id ?txs))
      = (\<lambda>out. \<exists>t\<in>set (select_transactions a d). view_unlocked c (unlock_time t) (height t) \<and> tx_id t = out_tx_id out)"
    by (force simp: fun_eq_iff image_iff)
  show ?thesis unfolding unspent_of_txs_sum sum_list_grouped [OF ids] spendable_outputs_def eq ..
qed

lemma follow_row_db [simp]: "srv_db (follow_row a acc s) = srv_db s"
  by (simp add: follow_row_def split: option.split)

text \<open>The request of a known account with the right key whose search runs.\<close>

definition asks_balance :: "('tx, 'e) balance_env_scheme \<Rightarrow> string \<Rightarrow> string \<Rightarrow> XmrAccount \<Rightarrow> server \<Rightarrow> json \<Rightarrow> bool" where
  "asks_balance env body a acc s req \<longleftrightarrow> asks_import env body a acc s req \<and> search_thread_exist a (srv_threads s) \<and> db_ok (srv_db s)"

text \<open>A ring size that is too big is refused, and the request is answered all the same, on a closed session.\<close>

lemma random_outs_answers_twice:
  assumes "parse_json env body = Some req" "get_number ''count'' req = Some n" "41 < n" "jget ''amounts'' req = Some (Arr [])"
    and "find_random_outputs (random_source env) (unat n) [] = Some []"
  shows "\<exists>r1 r2. get_random_outs env body = ([r1, r2], False) \<and> get_string ''error'' (response r1) = Some ''Request ring size too large''"
  using assms by (simp add: get_random_outs_def parse_request_def Let_def)

section \<open>Properties\<close>


text \<open>The server of the imports, with one output of 50 in a transaction of the account.\<close>

definition balance_output :: XmrOutput where
  "balance_output = \<lparr>out_id = 0, out_account_id = 1, out_tx_id = 3, out_pub_key = ''o'', rct_outpk = [], rct_mask = [], rct_amount = [],
     out_tx_pub_key = [], out_amount = 50, global_index = 8, out_index = 0, out_mixin = 7, out_timestamp = 11\<rparr>"

definition balance_server :: server where
  "balance_server = import_server\<lparr>srv_db := snd (insert_outputs [balance_output] (snd (insert_transaction wallet_tx (srv_db import_server))))\<rparr>"

definition balance_request :: "string \<Rightarrow> json" where
  "balance_request body = Obj [(''address'', Str ''A''), (''view_key'', Str body), (''mixin'', Number 7), (''use_dust'', Bool False),
     (''dust_threshold'', Str []), (''amount'', Str [])]"

definition sample_balance_env :: "nat balance_env" where
  "sample_balance_env = \<lparr>parse_json = (\<lambda>body. Some (balance_request body)), make_hash = id, parse_address = (\<lambda>_. True),
     parse_viewkey = Some, spawn_ok = True, block_time = (\<lambda>_. Some 9), seconds_now = 10, current_height = 100, setup_import_fee = 0,
     max_number_of_blocks_to_import = 20, payment_chain = paid_chain, random_payment_id = ''p'', integrated_address = Some,
     lexical_cast = (\<lambda>str. Some (of_nat (length str))), txs_view = wallet_view, pool = [], fork_version = 12, base_fee = 1,
     random_source = sample_source, rct_field = (\<lambda>_ _. [])\<rparr>"

lemma balance_server_ok: "db_ok (srv_db balance_server)"
  unfolding balance_server_def by (simp add: insert_rows_ok insert_transaction_ok import_server_ok)

lemmas balance_server_defs = balance_server_def balance_output_def import_server_defs wallet_tx_def insert_transaction_def
  insert_rows_def add_output_def

lemma balance_server_rows:
  "select_transactions 1 (srv_db balance_server) = [wallet_tx\<lparr>tx_id := 3\<rparr>]"
  "Outputs (srv_db balance_server) = [balance_output\<lparr>out_id := 4\<rparr>]" "Inputs (srv_db balance_server) = []"
  "select_account ''A'' (srv_db balance_server) = Some import_account"
  by (simp_all add: balance_server_defs select_transactions_def select_account_def)

lemma balance_server_asks:
  "asks_balance sample_balance_env ''k'' ''A'' import_account balance_server (balance_request ''k'')"
  by (simp add: asks_balance_def asks_import_def sample_balance_env_def balance_request_def balance_server_ok balance_server_rows)
     (simp add: balance_server_def import_server_def import_account_def search_thread_exist_def)


text \<open>C9: the balance that an account is shown: behind the check of its locked transactions, \<open>total_received\<close> is the sum (in
  64 bits) of all outputs in the table that belong to one of its transactions, and \<open>total_sent\<close> that of all
  inputs in the table that may spend one of those outputs, each counted once.\<close>

theorem address_info_totals:
  assumes "asks_balance env body a acc s req"
  shows "\<exists>r s'. get_address_info env body s = (r, s') \<and> db_ok (srv_db s')
    \<and> select_transactions (acc_id acc) (srv_db s')
        = List.map_filter (checked_row (txs_view env)) (select_transactions (acc_id acc) (srv_db s))
    \<and> get_string ''total_received'' (response r) = Some (to_string (\<Sum>out\<leftarrow>account_outputs (acc_id acc) (srv_db s'). out_amount out))
    \<and> get_string ''total_sent'' (response r) = Some (to_string (\<Sum>i\<leftarrow>account_inputs (acc_id acc) (srv_db s'). in_amount i))"
proof -
  obtain k where k: "parse_json env body = Some req" "get_string ''address'' req = Some a" "get_string ''view_key'' req = Some k"
      "select_account a (srv_db s) = Some acc" "make_hash env k = viewkey_hash acc"
    using assms by (auto simp: asks_balance_def asks_import_def)
  have run: "search_thread_exist a (srv_threads s)" "db_ok (srv_db s)" using assms by (simp_all add: asks_balance_def)
  obtain d txs where d: "spendability_check (txs_view env) (select_transactions (acc_id acc) (srv_db s)) (srv_db s) = (True, txs, d)" "db_ok d"
      "select_transactions (acc_id acc) d = List.map_filter (checked_row (txs_view env)) (select_transactions (acc_id acc) (srv_db s))"
      "map tx_id txs = map tx_id (select_transactions (acc_id acc) d)"
    using check_account [OF run(2), of "txs_view env" "acc_id acc"] shown_ids by metis
  show ?thesis
    using d(2,3) k(2,3)
    by (simp add: get_address_info_def parse_address_key [OF k(1-3)] login_thread_running [OF k(4,5) run(1)] Let_def d(1)
        case_prod_beta info_of_account [OF d(2,4)])
qed

theorem address_info_totals_witness:
  "\<exists>r s' received. get_address_info sample_balance_env ''k'' balance_server = (r, s')
     \<and> length (select_transactions 1 (srv_db s')) = 1 \<and> get_string ''total_received'' (response r) = Some received"
proof -
  have one: "acc_id import_account = 1" by (simp add: import_account_def)
  have "length (List.map_filter (checked_row (txs_view sample_balance_env)) (select_transactions 1 (srv_db balance_server))) = 1"
    unfolding balance_server_rows by (simp add: sample_balance_env_def wallet_view_def checked_row_def wallet_tx_def map_filter_simps)
  then show ?thesis using address_info_totals [OF balance_server_asks] unfolding one by auto
qed

text \<open>C24: the amount that \<open>get_unspent_outs\<close> reports is the sum of the outputs of the account that belong to a
  transaction that is unlocked now and are not below the dust threshold, each counted once; nothing is changed.\<close>

theorem unspent_outs_sum:
  assumes "asks_balance env body a acc s req"
    and "get_number ''mixin'' req = Some mixin" and "get_bool ''use_dust'' req = Some use_dust"
    and "Option.bind (get_string ''dust_threshold'' req) (lexical_cast env) = Some dust"
    and "Option.bind (get_string ''amount'' req) (lexical_cast env) = Some amount"
  shows "\<exists>r. get_unspent_outs env body s = (r, s)
    \<and> get_string ''amount'' (response r)
        = Some (to_string (\<Sum>out\<leftarrow>spendable_outputs (txs_view env) dust (acc_id acc) (srv_db s). out_amount out))"
proof -
  obtain k where k: "parse_json env body = Some req" "get_string ''address'' req = Some a" "get_string ''view_key'' req = Some k"
      "select_account a (srv_db s) = Some acc" "make_hash env k = viewkey_hash acc"
    using assms(1) by (auto simp: asks_balance_def asks_import_def)
  have run: "search_thread_exist a (srv_threads s)" "db_ok (srv_db s)" using assms(1) by (simp_all add: asks_balance_def)
  have there: "jcount ''mixin'' req \<noteq> 0" "jcount ''use_dust'' req \<noteq> 0" "jcount ''dust_threshold'' req \<noteq> 0" "jcount ''amount'' req \<noteq> 0"
    using assms(2-5) get_string_count get_number_count get_bool_count by (fastforce simp: bind_eq_Some_conv)+
  have parse: "parse_request env body [''address'', ''view_key'', ''mixin'', ''use_dust'', ''dust_threshold'', ''amount''] Null = Inr req"
    using k(1) there get_string_count [OF k(2)] get_string_count [OF k(3)] by (simp add: parse_request_def)
  show ?thesis
    by (simp add: get_unspent_outs_def parse k(2,3) assms(2-5) run(1) login_thread_running [OF k(4,5) run(1)] case_prod_beta
        unspent_of_account [OF run(2)])
qed

theorem unspent_outs_sum_witness:
  "\<exists>r. get_unspent_outs sample_balance_env ''k'' balance_server = (r, balance_server)
     \<and> get_string ''amount'' (response r) = Some (to_string 50)"
proof -
  have req: "get_number ''mixin'' (balance_request ''k'') = Some 7" "get_bool ''use_dust'' (balance_request ''k'') = Some False"
    "Option.bind (get_string ''dust_threshold'' (balance_request ''k'')) (lexical_cast sample_balance_env) = Some 0"
    "Option.bind (get_string ''amount'' (balance_request ''k'')) (lexical_cast sample_balance_env) = Some 0"
    by (simp_all add: balance_request_def sample_balance_env_def)
  have "spendable_outputs (txs_view sample_balance_env) 0 (acc_id import_account) (srv_db balance_server) = [balance_output\<lparr>out_id := 4\<rparr>]"
    by (simp add: spendable_outputs_def import_account_def balance_server_rows(2) balance_server_rows(1) [simplified]
        sample_balance_env_def wallet_view_def balance_output_def)
  then show ?thesis using unspent_outs_sum [OF balance_server_asks req] by (auto simp: balance_output_def)
qed

end
