(* ===== verification/TxHelpers.thy ===== *)
theory TxHelpers
  imports Prelude
begin

text \<open>
  The helper functions of \<open>src/src/utils.cpp\<close> that look at a transaction: the sums over its inputs and outputs,
  its ring size and key images, payment ids, the outputs that belong to a key, and the blocks and transactions
  of complete blocks. The types of a transaction are those of the Monero core, with the fields the functions
  use; the elliptic curve operations, the hash and the parsers of the core are arguments.
\<close>

section \<open>Transactions\<close>

text \<open>Keys, hashes and signatures are plain data of a fixed number of bytes.\<close>

type_synonym pod = "byte list"

record txin_to_key =
  ki_amount :: u64
  key_offsets :: "u64 list"
  k_image :: pod

datatype txin = Txin_Gen u64 | Txin_To_Key txin_to_key | Txin_Script

datatype txout_target = Txout_To_Key pod | Txout_Script

record tx_out =
  vo_amount :: u64
  vo_target :: txout_target

text \<open>
  \<open>rv_ecdh_info\<close> pairs the mask and the amount of an output, \<open>rv_out_pk\<close> its destination and its commitment,
  \<open>rv_range_sigs\<close> a signature and the commitments to the bits of an amount, \<open>rv_mgs\<close> the matrix and
  the challenge of a ring signature.
\<close>

record rct_sig =
  rv_type :: byte
  rv_fee :: u64
  rv_pseudo_outs :: "pod list"
  rv_ecdh_info :: "(pod \<times> pod) list"
  rv_out_pk :: "(pod \<times> pod) list"
  rv_range_sigs :: "(pod \<times> pod) list"
  rv_mgs :: "(pod list list \<times> pod) list"

record transaction =
  t_version :: u64
  t_unlock_time :: u64
  t_extra :: "byte list"
  t_vin :: "txin list"
  t_vout :: "tx_out list"
  t_signatures :: "pod list list"
  t_rct :: rct_sig

definition size64 :: "'a list \<Rightarrow> u64" where
  "size64 xs = of_nat (length xs)"

section \<open>Sums over inputs and outputs\<close>

text \<open>An output of another type is kept as an empty pair (\<open>None\<close>).\<close>

fun summary_outputs :: "tx_out list \<Rightarrow> u64 \<times> (pod option \<times> u64) list \<Rightarrow> u64 \<times> (pod option \<times> u64) list" where
  "summary_outputs [] acc = acc"
| "summary_outputs (out # outs) (xmr_outputs, output_pub_keys) =
     (case vo_target out of
        Txout_To_Key k \<Rightarrow> summary_outputs outs (xmr_outputs + vo_amount out, output_pub_keys @ [(Some k, vo_amount out)])
      | Txout_Script \<Rightarrow> summary_outputs outs (xmr_outputs, output_pub_keys @ [(None, 0)]))"

fun summary_inputs :: "txin list \<Rightarrow> u64 \<times> u64 \<times> u64 \<times> txin_to_key list \<Rightarrow> u64 \<times> u64 \<times> u64 \<times> txin_to_key list" where
  "summary_inputs [] acc = acc"
| "summary_inputs (Txin_To_Key k # vin) (xmr_inputs, mixin_no, num_nonrct_inputs, input_key_imgs) =
     summary_inputs vin
       (xmr_inputs + ki_amount k,
        if mixin_no = 0 then size64 (key_offsets k) else mixin_no,
        if ki_amount k \<noteq> 0 then num_nonrct_inputs + 1 else num_nonrct_inputs,
        input_key_imgs @ [k])"
| "summary_inputs (_ # vin) acc = summary_inputs vin acc"

text \<open>The four numbers, and the two vectors that the function fills.\<close>

definition summary_of_in_out_rct :: "transaction \<Rightarrow> (u64 \<times> u64 \<times> u64 \<times> u64) \<times> (pod option \<times> u64) list \<times> txin_to_key list" where
  "summary_of_in_out_rct tx =
     (let (xmr_outputs, output_pub_keys) = summary_outputs (t_vout tx) (0, []);
          (xmr_inputs, mixin_no, num_nonrct_inputs, input_key_imgs) = summary_inputs (t_vin tx) (0, 0, 0, [])
      in ((xmr_outputs, xmr_inputs, mixin_no, num_nonrct_inputs), output_pub_keys, input_key_imgs))"

text \<open>This one adds up every output, whatever its type.\<close>

definition sum_money_in_outputs :: "transaction \<Rightarrow> u64" where
  "sum_money_in_outputs tx = foldl (\<lambda>sum_xmr txout. sum_xmr + vo_amount txout) 0 (t_vout tx)"

fun key_inputs :: "txin list \<Rightarrow> txin_to_key list" where
  "key_inputs [] = []"
| "key_inputs (Txin_To_Key k # vin) = k # key_inputs vin"
| "key_inputs (_ # vin) = key_inputs vin"

definition sum_money_in_inputs :: "transaction \<Rightarrow> u64" where
  "sum_money_in_inputs tx = foldl (\<lambda>sum_xmr k. sum_xmr + ki_amount k) 0 (key_inputs (t_vin tx))"

definition sum_money_in_tx :: "transaction \<Rightarrow> u64 \<times> u64" where
  "sum_money_in_tx tx = (sum_money_in_inputs tx, sum_money_in_outputs tx)"

fun sum_money_in_txs :: "transaction list \<Rightarrow> u64 \<times> u64 \<Rightarrow> u64 \<times> u64" where
  "sum_money_in_txs [] sum_xmr = sum_xmr"
| "sum_money_in_txs (tx # txs) (ins, outs) = sum_money_in_txs txs (ins + sum_money_in_inputs tx, outs + sum_money_in_outputs tx)"

definition sum_fees_in_txs :: "(transaction \<Rightarrow> u64) \<Rightarrow> transaction list \<Rightarrow> u64" where
  "sum_fees_in_txs get_tx_fee txs = foldl (\<lambda>fees_sum tx. fees_sum + get_tx_fee tx) 0 txs"

fun get_ouputs :: "tx_out list \<Rightarrow> (pod \<times> u64) list" where
  "get_ouputs [] = []"
| "get_ouputs (out # outs) =
     (case vo_target out of Txout_To_Key k \<Rightarrow> (k, vo_amount out) # get_ouputs outs | Txout_Script \<Rightarrow> get_ouputs outs)"

fun get_ouputs_tuple :: "u64 \<Rightarrow> tx_out list \<Rightarrow> (pod \<times> u64 \<times> u64) list" where
  "get_ouputs_tuple n [] = []"
| "get_ouputs_tuple n (out # outs) =
     (case vo_target out of
        Txout_To_Key k \<Rightarrow> (k, vo_amount out, n) # get_ouputs_tuple (n + 1) outs
      | Txout_Script \<Rightarrow> get_ouputs_tuple (n + 1) outs)"

section \<open>Ring size and key images\<close>

text \<open>The loop stops at the first ring that is not empty.\<close>

fun mixin_loop :: "txin list \<Rightarrow> u64 \<Rightarrow> u64" where
  "mixin_loop [] mixin_no = mixin_no"
| "mixin_loop (Txin_To_Key k # vin) mixin_no =
     (let mixin_no = size64 (key_offsets k) in if mixin_no > 0 then mixin_no else mixin_loop vin mixin_no)"
| "mixin_loop (_ # vin) mixin_no = mixin_loop vin mixin_no"

definition get_mixin_no :: "transaction \<Rightarrow> u64" where
  "get_mixin_no tx = mixin_loop (t_vin tx) 0"

definition get_mixin_no_in_txs :: "transaction list \<Rightarrow> u64 list" where
  "get_mixin_no_in_txs txs = map get_mixin_no txs"

definition get_key_images :: "transaction \<Rightarrow> txin_to_key list" where
  "get_key_images tx = key_inputs (t_vin tx)"

section \<open>Payment ids\<close>

record extra_env =
  parse_tx_extra :: "byte list \<Rightarrow> pod list option"
  find_extra_nonce :: "pod list \<Rightarrow> pod option"
  encrypted_id_of_nonce :: "pod \<Rightarrow> pod option"
  plain_id_of_nonce :: "pod \<Rightarrow> pod option"

definition null_hash :: pod where "null_hash = replicate 32 0"
definition null_hash8 :: pod where "null_hash8 = replicate 8 0"

text \<open>The result, the long id and the short one.\<close>

definition get_payment_id :: "extra_env \<Rightarrow> byte list \<Rightarrow> bool \<times> pod \<times> pod" where
  "get_payment_id env extra =
     (case parse_tx_extra env extra of
        None \<Rightarrow> (False, null_hash, null_hash8)
      | Some tx_extra_fields \<Rightarrow>
          (case find_extra_nonce env tx_extra_fields of
             None \<Rightarrow> (False, null_hash, null_hash8)
           | Some extra_nonce \<Rightarrow>
               (case encrypted_id_of_nonce env extra_nonce of
                  Some payment_id8 \<Rightarrow> (True, null_hash, payment_id8)
                | None \<Rightarrow>
                    (case plain_id_of_nonce env extra_nonce of
                       Some payment_id \<Rightarrow> (True, payment_id, null_hash8)
                     | None \<Rightarrow> (False, null_hash, null_hash8)))))"

text \<open>
  What the functions use of the curve; \<open>derive_public_key\<close> tells whether it succeeded and the key it leaves,
  \<open>derive_secret_key\<close>, \<open>key_image_of\<close> and the two decoders may throw (\<open>None\<close>).
\<close>

record curve_env =
  generate_key_derivation :: "pod \<Rightarrow> pod \<Rightarrow> pod option"
  cn_fast_hash :: "byte list \<Rightarrow> pod"
  derive_public_key :: "pod \<Rightarrow> u64 \<Rightarrow> pod \<Rightarrow> bool \<times> pod"
  derive_secret_key :: "pod \<Rightarrow> u64 \<Rightarrow> pod \<Rightarrow> pod option"
  key_image_of :: "pod \<Rightarrow> pod \<Rightarrow> pod option"
  derivation_to_scalar :: "pod \<Rightarrow> u32 \<Rightarrow> pod"
  decodeRctSimple :: "rct_sig \<Rightarrow> pod \<Rightarrow> u32 \<Rightarrow> (u64 \<times> pod) option"
  decodeRct :: "rct_sig \<Rightarrow> pod \<Rightarrow> u32 \<Rightarrow> (u64 \<times> pod) option"

text \<open>The eight bytes of the id are combined with the first eight of the hash.\<close>

definition encrypt_payment_id :: "curve_env \<Rightarrow> pod \<Rightarrow> pod \<Rightarrow> pod \<Rightarrow> pod option" where
  "encrypt_payment_id env payment_id public_key secret_key =
     (case generate_key_derivation env public_key secret_key of
        None \<Rightarrow> None
      | Some derivation \<Rightarrow> Some (xor_bytes payment_id (take 8 (cn_fast_hash env (take 32 derivation @ [0x8d])))))"

section \<open>Keys and amounts of outputs\<close>

text \<open>
  The result of \<open>derive_public_key\<close> is not looked at. The outer \<open>None\<close> is an index outside of the outputs, which the
  code does not test, or an output of another type (\<open>boost::get\<close> throws).
\<close>

definition is_output_ours :: "curve_env \<Rightarrow> nat \<Rightarrow> transaction \<Rightarrow> pod \<Rightarrow> pod \<Rightarrow> pod \<Rightarrow> bool option" where
  "is_output_ours env output_index tx pub_tx_key private_view_key public_spend_key =
     (case generate_key_derivation env pub_tx_key private_view_key of
        None \<Rightarrow> Some False
      | Some derivation \<Rightarrow>
          let pubkey = snd (derive_public_key env derivation (of_nat output_index) public_spend_key)
          in if output_index < length (t_vout tx)
             then (case vo_target (t_vout tx ! output_index) of
                     Txout_To_Key k \<Rightarrow> Some (k = pubkey)
                   | Txout_Script \<Rightarrow> None)
             else None)"

definition generate_key_image :: "curve_env \<Rightarrow> pod \<Rightarrow> u64 \<Rightarrow> pod \<Rightarrow> pod \<Rightarrow> pod option" where
  "generate_key_image env derivation i sec_key pub_key =
     (case derive_public_key env derivation i pub_key of
        (False, _) \<Rightarrow> None
      | (True, pub) \<Rightarrow>
          (case derive_secret_key env derivation i sec_key of
             None \<Rightarrow> None
           | Some sec \<Rightarrow> key_image_of env pub sec))"

datatype rct_kind = RCTTypeSimple | RCTTypeSimpleBulletproof | RCTTypeBulletproof | RCTTypeBulletproof2
  | RCTTypeFullBulletproof | RCTTypeFull | RCTTypeUnsupported

text \<open>\<open>kind_of\<close> is the numbering of the types in the core.\<close>

definition decode_ringct :: "curve_env \<Rightarrow> (byte \<Rightarrow> rct_kind) \<Rightarrow> rct_sig \<Rightarrow> pod \<Rightarrow> u32 \<Rightarrow> (u64 \<times> pod) option" where
  "decode_ringct env kind_of rv derivation i =
     (let scalar1 = derivation_to_scalar env derivation i
      in case kind_of (rv_type rv) of
           RCTTypeSimple \<Rightarrow> decodeRctSimple env rv scalar1 i
         | RCTTypeSimpleBulletproof \<Rightarrow> decodeRctSimple env rv scalar1 i
         | RCTTypeBulletproof \<Rightarrow> decodeRctSimple env rv scalar1 i
         | RCTTypeBulletproof2 \<Rightarrow> decodeRctSimple env rv scalar1 i
         | RCTTypeFullBulletproof \<Rightarrow> decodeRct env rv scalar1 i
         | RCTTypeFull \<Rightarrow> decodeRct env rv scalar1 i
         | RCTTypeUnsupported \<Rightarrow> None)"

definition decode_ringct_keys :: "curve_env \<Rightarrow> (byte \<Rightarrow> rct_kind) \<Rightarrow> rct_sig \<Rightarrow> pod \<Rightarrow> pod \<Rightarrow> u32 \<Rightarrow> (u64 \<times> pod) option" where
  "decode_ringct_keys env kind_of rv pub sec i =
     (case generate_key_derivation env pub sec of
        None \<Rightarrow> None
      | Some derivation \<Rightarrow> decode_ringct env kind_of rv derivation i)"

section \<open>Complete blocks\<close>

text \<open>A block with its transactions as blobs; \<open>'b\<close> is the type of a parsed block.\<close>

record block_complete_entry =
  ce_block :: "byte list"
  ce_txs :: "byte list list"

record 'b blob_env =
  parse_block :: "byte list \<Rightarrow> 'b option"
  parse_tx :: "byte list \<Rightarrow> transaction option"
  miner_tx_of :: "'b \<Rightarrow> transaction"
  parse_hexstr_to_binbuff :: "string \<Rightarrow> byte list option"
  load_t_from_binary :: "byte list \<Rightarrow> block_complete_entry option"

text \<open>The result, and what has been appended when it is false.\<close>

fun parse_all :: "('x \<Rightarrow> 'y option) \<Rightarrow> 'x list \<Rightarrow> 'y list option" where
  "parse_all f [] = Some []"
| "parse_all f (x # xs) = (case f x of None \<Rightarrow> None | Some y \<Rightarrow> map_option ((#) y) (parse_all f xs))"

fun blocks_and_txs_from_complete_blocks :: "('b, 'e) blob_env_scheme \<Rightarrow> block_complete_entry list
    \<Rightarrow> 'b list \<times> transaction list \<Rightarrow> bool \<times> 'b list \<times> transaction list" where
  "blocks_and_txs_from_complete_blocks env [] acc = (True, acc)"
| "blocks_and_txs_from_complete_blocks env (cblk # cblks) (blocks, transactions) =
     (case parse_block env (ce_block cblk) of
        None \<Rightarrow> (False, blocks, transactions)
      | Some blk \<Rightarrow>
          (case parse_all (parse_tx env) (ce_txs cblk) of
             None \<Rightarrow> (False, blocks @ [blk], transactions @ [miner_tx_of env blk])
           | Some txs \<Rightarrow>
               blocks_and_txs_from_complete_blocks env cblks
                 (blocks @ [blk], (transactions @ [miner_tx_of env blk]) @ txs)))"

definition hex_to_complete_block :: "('b, 'e) blob_env_scheme \<Rightarrow> string \<Rightarrow> block_complete_entry option" where
  "hex_to_complete_block env cblk_str =
     (case parse_hexstr_to_binbuff env cblk_str of None \<Rightarrow> None | Some blob \<Rightarrow> load_t_from_binary env blob)"

fun hex_to_complete_blocks :: "('b, 'e) blob_env_scheme \<Rightarrow> string list \<Rightarrow> block_complete_entry list \<Rightarrow> bool \<times> block_complete_entry list" where
  "hex_to_complete_blocks env [] cblks = (True, cblks)"
| "hex_to_complete_blocks env (cblk_str # cblks_str) cblks =
     (case hex_to_complete_block env cblk_str of
        None \<Rightarrow> (False, cblks)
      | Some cblk \<Rightarrow> hex_to_complete_blocks env cblks_str (cblks @ [cblk]))"

section \<open>Lemmas\<close>

lemma foldl_sum: "foldl (\<lambda>acc x. acc + f x) a xs = a + (\<Sum>x\<leftarrow>xs. f x)" for a :: u64
  by (induction xs arbitrary: a) (simp_all add: add.assoc)

lemma unat_sum_list: "(\<Sum>x\<leftarrow>xs. unat (f x)) < 2 ^ 64 \<Longrightarrow> unat (\<Sum>x\<leftarrow>xs. f x) = (\<Sum>x\<leftarrow>xs. unat (f x))"
  for f :: "'a \<Rightarrow> u64"
proof (induction xs)
  case (Cons x xs)
  then show ?case using unat_add_lem [of "f x" "\<Sum>x\<leftarrow>xs. f x"] by simp
qed simp

text \<open>What is kept of an output, and the amounts of the outputs that have no key.\<close>

definition out_pair :: "tx_out \<Rightarrow> pod option \<times> u64" where
  "out_pair out = (case vo_target out of Txout_To_Key k \<Rightarrow> (Some k, vo_amount out) | Txout_Script \<Rightarrow> (None, 0))"

definition keyless :: "tx_out \<Rightarrow> bool" where
  "keyless out \<longleftrightarrow> vo_target out = Txout_Script"

lemma summary_outputs_eq: "summary_outputs outs (x, ps) = (x + sum_list (map snd (get_ouputs outs)), ps @ map out_pair outs)"
  by (induction outs "(x, ps)" arbitrary: x ps rule: summary_outputs.induct)
     (auto simp: out_pair_def add.assoc split: txout_target.splits)

lemma get_ouputs_pairs: "map (\<lambda>(k, a). (Some k, a)) (get_ouputs outs) = filter (\<lambda>(k, a). k \<noteq> None) (map out_pair outs)"
  by (induction outs) (auto simp: out_pair_def split: txout_target.splits)

lemma sum_outputs_split:
  "sum_money_in_outputs tx = sum_list (map snd (get_ouputs (t_vout tx))) + (\<Sum>out\<leftarrow>filter keyless (t_vout tx). vo_amount out)"
proof -
  have "(\<Sum>out\<leftarrow>outs. vo_amount out) = sum_list (map snd (get_ouputs outs)) + (\<Sum>out\<leftarrow>filter keyless outs. vo_amount out)" for outs
  proof (induction outs)
    case (Cons out outs)
    then show ?case by (cases "vo_target out") (simp_all add: keyless_def ac_simps)
  qed simp
  from this [of "t_vout tx"] show ?thesis by (simp add: sum_money_in_outputs_def foldl_sum)
qed

lemma mixin_loop_first:
  "mixin_loop vin m = (case find (\<lambda>n. n \<noteq> 0) (map (size64 \<circ> key_offsets) (key_inputs vin)) of
     Some n \<Rightarrow> n | None \<Rightarrow> if key_inputs vin = [] then m else 0)"
  by (induction vin m rule: mixin_loop.induct) (auto simp: Let_def word_gt_0 split: option.splits)

lemma get_mixin_no_first:
  "get_mixin_no tx = (case find (\<lambda>n. n \<noteq> 0) (map (size64 \<circ> key_offsets) (get_key_images tx)) of Some n \<Rightarrow> n | None \<Rightarrow> 0)"
  by (simp add: get_mixin_no_def mixin_loop_first get_key_images_def split: option.split)

lemma summary_inputs_eq:
  "summary_inputs vin (x, m, n, ks) =
    (x + (\<Sum>k\<leftarrow>key_inputs vin. ki_amount k),
     if m \<noteq> 0 then m else (case find (\<lambda>n. n \<noteq> 0) (map (size64 \<circ> key_offsets) (key_inputs vin)) of Some n \<Rightarrow> n | None \<Rightarrow> 0),
     n + size64 (filter (\<lambda>k. ki_amount k \<noteq> 0) (key_inputs vin)), ks @ key_inputs vin)"
  by (induction vin "(x, m, n, ks)" arbitrary: x m n ks rule: summary_inputs.induct)
     (auto simp: size64_def add.assoc split: option.splits)

lemma get_ouputs_tuple_pairs: "map (\<lambda>(k, a, i). (k, a)) (get_ouputs_tuple n outs) = get_ouputs outs"
  by (induction n outs rule: get_ouputs_tuple.induct) (simp_all split: txout_target.splits)

lemma get_ouputs_tuple_index:
  "(k, a, j) \<in> set (get_ouputs_tuple n outs) \<Longrightarrow>
    \<exists>i<length outs. j = n + of_nat i \<and> vo_target (outs ! i) = Txout_To_Key k \<and> vo_amount (outs ! i) = a"
proof (induction outs arbitrary: n)
  case (Cons out outs)
  show ?case
  proof (cases "(k, a, j) \<in> set (get_ouputs_tuple (n + 1) outs)")
    case True
    from Cons.IH [OF this] obtain i where "i < length outs" "j = n + 1 + of_nat i"
        "vo_target (outs ! i) = Txout_To_Key k" "vo_amount (outs ! i) = a" by blast
    then show ?thesis by (intro exI [of _ "Suc i"]) (simp add: add.assoc)
  next
    case False
    then show ?thesis using Cons.prems by (intro exI [of _ 0]) (auto split: txout_target.splits)
  qed
qed simp

text \<open>Complete blocks: the run over the list.\<close>

lemma parse_all_eq: "parse_all f xs = (if \<forall>x\<in>set xs. f x \<noteq> None then Some (map (the \<circ> f) xs) else None)"
  by (induction xs) (auto split: option.splits)

definition block_parses :: "('b, 'e) blob_env_scheme \<Rightarrow> block_complete_entry \<Rightarrow> bool" where
  "block_parses env c \<longleftrightarrow> parse_block env (ce_block c) \<noteq> None \<and> (\<forall>b\<in>set (ce_txs c). parse_tx env b \<noteq> None)"

definition block_of :: "('b, 'e) blob_env_scheme \<Rightarrow> block_complete_entry \<Rightarrow> 'b" where
  "block_of env c = the (parse_block env (ce_block c))"

definition txs_of :: "('b, 'e) blob_env_scheme \<Rightarrow> block_complete_entry \<Rightarrow> transaction list" where
  "txs_of env c = miner_tx_of env (block_of env c) # map (the \<circ> parse_tx env) (ce_txs c)"

lemma complete_blocks_ok:
  "\<forall>c\<in>set cblks. block_parses env c \<Longrightarrow> blocks_and_txs_from_complete_blocks env cblks (bs, ts)
     = (True, bs @ map (block_of env) cblks, ts @ concat (map (txs_of env) cblks))"
  by (induction cblks arbitrary: bs ts)
     (auto simp: block_parses_def block_of_def txs_of_def parse_all_eq split: option.splits)

lemma complete_blocks_bad:
  "\<not> block_parses env c \<Longrightarrow> \<forall>c\<in>set good. block_parses env c \<Longrightarrow>
    blocks_and_txs_from_complete_blocks env (good @ c # rest) (bs, ts) =
      (False, bs @ map (block_of env) good @ (case parse_block env (ce_block c) of None \<Rightarrow> [] | Some b \<Rightarrow> [b]),
       ts @ concat (map (txs_of env) good) @ (case parse_block env (ce_block c) of None \<Rightarrow> [] | Some b \<Rightarrow> [miner_tx_of env b]))"
proof (induction good arbitrary: bs ts)
  case Nil
  then show ?case by (auto simp: block_parses_def parse_all_eq split: option.splits)
next
  case (Cons g good)
  then show ?case by (auto simp: block_parses_def block_of_def txs_of_def parse_all_eq split: option.splits)
qed

text \<open>The parts of a summary.\<close>

lemma summary_sums:
  assumes "summary_of_in_out_rct tx = ((xmr_outputs, xmr_inputs, mixin, nonrct), output_keys, images)"
  shows "xmr_inputs = sum_money_in_inputs tx" "mixin = get_mixin_no tx" "images = get_key_images tx"
    "nonrct = size64 (filter (\<lambda>k. ki_amount k \<noteq> 0) (get_key_images tx))"
    "sum_money_in_outputs tx = xmr_outputs + (\<Sum>out\<leftarrow>filter keyless (t_vout tx). vo_amount out)"
    "output_keys = map out_pair (t_vout tx)" "xmr_outputs = sum_list (map snd (get_ouputs (t_vout tx)))"
proof -
  have s: "(xmr_outputs, output_keys) = (sum_list (map snd (get_ouputs (t_vout tx))), map out_pair (t_vout tx))"
      "(xmr_inputs, mixin, nonrct, images) = summary_inputs (t_vin tx) (0, 0, 0, [])"
    using assms by (auto simp: summary_of_in_out_rct_def summary_outputs_eq Let_def split: prod.splits)
  show "xmr_inputs = sum_money_in_inputs tx" "mixin = get_mixin_no tx" "images = get_key_images tx"
      "nonrct = size64 (filter (\<lambda>k. ki_amount k \<noteq> 0) (get_key_images tx))"
    using s(2) [unfolded summary_inputs_eq] by (auto simp: sum_money_in_inputs_def foldl_sum get_mixin_no_first get_key_images_def)
  show "sum_money_in_outputs tx = xmr_outputs + (\<Sum>out\<leftarrow>filter keyless (t_vout tx). vo_amount out)"
    "output_keys = map out_pair (t_vout tx)" "xmr_outputs = sum_list (map snd (get_ouputs (t_vout tx)))"
    using s(1) by (simp_all add: sum_outputs_split)
qed

section \<open>Properties\<close>

text \<open>C26: the summary of a transaction agrees with the separate functions: its ring size is that of the first input whose
  ring is not empty, the inputs are those with a key image, and a pair is kept for every output, the ones without a key
  as empty pairs. The sums are those over the inputs and outputs that have a key; while they stay
  below \<open>2 ^ 64\<close> they are exact. \<open>sum_money_in_outputs\<close> counts the other outputs as well.\<close>

theorem summary_agrees:
  assumes "summary_of_in_out_rct tx = ((xmr_outputs, xmr_inputs, mixin, nonrct), output_keys, images)"
  shows "xmr_inputs = sum_money_in_inputs tx \<and> mixin = get_mixin_no tx \<and> images = get_key_images tx
    \<and> nonrct = size64 (filter (\<lambda>k. ki_amount k \<noteq> 0) images) \<and> length output_keys = length (t_vout tx)
    \<and> filter (\<lambda>(k, a). k \<noteq> None) output_keys = map (\<lambda>(k, a, i). (Some k, a)) (get_ouputs_tuple 0 (t_vout tx))
    \<and> sum_money_in_outputs tx = xmr_outputs + (\<Sum>out\<leftarrow>filter keyless (t_vout tx). vo_amount out)
    \<and> ((\<Sum>(k, a)\<leftarrow>output_keys. unat a) < 2 ^ 64 \<longrightarrow> unat xmr_outputs = (\<Sum>(k, a)\<leftarrow>output_keys. unat a))
    \<and> ((\<Sum>k\<leftarrow>images. unat (ki_amount k)) < 2 ^ 64 \<longrightarrow> unat xmr_inputs = (\<Sum>k\<leftarrow>images. unat (ki_amount k)))"
proof -
  note sums = summary_sums [OF assms]
  have "xmr_inputs = sum_money_in_inputs tx \<and> mixin = get_mixin_no tx \<and> images = get_key_images tx
      \<and> nonrct = size64 (filter (\<lambda>k. ki_amount k \<noteq> 0) images) \<and> length output_keys = length (t_vout tx)
      \<and> sum_money_in_outputs tx = xmr_outputs + (\<Sum>out\<leftarrow>filter keyless (t_vout tx). vo_amount out)"
    by (simp add: sums)
  moreover have "filter (\<lambda>(k, a). k \<noteq> None) output_keys = map (\<lambda>(k, a, i). (Some k, a)) (get_ouputs_tuple 0 (t_vout tx))"
    using get_ouputs_pairs [of "t_vout tx"] by (simp add: sums(6) split_def comp_def flip: get_ouputs_tuple_pairs [of 0])
  moreover have "sum_list (map snd (get_ouputs outs)) = sum_list (map (snd \<circ> out_pair) outs)" for outs
    by (induction outs) (simp_all add: out_pair_def split: txout_target.split)
  then have "xmr_outputs = sum_list (map snd output_keys)" by (simp add: sums(6,7))
  then have "(\<Sum>(k, a)\<leftarrow>output_keys. unat a) < 2 ^ 64 \<longrightarrow> unat xmr_outputs = (\<Sum>(k, a)\<leftarrow>output_keys. unat a)"
    using unat_sum_list [of snd output_keys] by (simp add: split_def)
  moreover have "(\<Sum>k\<leftarrow>images. unat (ki_amount k)) < 2 ^ 64 \<longrightarrow> unat xmr_inputs = (\<Sum>k\<leftarrow>images. unat (ki_amount k))"
    using unat_sum_list [of ki_amount images] by (simp add: sums(1,3) sum_money_in_inputs_def foldl_sum get_key_images_def)
  ultimately show ?thesis by blast
qed

text \<open>A coinbase-like input without a ring, then one with a ring of three; the second output has no key.\<close>

definition mixed_tx :: transaction where
  "mixed_tx = \<lparr>t_version = 2, t_unlock_time = 0, t_extra = [],
     t_vin = [Txin_Gen 5, Txin_To_Key \<lparr>ki_amount = 0, key_offsets = [], k_image = [1]\<rparr>,
       Txin_To_Key \<lparr>ki_amount = 7, key_offsets = [4, 5, 6], k_image = [2]\<rparr>],
     t_vout = [\<lparr>vo_amount = 3, vo_target = Txout_To_Key [9]\<rparr>, \<lparr>vo_amount = 4, vo_target = Txout_Script\<rparr>],
     t_signatures = [], t_rct = \<lparr>rv_type = 0, rv_fee = 0, rv_pseudo_outs = [], rv_ecdh_info = [], rv_out_pk = [],
       rv_range_sigs = [], rv_mgs = []\<rparr>\<rparr>"

theorem summary_agrees_witness:
  "fst (summary_of_in_out_rct mixed_tx) = (3, 7, 3, 1) \<and> get_mixin_no mixed_tx = 3 \<and> sum_money_in_outputs mixed_tx = 3 + 4"
proof -
  have "summary_of_in_out_rct mixed_tx = ((3, 7, 3, 1), [(Some [9], 3), (None, 0)],
      [\<lparr>ki_amount = 0, key_offsets = [], k_image = [1]\<rparr>, \<lparr>ki_amount = 7, key_offsets = [4, 5, 6], k_image = [2]\<rparr>])"
    by (simp add: summary_of_in_out_rct_def mixed_tx_def size64_def)
  from summary_agrees [OF this] this show ?thesis by (simp add: mixed_tx_def keyless_def)
qed

text \<open>Encrypting a payment id twice with the same keys gives the id back; the result has eight bytes.\<close>

theorem encrypt_payment_id_twice:
  assumes "length payment_id8 = 8" "\<And>bs. length (cn_fast_hash env bs) = 32"
    and "encrypt_payment_id env payment_id8 public_key secret_key = Some encrypted"
  shows "length encrypted = 8 \<and> encrypt_payment_id env encrypted public_key secret_key = Some payment_id8"
  using assms by (auto simp: encrypt_payment_id_def xor_bytes_cancel split: option.splits)

definition toy_curve :: curve_env where
  "toy_curve = \<lparr>generate_key_derivation = (\<lambda>p s. Some (xor_bytes p s)), cn_fast_hash = (\<lambda>bs. take 32 (bs @ replicate 32 7)),
     derive_public_key = (\<lambda>d i p. (True, p)), derive_secret_key = (\<lambda>d i s. Some s), key_image_of = (\<lambda>p s. Some p),
     derivation_to_scalar = (\<lambda>d i. d), decodeRctSimple = (\<lambda>rv s i. None), decodeRct = (\<lambda>rv s i. None)\<rparr>"

theorem encrypt_payment_id_twice_witness:
  "Option.bind (encrypt_payment_id toy_curve [1, 2, 3, 4, 5, 6, 7, 8] [3] [5]) (\<lambda>c. encrypt_payment_id toy_curve c [3] [5])
     = Some [1, 2, 3, 4, 5, 6, 7, 8]"
proof -
  have "length (cn_fast_hash toy_curve bs) = 32" for bs by (simp add: toy_curve_def)
  moreover obtain c where "encrypt_payment_id toy_curve [1, 2, 3, 4, 5, 6, 7, 8] [3] [5] = Some c"
    by (simp add: encrypt_payment_id_def toy_curve_def)
  ultimately show ?thesis
    using encrypt_payment_id_twice [of "[1, 2, 3, 4, 5, 6, 7, 8]" toy_curve "[3]" "[5]" c] by simp
qed

end
