(* ===== verification/TxRequests.thy ===== *)
theory TxRequests
  imports BalanceRequests TxHelpers
begin

text \<open>
  The handlers that are about one transaction: \<open>submit_raw_tx\<close>, \<open>get_tx\<close>, \<open>confirm_tx_sent\<close> and \<open>get_version\<close> of
  \<open>OpenMoneroRequests\<close> (\<open>src/src/OpenMoneroRequests.cpp\<close>). None of them changes the server; \<open>submit_raw_tx\<close> hands a
  transaction to the node. What the node, the memory pool and the identification of outputs and inputs say of a transaction is
  the record \<open>tx_env\<close>.
\<close>

section \<open>What is known of a transaction\<close>

text \<open>
  \<open>read_hash\<close> is \<open>hex_to_pod\<close> (the hash in canonical hex), \<open>chain_tx\<close> the node's \<open>get_tx\<close>, \<open>pool_txs\<close> the memory pool with the
  times of receipt, \<open>height_of_hash\<close> is \<open>get_tx_block_height\<close>. \<open>account_ok\<close> is whether \<open>make_account\<close> makes an account,
  \<open>identify_outputs\<close> and \<open>identify_inputs\<close> what the identifiers find with it, the latter with the amounts,
  \<open>total_of_outputs\<close> is \<open>calc_total_xmr\<close>. \<open>commit\<close> is the
  answer of the node to a transaction, \<open>None\<close> for success and else its message.
\<close>

record 'tx tx_env = "'tx balance_env" +
  read_hash :: "string \<Rightarrow> string option"
  chain_tx :: "string \<Rightarrow> 'tx option"
  pool_txs :: "(u64 \<times> 'tx) list"
  tx_hash_of :: "'tx \<Rightarrow> string"
  tx_body :: "'tx \<Rightarrow> transaction"
  received_pub_key :: "'tx \<Rightarrow> string"
  is_coinbase_tx :: "'tx \<Rightarrow> bool"
  fee_of_tx :: "'tx \<Rightarrow> u64"
  blob_size :: "'tx \<Rightarrow> u64"
  height_of_hash :: "string \<Rightarrow> u64 option"
  account_ok :: "string \<Rightarrow> string \<Rightarrow> bool"
  identify_outputs :: "string \<Rightarrow> string \<Rightarrow> 'tx \<Rightarrow> out_info list"
  total_of_outputs :: "out_info list \<Rightarrow> u64"
  identify_inputs :: "string \<Rightarrow> string \<Rightarrow> (string \<rightharpoonup> u64) \<Rightarrow> 'tx \<Rightarrow> (in_info \<times> u64) list"
  view_key_ok :: "string \<Rightarrow> bool"
  address_parses :: "string \<Rightarrow> bool"
  payment_ids_of :: "'tx \<Rightarrow> string option \<times> string option"
  blob_of_hex :: "string \<Rightarrow> string option"
  tx_of_blob :: "string \<Rightarrow> 'tx option"
  commit :: "string \<Rightarrow> string option"
  build_info :: "string \<times> string \<times> string \<times> string"
  api_version :: u64
  network_number :: u64
  is_testnet :: bool

section \<open>Handing in a transaction\<close>

definition key_image_bytes :: "transaction \<Rightarrow> byte list list" where
  "key_image_bytes tx = map k_image (get_key_images tx)"

definition vin_images :: "transaction \<Rightarrow> byte list option list" where
  "vin_images tx = map (\<lambda>i. case i of Txin_To_Key k \<Rightarrow> Some (k_image k) | _ \<Rightarrow> None) (t_vin tx)"

definition images_in_pool :: "('tx, 'e) tx_env_scheme \<Rightarrow> 'tx \<Rightarrow> bool" where
  "images_in_pool env tx =
     find_key_images_in_mempool (key_image_bytes \<circ> tx_body env) (vin_images (tx_body env tx)) (pool_txs env)"

text \<open>
  The result is the reply and what was handed to the node, if anything; \<open>None\<close> is an exception, of the parser or because
  there is no string \<open>tx\<close>.
\<close>

definition submit_raw_tx :: "('tx, 'e) tx_env_scheme \<Rightarrow> string \<Rightarrow> (reply \<times> string option) option" where
  "submit_raw_tx env body =
     (case Option.bind (parse_json env body) (get_string ''tx'') of
        None \<Rightarrow> None
      | Some raw_tx_blob \<Rightarrow> Some (
          case blob_of_hex env raw_tx_blob of
            None \<Rightarrow> (session_close UNPROCESSABLE_ENTITY ''Tx faild parse_hexstr_to_binbuff'' Null, None)
          | Some tx_blob \<Rightarrow>
              (case tx_of_blob env tx_blob of
                 None \<Rightarrow> (session_close UNPROCESSABLE_ENTITY ''Tx faild parse_and_validate_tx_from_blob'' Null, None)
               | Some tx \<Rightarrow>
                   if images_in_pool env tx
                   then (session_close UNPROCESSABLE_ENTITY (''Tx uses your outputs that area already in the mempool. ''
                           @ ''Please wait till your previous tx(s) get mined'') Null, None)
                   else (case commit env raw_tx_blob of
                           Some error_msg \<Rightarrow> (session_close UNPROCESSABLE_ENTITY error_msg Null, Some raw_tx_blob)
                         | None \<Rightarrow> (session_close OK [] (jset ''tx_hash'' (Str (tx_hash_of env tx)) Null), Some raw_tx_blob)))))"

section \<open>The details of a transaction\<close>

text \<open>In the chain, or else in the pool; with the time of receipt (0 in the chain) and whether it is in the pool.\<close>

definition look_up_tx :: "('tx, 'e) tx_env_scheme \<Rightarrow> string \<Rightarrow> ('tx \<times> u64 \<times> bool) option" where
  "look_up_tx env h =
     (case chain_tx env h of
        Some tx \<Rightarrow> Some (tx, 0, False)
      | None \<Rightarrow> map_option (\<lambda>(time, tx). (tx, time, True)) (find (\<lambda>mtx. tx_hash_of env (snd mtx) = h) (pool_txs env)))"

text \<open>What the transaction itself says.\<close>

definition tx_facts :: "('tx, 'e) tx_env_scheme \<Rightarrow> string \<Rightarrow> 'tx \<Rightarrow> u64 \<Rightarrow> json \<Rightarrow> json" where
  "tx_facts env h tx time j =
     (let body = tx_body env tx;
          ((xmr_outputs, xmr_inputs, mixin, nonrct), output_pub_keys, input_key_imgs) = summary_of_in_out_rct body;
          fee = (if \<not> is_coinbase_tx env tx \<and> t_vin body \<noteq> []
                 then (case hd (t_vin body) of Txin_Gen _ \<Rightarrow> 0 | _ \<Rightarrow> fee_of_tx env tx) else 0);
          j = jset ''coinbase'' (Bool (is_coinbase_tx env tx))
                (jset ''pub_key'' (Str (received_pub_key env tx)) (jset ''tx_hash'' (Str h) j));
          j = jset ''rct_type'' (Number (ucast (rv_type (t_rct body)))) (jset ''tx_version'' (Number (t_version body))
                (jset ''num_of_inputs'' (Number (size64 input_key_imgs)) (jset ''num_of_outputs'' (Number (size64 output_pub_keys))
                (jset ''mixin_no'' (Number mixin) (jset ''xmr_inputs'' (Number xmr_inputs) (jset ''xmr_outputs'' (Number xmr_outputs) j))))));
          j = jset ''total_received'' (Str ''0'') (jset ''total_sent'' (Str ''0'') (jset ''size'' (Number (blob_size env tx)) (jset ''fee'' (Number fee) j)))
      in jset ''timestamp'' (Number time) (jset ''payment_id'' (Str []) j))"

text \<open>The spendings of a transaction in the pool, from the inputs that may be the wallet's.\<close>

fun identified_spendings :: "db \<Rightarrow> (in_info \<times> u64) list \<Rightarrow> json list \<times> u64" where
  "identified_spendings d [] = ([], 0)"
| "identified_spendings d ((i, amount) # is) =
     (let (spent, sum_all) = identified_spendings d is
      in case output_exists (ii_out_pub_key i) d of
           Some out \<Rightarrow> (spent_json amount (ii_key_img i) out # spent, out_amount out + sum_all)
         | None \<Rightarrow> (spent, sum_all))"

text \<open>What the tables, or the search thread, know of the spendings of the account. The view key is not compared with its row.\<close>

definition tx_spendings :: "('tx, 'e) tx_env_scheme \<Rightarrow> string \<Rightarrow> string \<Rightarrow> string \<Rightarrow> 'tx \<Rightarrow> bool \<Rightarrow> server \<Rightarrow> json \<Rightarrow> json" where
  "tx_spendings env address view_key hash_str tx in_pool s j =
     (case WalletDb.select_account address (srv_db s) of
        None \<Rightarrow> j
      | Some acc \<Rightarrow>
          if \<not> in_pool
          then (case tx_exists (acc_id acc) hash_str (srv_db s) of
                  None \<Rightarrow> j
                | Some row \<Rightarrow>
                    let j = jset ''timestamp'' (Number (tx_timestamp row * 1000)) (jset ''payment_id'' (Str (tx_payment_id row)) j);
                        inputs = select_inputs_for_tx (tx_id row) (srv_db s);
                        (spent, sum_all) = spent_outputs (srv_db s) inputs
                    in if inputs = [] then j
                       else jset ''spent_outputs'' (Arr spent) (jset ''total_sent'' (Str (to_string sum_all)) j))
          else if search_thread_exist address (srv_threads s)
          then let (spent, sum_all) = identified_spendings (srv_db s) (identify_inputs env address view_key (thread_known s address) tx)
               in jset ''spent_outputs'' (Arr spent) (jset ''total_sent'' (Str (to_string sum_all)) j)
          else j)"

definition get_tx :: "('tx, 'e) tx_env_scheme \<Rightarrow> string \<Rightarrow> server \<Rightarrow> reply" where
  "get_tx env body s =
     (case parse_request env body [''address'', ''view_key'', ''tx_hash''] Null of
        Inl j \<Rightarrow> session_close OK [] j
      | Inr req \<Rightarrow>
          (case (get_string ''address'' req, get_string ''view_key'' req, get_string ''tx_hash'' req) of
             (Some address, Some view_key, Some hash_str) \<Rightarrow>
               let j = jset ''error'' (Str ''Some error occured'') (jset ''status'' (Str ''error'') Null)
               in (case read_hash env hash_str of
                     None \<Rightarrow> session_close OK [] (jset ''status'' (Str (''Cant parse tx hash! : '' @ hash_str)) j)
                   | Some h \<Rightarrow>
                       (case look_up_tx env h of
                          None \<Rightarrow> session_close UNPROCESSABLE_ENTITY ('' Cant get tx details for'' @ hash_str) j
                        | Some (tx, time, in_pool) \<Rightarrow>
                            let j = tx_facts env h tx time j;
                                (tx_height, no_confirmations) = (case height_of_hash env h of
                                   Some n \<Rightarrow> (n, current_height env - n) | None \<Rightarrow> (- 1, - 1));
                                known = search_thread_exist address (srv_threads s)
                            in if known \<and> \<not> account_ok env address view_key
                               then session_close UNPROCESSABLE_ENTITY (''Cant create coreacc for '' @ address) j
                               else let j = (if known
                                      then tx_spendings env address view_key hash_str tx in_pool s
                                        (jset ''total_received'' (Str (to_string (total_of_outputs env (identify_outputs env address view_key tx)))) j)
                                      else j)
                                    in session_close OK [] (jset ''error'' (Str []) (jset ''status'' (Str ''OK'')
                                         (jset ''no_confirmations'' (Signed no_confirmations) (jset ''tx_height'' (Signed tx_height) j))))))
           | _ \<Rightarrow> session_close OK [] Null))"

section \<open>Confirming a payment\<close>

definition refuse_confirm :: "string \<Rightarrow> json \<Rightarrow> reply" where
  "refuse_confirm msg j = session_close OK [] (jset ''status'' (Str msg) (jset ''error'' (Bool True) j))"

definition confirm_template :: json where
  "confirm_template = jset ''error'' (Bool False) (jset ''correct'' (Bool False) (jset ''found'' (Bool False) Null))"

text \<open>The second half of the handler, behind the reading of the request.\<close>

definition confirm_payment :: "('tx, 'e) tx_env_scheme \<Rightarrow> string \<Rightarrow> string \<Rightarrow> u64 \<Rightarrow> string \<Rightarrow> json \<Rightarrow> reply" where
  "confirm_payment env address view_key amount hash_str j =
     (case read_hash env hash_str of
        None \<Rightarrow> refuse_confirm (''Cant parse tx hash! : '' @ hash_str) j
      | Some h \<Rightarrow>
          if \<not> view_key_ok env view_key then refuse_confirm ''viewkey parse error'' j
          else if \<not> address_parses env address then refuse_confirm ''address parse error'' j
          else (case look_up_tx env h of
                  None \<Rightarrow> session_close OK [] j
                | Some (tx, _, _) \<Rightarrow>
                    if \<not> account_ok env address view_key
                    then session_close UNPROCESSABLE_ENTITY (''Cant create coreacc for '' @ address) j
                    else
                      let received = (\<Sum>out\<leftarrow>identify_outputs env address view_key tx. oi_amount out)
                      in session_close OK [] (if received = 0 then j
                           else jset ''payment_id'' (Str (get_payment_id_as_string (payment_ids_of env) tx))
                             (jset ''total_received'' (Number received) (jset ''amount'' (Number amount)
                             (jset ''correct'' (Bool (received \<ge> amount)) (jset ''found'' (Bool True) j)))))))"

definition confirm_tx_sent :: "('tx, 'e) tx_env_scheme \<Rightarrow> string \<Rightarrow> reply" where
  "confirm_tx_sent env body =
     (case parse_request env body [''address'', ''view_key'', ''amount'', ''txid''] confirm_template of
        Inl j \<Rightarrow> refuse_confirm ''bad request'' j
      | Inr req \<Rightarrow>
          (case (get_string ''address'' req, get_string ''view_key'' req, get_number ''amount'' req, get_string ''txid'' req) of
             (Some address, Some view_key, Some amount, Some hash_str) \<Rightarrow>
               confirm_payment env address view_key amount hash_str confirm_template
           | _ \<Rightarrow> refuse_confirm ''json error'' confirm_template))"

section \<open>The version\<close>

definition get_version :: "('tx, 'e) tx_env_scheme \<Rightarrow> reply" where
  "get_version env =
     (let (hash, date, branch, version) = build_info env
      in session_close OK [] (Obj [(''last_git_commit_hash'', Str hash), (''last_git_commit_date'', Str date),
           (''git_branch_name'', Str branch), (''monero_version_full'', Str version), (''api'', Number (api_version env)),
           (''testnet'', Bool (is_testnet env)), (''network_type'', Number (network_number env)),
           (''blockchain_height'', Number (current_height env))]))"

section \<open>Lemmas\<close>

lemma images_in_pool_iff:
  "images_in_pool env tx \<longleftrightarrow> (\<exists>k mtx. Some k \<in> set (vin_images (tx_body env tx)) \<and> mtx \<in> snd ` set (pool_txs env)
     \<and> k \<in> set (key_image_bytes (tx_body env mtx)))"
  unfolding images_in_pool_def find_key_images_iff by simp

lemma vin_images_iff: "Some k \<in> set (vin_images tx) \<longleftrightarrow> k \<in> set (key_image_bytes tx)"
proof -
  have "Some k \<in> set (map (\<lambda>i. case i of Txin_To_Key k \<Rightarrow> Some (k_image k) | _ \<Rightarrow> None) vin) \<longleftrightarrow> k \<in> set (map k_image (key_inputs vin))" for vin
    by (induction vin rule: key_inputs.induct) auto
  then show ?thesis by (simp add: vin_images_def key_image_bytes_def get_key_images_def)
qed

text \<open>Two transactions that spend the same output show the same key image.\<close>

definition conflicts :: "('tx, 'e) tx_env_scheme \<Rightarrow> 'tx \<Rightarrow> bool" where
  "conflicts env tx \<longleftrightarrow> (\<exists>(time, mtx)\<in>set (pool_txs env).
     set (key_image_bytes (tx_body env tx)) \<inter> set (key_image_bytes (tx_body env mtx)) \<noteq> {})"

lemma images_in_pool_conflicts: "images_in_pool env tx \<longleftrightarrow> conflicts env tx"
  unfolding images_in_pool_iff vin_images_iff conflicts_def by fastforce

lemma spent_outputs_db:
  assumes "db_ok d" "set is \<subseteq> set (Inputs d)"
  shows "snd (spent_outputs d is) = (\<Sum>i\<leftarrow>is. in_amount i)" "length (fst (spent_outputs d is)) = length is"
proof -
  have "\<exists>out. select_output_by_id (in_output_id i) d = Some out" if "i \<in> set (Inputs d)" for i
  proof -
    have "\<exists>out\<in>set (Outputs d). out_id out = in_output_id i" using assms(1) that by (fastforce simp: db_ok_simps)
    then show ?thesis by (auto simp: select_output_by_id_def find_None_iff simp flip: not_None_eq)
  qed
  then show "snd (spent_outputs d is) = (\<Sum>i\<leftarrow>is. in_amount i)" "length (fst (spent_outputs d is)) = length is"
    using assms(2) by (induction "is") (fastforce simp: Let_def case_prod_beta)+
qed

section \<open>Properties\<close>

text \<open>C7: a transaction is handed to the node exactly when the request carries one as hex that parses and none of its key images is in
  a transaction of the memory pool; what is handed on is the text of the request. The client is told the hash exactly when the node takes
  it, and every other outcome is a refusal with a message.\<close>

theorem submit_is_guarded:
  assumes "submit_raw_tx env body = Some (r, handed)"
  shows "(handed = Some txt \<longleftrightarrow> Option.bind (parse_json env body) (get_string ''tx'') = Some txt
      \<and> (\<exists>blob tx. blob_of_hex env txt = Some blob \<and> tx_of_blob env blob = Some tx \<and> \<not> conflicts env tx))
    \<and> (code r = OK \<longleftrightarrow> (\<exists>txt. handed = Some txt \<and> commit env txt = None))
    \<and> (code r = OK \<longrightarrow> (\<exists>txt blob tx. handed = Some txt \<and> blob_of_hex env txt = Some blob \<and> tx_of_blob env blob = Some tx
        \<and> response r = Obj [(''tx_hash'', Str (tx_hash_of env tx))]))
    \<and> (code r \<noteq> OK \<longrightarrow> (\<exists>msg. response r = Obj [(''Error'', Str msg)]))"
proof -
  obtain txt0 where t: "Option.bind (parse_json env body) (get_string ''tx'') = Some txt0"
    using assms by (auto simp: submit_raw_tx_def split: option.splits)
  show ?thesis
    using assms unfolding submit_raw_tx_def images_in_pool_conflicts t
    by (auto simp: session_close_def split: option.splits if_splits)
qed

text \<open>A pool with one transaction, and a request that spends its key image or not.\<close>

definition spending_tx :: "byte \<Rightarrow> transaction" where
  "spending_tx k = mixed_tx\<lparr>t_vin := [Txin_To_Key \<lparr>ki_amount = 0, key_offsets = [1], k_image = [k]\<rparr>]\<rparr>"

definition sample_tx_env :: "byte tx_env" where
  "sample_tx_env = \<lparr>parse_json = (\<lambda>body. Some (Obj [(''create_account'', Bool True), (''tx'', Str body), (''address'', Str ''A''), (''view_key'', Str body),
       (''tx_hash'', Str ''h''), (''txid'', Str ''h''), (''amount'', Number 40)])),
     make_hash = id, parse_address = (\<lambda>_. True),
     parse_viewkey = Some, spawn_ok = True, block_time = (\<lambda>_. Some 9), seconds_now = 10, current_height = 100, setup_import_fee = 0,
     max_number_of_blocks_to_import = 20,
     payment_chain = \<lparr>mempool = [], block_txs_at = (\<lambda>_. None), parse_payment_id = Some, payment_id_of = (\<lambda>_. []),
       amount_paid = (\<lambda>_. 0), hash_of_tx = (\<lambda>_. [])\<rparr>,
     random_payment_id = ''p'', integrated_address = Some, lexical_cast = (\<lambda>str. Some (of_nat (length str))), txs_view = wallet_view,
     pool = [], fork_version = 12, base_fee = 1, random_source = sample_source, rct_field = (\<lambda>_ _. []),
     read_hash = Some, chain_tx = (\<lambda>h. if h = ''h'' then Some 7 else None), pool_txs = [(5, 3)], tx_hash_of = (\<lambda>_. ''hash''),
     tx_body = spending_tx, received_pub_key = (\<lambda>_. ''pk''), is_coinbase_tx = (\<lambda>_. False), fee_of_tx = (\<lambda>_. 1), blob_size = (\<lambda>_. 900),
     height_of_hash = (\<lambda>_. Some 90), account_ok = (\<lambda>_ _. True),
     identify_outputs = (\<lambda>_ _ _. [\<lparr>oi_pub_key = ''o'', oi_amount = 50, oi_idx_in_tx = 0, oi_rtc_outpk = [], oi_rtc_mask = [], oi_rtc_amount = []\<rparr>]),
     total_of_outputs = (\<lambda>outs. \<Sum>out\<leftarrow>outs. oi_amount out), identify_inputs = (\<lambda>_ _ _ _. []), view_key_ok = (\<lambda>_. True),
     address_parses = (\<lambda>_. True), payment_ids_of = (\<lambda>_. (None, None)), blob_of_hex = Some,
     tx_of_blob = (\<lambda>b. Some (of_nat (length b))), commit = (\<lambda>_. None), build_info = ([], [], [], []), api_version = 1,
     network_number = 0, is_testnet = False\<rparr>"

theorem submit_is_guarded_witness:
  "\<exists>r r'. submit_raw_tx sample_tx_env ''abcd'' = Some (r, Some ''abcd'') \<and> code r = OK
     \<and> submit_raw_tx sample_tx_env ''abc'' = Some (r', None) \<and> code r' = UNPROCESSABLE_ENTITY"
proof -
  have bound: "Option.bind (parse_json sample_tx_env body) (get_string ''tx'') = Some body" "blob_of_hex sample_tx_env body = Some body"
      "tx_of_blob sample_tx_env body = Some (of_nat (length body))" "commit sample_tx_env body = None" for body
    by (simp_all add: sample_tx_env_def)
  have "key_image_bytes (spending_tx k) = [[k]]" for k
    by (simp add: key_image_bytes_def get_key_images_def spending_tx_def)
  then have conf: "conflicts sample_tx_env k \<longleftrightarrow> k = 3" for k
    by (simp add: conflicts_def sample_tx_env_def)
  have some: "\<exists>r h. submit_raw_tx sample_tx_env body = Some (r, h)" for body
    by (cases "images_in_pool sample_tx_env (of_nat (length body))") (simp_all add: submit_raw_tx_def bound del: of_nat_numeral)
  obtain r h where r: "submit_raw_tx sample_tx_env ''abcd'' = Some (r, h)" using some by blast
  obtain r' h' where r': "submit_raw_tx sample_tx_env ''abc'' = Some (r', h')" using some by blast
  have n: "length ''abcd'' = 4" "length ''abc'' = 3" by simp_all
  have four: "h = Some ''abcd''"
    using submit_is_guarded [OF r, of "''abcd''"] by (simp only: bound conf option.inject n) simp
  have "h' \<noteq> Some x" for x
    using submit_is_guarded [OF r', of x] by (simp only: bound conf option.inject) (auto simp: bound conf n)
  then have three: "h' = None" by (metis not_None_eq)
  have "code r = OK" "code r' \<noteq> OK"
    using submit_is_guarded [OF r, THEN conjunct2, THEN conjunct1] submit_is_guarded [OF r', THEN conjunct2, THEN conjunct1]
    by (simp_all add: four three bound)
  then show ?thesis using r r' four three by (cases "code r'") simp_all
qed

text \<open>For a transaction in the chain, \<open>get_tx\<close> tells what the account spent in it, the sum over all its inputs in the table and one entry
  for each, to everybody who knows the address of an account whose search runs and the hash: the view key of the request only has to be one that an account can be
  made of, it is not compared with that of the account.\<close>

theorem get_tx_needs_no_key:
  assumes "parse_json env body = Some req" and "get_string ''address'' req = Some a" and "get_string ''view_key'' req = Some any_key"
    and "get_string ''tx_hash'' req = Some hash_str" and "read_hash env hash_str = Some h" and "chain_tx env h = Some tx"
    and "account_ok env a any_key" and "search_thread_exist a (srv_threads s)" and "db_ok (srv_db s)"
    and "select_account a (srv_db s) = Some acc" and "tx_exists (acc_id acc) hash_str (srv_db s) = Some row"
    and "select_inputs_for_tx (tx_id row) (srv_db s) = ins" and "ins \<noteq> []"
  shows "code (get_tx env body s) = OK
    \<and> get_string ''total_sent'' (response (get_tx env body s)) = Some (to_string (\<Sum>i\<leftarrow>ins. in_amount i))
    \<and> (\<exists>spent. jget ''spent_outputs'' (response (get_tx env body s)) = Some (Arr spent) \<and> length spent = length ins)
    \<and> get_string ''payment_id'' (response (get_tx env body s)) = Some (tx_payment_id row)"
proof -
  have "parse_request env body [''address'', ''view_key'', ''tx_hash''] Null = Inr req"
    using assms(1-4) get_string_count by (simp add: parse_request_def)
  moreover have "look_up_tx env h = Some (tx, 0, False)" using assms(6) by (simp add: look_up_tx_def)
  moreover have obj: "is_obj (tx_facts env h tx 0 j)" for j by (simp add: tx_facts_def Let_def split: prod.split)
  have "set ins \<subseteq> set (Inputs (srv_db s))" using assms(12) by (auto simp: select_inputs_for_tx_def)
  note sums = spent_outputs_db [OF assms(9) this]
  ultimately show ?thesis
    using assms sums by (cases "height_of_hash env h") (simp_all add: get_tx_def tx_spendings_def Let_def case_prod_beta)
qed

definition tx_server :: server where
  "tx_server = balance_server\<lparr>srv_db := snd (insert_inputs [\<lparr>in_id = 0, in_account_id = 1, in_tx_id = 3, in_output_id = 4, key_image = ''i'',
     in_amount = 50, in_timestamp = 12\<rparr>] (srv_db balance_server))\<rparr>"

lemma tx_server_rows:
  "db_ok (srv_db tx_server)" "select_account ''A'' (srv_db tx_server) = Some import_account" "search_thread_exist ''A'' (srv_threads tx_server)"
  "tx_exists 1 ''h'' (srv_db tx_server) = Some (wallet_tx\<lparr>tx_id := 3\<rparr>)"
  "map in_amount (select_inputs_for_tx 3 (srv_db tx_server)) = [50]"
proof -
  show "db_ok (srv_db tx_server)" unfolding tx_server_def by (simp add: insert_rows_ok balance_server_ok)
qed (simp_all add: tx_server_def balance_server_defs add_input_def select_account_def search_thread_exist_def tx_exists_def
  select_inputs_for_tx_def)

theorem get_tx_needs_no_key_witness:
  "\<exists>r. get_tx sample_tx_env ''wrong key'' tx_server = r \<and> make_hash sample_tx_env ''wrong key'' \<noteq> viewkey_hash import_account
     \<and> get_string ''total_sent'' (response r) = Some (to_string 50)"
proof -
  obtain req where req: "parse_json sample_tx_env ''wrong key'' = Some req" "get_string ''address'' req = Some ''A''"
      "get_string ''view_key'' req = Some ''wrong key''" "get_string ''tx_hash'' req = Some ''h''"
    by (simp add: sample_tx_env_def)
  have chain: "read_hash sample_tx_env ''h'' = Some ''h''" "chain_tx sample_tx_env ''h'' = Some 7" "account_ok sample_tx_env ''A'' ''wrong key''"
    by (simp_all add: sample_tx_env_def)
  have one: "acc_id import_account = 1" "tx_id (wallet_tx\<lparr>tx_id := 3\<rparr>) = 3" by (simp_all add: import_account_def)
  obtain ins where ins: "select_inputs_for_tx 3 (srv_db tx_server) = ins" "map in_amount ins = [50]" "ins \<noteq> []"
    using tx_server_rows(5) by auto
  show ?thesis
    using get_tx_needs_no_key [OF req chain tx_server_rows(3,1,2), unfolded one, OF tx_server_rows(4) _ ins(3)] ins
    by (simp add: one sample_tx_env_def import_account_def)
qed

text \<open>The part of the answer that matters.\<close>

definition verdict :: "reply \<Rightarrow> bool option \<times> bool option \<times> bool option" where
  "verdict r = (get_bool ''error'' (response r), get_bool ''found'' (response r), get_bool ''correct'' (response r))"

lemma confirm_fields:
  "is_obj confirm_template" "get_bool ''correct'' confirm_template = Some False" "get_bool ''found'' confirm_template = Some False"
  "get_bool ''error'' confirm_template = Some False"
  by (simp_all add: confirm_template_def)

lemma verdict_refused:
  "is_obj j \<Longrightarrow> get_bool ''found'' j = Some False \<Longrightarrow> get_bool ''correct'' j = Some False \<Longrightarrow>
    verdict (refuse_confirm msg j) = (Some True, Some False, Some False)"
  by (simp add: verdict_def refuse_confirm_def)

text \<open>A request with all its fields.\<close>

definition confirm_fields_of :: "('tx, 'e) tx_env_scheme \<Rightarrow> string \<Rightarrow> string \<Rightarrow> string \<Rightarrow> u64 \<Rightarrow> string \<Rightarrow> bool" where
  "confirm_fields_of env body a k amount hash_str \<longleftrightarrow> (\<exists>req. parse_json env body = Some req \<and> get_string ''address'' req = Some a
     \<and> get_string ''view_key'' req = Some k \<and> get_number ''amount'' req = Some amount \<and> get_string ''txid'' req = Some hash_str)"

lemma confirm_read:
  "confirm_fields_of env body a k amount hash_str \<Longrightarrow> confirm_tx_sent env body = confirm_payment env a k amount hash_str confirm_template"
  using get_string_count get_number_count by (fastforce simp: confirm_fields_of_def confirm_tx_sent_def parse_request_def)

lemma confirm_unread:
  assumes "\<nexists>a k amount hash_str. confirm_fields_of env body a k amount hash_str"
  shows "verdict (confirm_tx_sent env body) = (Some True, Some False, Some False)"
proof (cases "parse_request env body [''address'', ''view_key'', ''amount'', ''txid''] confirm_template")
  case (Inl j)
  then have "is_obj j" "get_bool ''found'' j = Some False" "get_bool ''correct'' j = Some False"
    by (auto simp: parse_request_def confirm_fields split: option.splits)
  then show ?thesis using Inl by (simp add: confirm_tx_sent_def verdict_refused)
next
  case (Inr req)
  then have "parse_json env body = Some req" by (auto simp: parse_request_def split: option.splits)
  then have "get_string ''address'' req = None \<or> get_string ''view_key'' req = None \<or> get_number ''amount'' req = None
      \<or> get_string ''txid'' req = None"
    using assms by (auto simp: confirm_fields_of_def)
  then have "confirm_tx_sent env body = refuse_confirm ''json error'' confirm_template"
    using Inr by (auto simp: confirm_tx_sent_def split: option.split)
  then show ?thesis by (simp add: verdict_refused confirm_fields)
qed

text \<open>What the outputs for an address add up to, in a transaction that can be found.\<close>

definition pays_address :: "('tx, 'e) tx_env_scheme \<Rightarrow> string \<Rightarrow> string \<Rightarrow> string \<Rightarrow> u64 \<Rightarrow> bool" where
  "pays_address env a k hash_str received \<longleftrightarrow> (\<exists>h tx time in_pool. read_hash env hash_str = Some h \<and> view_key_ok env k \<and> address_parses env a
     \<and> look_up_tx env h = Some (tx, time, in_pool) \<and> account_ok env a k \<and> received = (\<Sum>out\<leftarrow>identify_outputs env a k tx. oi_amount out))"

lemma confirm_verdict:
  "pays_address env a k hash_str received \<Longrightarrow> verdict (confirm_payment env a k amount hash_str confirm_template)
    = (Some False, Some (received \<noteq> 0), Some (received \<noteq> 0 \<and> amount \<le> received))"
  "\<nexists>received. pays_address env a k hash_str received \<Longrightarrow> \<exists>e. verdict (confirm_payment env a k amount hash_str confirm_template)
    = (Some e, Some False, Some False)"
  by (auto simp: pays_address_def confirm_payment_def verdict_def refuse_confirm_def session_close_def confirm_fields Let_def split: option.splits)

text \<open>C16: \<open>confirm_tx_sent\<close> answers \<open>found\<close> exactly when the request has all its fields and they parse, the transaction is in the chain or
  in the pool, an account can be made of the address and the key, and the outputs that are found with them have a sum that is not zero; it answers
  \<open>correct\<close> exactly when that sum is also at least the amount asked for. A request without one of its fields gets an error.\<close>

theorem confirm_is_exact:
  "(get_bool ''correct'' (response (confirm_tx_sent env body)) = Some True \<longleftrightarrow>
      (\<exists>a k amount hash_str received. confirm_fields_of env body a k amount hash_str \<and> pays_address env a k hash_str received
         \<and> received \<noteq> 0 \<and> amount \<le> received))
   \<and> (get_bool ''found'' (response (confirm_tx_sent env body)) = Some True \<longleftrightarrow>
      (\<exists>a k amount hash_str received. confirm_fields_of env body a k amount hash_str \<and> pays_address env a k hash_str received
         \<and> received \<noteq> 0))
   \<and> ((\<nexists>a k amount hash_str. confirm_fields_of env body a k amount hash_str) \<longrightarrow>
      get_bool ''error'' (response (confirm_tx_sent env body)) = Some True)"
proof -
  have unique: "a = a' \<and> k = k' \<and> n = n' \<and> h = h'"
    if "confirm_fields_of env body a k n h" "confirm_fields_of env body a' k' n' h'" for a k n h a' k' n' h'
    using that by (auto simp: confirm_fields_of_def)
  have same: "x = y" if "pays_address env a k h x" "pays_address env a k h y" for a k h x y
    using that by (auto simp: pays_address_def)
  have *: "(get_bool ''correct'' (response (confirm_tx_sent env body)) = Some True \<longleftrightarrow>
       (\<exists>a k n h x. confirm_fields_of env body a k n h \<and> pays_address env a k h x \<and> x \<noteq> 0 \<and> n \<le> x))
    \<and> (get_bool ''found'' (response (confirm_tx_sent env body)) = Some True \<longleftrightarrow>
       (\<exists>a k n h x. confirm_fields_of env body a k n h \<and> pays_address env a k h x \<and> x \<noteq> 0))"
  proof (cases "\<exists>a k n h. confirm_fields_of env body a k n h")
    case True
    then obtain a k n h where f: "confirm_fields_of env body a k n h" by blast
    show ?thesis
    proof (cases "\<exists>x. pays_address env a k h x")
      case True
      then obtain x where x: "pays_address env a k h x" by blast
      have "(\<exists>a k n h x. confirm_fields_of env body a k n h \<and> pays_address env a k h x \<and> P n x) \<longleftrightarrow> P n x" for P
        using f x unique same by blast
      then show ?thesis using confirm_verdict(1) [OF x, of n] by (simp add: confirm_read [OF f] verdict_def)
    next
      case False
      then obtain e where "verdict (confirm_payment env a k n h confirm_template) = (Some e, Some False, Some False)"
        using confirm_verdict(2) [of env a k h n] by blast
      moreover have "\<not> (confirm_fields_of env body a' k' n' h' \<and> pays_address env a' k' h' x)" for a' k' n' h' x
        using f False unique by blast
      ultimately show ?thesis by (simp add: confirm_read [OF f] verdict_def)
    qed
  qed (use confirm_unread [of env body] in \<open>simp add: verdict_def\<close>)
  moreover have "(\<nexists>a k amount hash_str. confirm_fields_of env body a k amount hash_str) \<longrightarrow>
       get_bool ''error'' (response (confirm_tx_sent env body)) = Some True"
    using confirm_unread [of env body] by (simp add: verdict_def)
  ultimately show ?thesis by blast
qed

theorem confirm_is_exact_witness:
  "get_bool ''correct'' (response (confirm_tx_sent sample_tx_env ''k'')) = Some True
     \<and> get_bool ''error'' (response (confirm_tx_sent (sample_tx_env\<lparr>parse_json := \<lambda>_. None\<rparr>) ''k'')) = Some True"
proof -
  have "confirm_fields_of sample_tx_env ''k'' ''A'' ''k'' 40 ''h''" by (simp add: confirm_fields_of_def sample_tx_env_def)
  moreover have "pays_address sample_tx_env ''A'' ''k'' ''h'' 50" by (auto simp: pays_address_def sample_tx_env_def look_up_tx_def)
  moreover have "(50 :: u64) \<noteq> 0" "(40 :: u64) \<le> 50" by simp_all
  ultimately have "get_bool ''correct'' (response (confirm_tx_sent sample_tx_env ''k'')) = Some True"
    using confirm_is_exact [of sample_tx_env "''k''"] by blast
  moreover have "\<nexists>a k n h. confirm_fields_of (sample_tx_env\<lparr>parse_json := \<lambda>_. None\<rparr>) ''k'' a k n h"
    by (simp add: confirm_fields_of_def)
  ultimately show ?thesis using confirm_is_exact [of "sample_tx_env\<lparr>parse_json := \<lambda>_. None\<rparr>" "''k''"] by blast
qed

end
