(* ===== verification/ScanLoop.thy ===== *)
theory ScanLoop
  imports TxRecord
begin

text \<open>
  The loop of \<open>TxSearch::operator()\<close> (\<open>src/src/TxSearch.cpp\<close> 87-166 and 605-633): which window of blocks a round
  scans, what it does without blocks, and what it writes back. What the chain and the clock answer in a
  round is the record \<open>chain_answer\<close>; the recording of the transactions is \<open>process_txs\<close> of \<open>TxRecord\<close>.
\<close>

section \<open>One round\<close>

text \<open>
  \<open>last_block_height\<close> is the height the monitor has stored, \<open>blocks h1 h2\<close> the time stamps of the blocks that
  \<open>get_blocks_range(h1, h2)\<close> returns, \<open>block_txs\<close> the transactions of those blocks (\<open>None\<close> when
  \<open>get_txs_in_blocks\<close> fails), \<open>idle\<close> the time since the last ping.
\<close>

record chain_answer =
  last_block_height :: u64
  blocks :: "u64 \<Rightarrow> u64 \<Rightarrow> u64 list"
  block_txs :: "tx_info list option"
  idle :: u64

record scan_config =
  blocks_lookahead :: u64
  thread_search_life :: u64
  record_env :: scan_env

text \<open>\<open>windows\<close> lists the windows that were scanned; the code does not keep it.\<close>

record scanner =
  sc_searched_blk_no :: u64
  sc_got_updated :: bool
  sc_continue :: bool
  sc_account :: XmrAccount
  sc_db :: db
  sc_known :: "string \<rightharpoonup> u64"
  windows :: "(u64 \<times> u64) list"

datatype round_end = Loop | Returned_Early | Exception search_error

definition window_of :: "scan_config \<Rightarrow> chain_answer \<Rightarrow> scanner \<Rightarrow> u64 \<times> u64" where
  "window_of c a s =
     (let h1 = sc_searched_blk_no s in (h1, min (h1 + blocks_lookahead c - 1) (last_block_height a)))"

text \<open>No blocks: \<open>stop()\<close> when there should have been some, and when nobody asked for too long.\<close>

definition wait_round :: "scan_config \<Rightarrow> chain_answer \<Rightarrow> scanner \<Rightarrow> scanner" where
  "wait_round c a s =
     (let (h1, h2) = window_of c a s;
          s = (if h1 \<le> h2 then s\<lparr>sc_continue := False\<rparr> else s)
      in if idle a > thread_search_life c then s\<lparr>sc_continue := False\<rparr> else s)"

text \<open>The end of a round: the account row in the database, its copy, and the next block.\<close>

definition finish_round :: "u64 \<Rightarrow> u64 \<Rightarrow> u64 \<Rightarrow> scanner \<Rightarrow> scanner" where
  "finish_round h1 h2 timestamp s =
     (let updated = (sc_account s)\<lparr>scanned_block_height := h2, scanned_block_timestamp := timestamp\<rparr>;
          (ok, d) = update_account (sc_account s) updated (sc_db s);
          s = s\<lparr>sc_db := d, sc_account := (if ok then updated else sc_account s), windows := windows s @ [(h1, h2)]\<rparr>;
          s = (if \<not> sc_got_updated s then s\<lparr>sc_searched_blk_no := h2 + 1\<rparr> else s)
      in s\<lparr>sc_got_updated := False\<rparr>)"

definition scan_round :: "scan_config \<Rightarrow> chain_answer \<Rightarrow> scanner \<Rightarrow> round_end \<times> scanner" where
  "scan_round c a s =
     (let (h1, h2) = window_of c a s in
      if blocks a h1 h2 = [] then (Loop, wait_round c a s)
      else case block_txs a of
             None \<Rightarrow> (Returned_Early, s)
           | Some infos \<Rightarrow>
               let (e, r) = process_txs (record_env c) infos
                     \<lparr>r_db = sc_db s, r_base = None, r_known = sc_known s, r_blk_timestamp = None, r_tx_id = 0\<rparr>;
                   s = s\<lparr>sc_db := r_db r, sc_known := r_known r\<rparr>
               in case e of
                    Some e \<Rightarrow> (Exception e, s)
                  | None \<Rightarrow> (Loop, finish_round h1 h2 (last (blocks a h1 h2)) s))"

text \<open>The \<open>while\<close> loop over the answers of the chain, as many rounds as there are answers.\<close>

fun scan_loop :: "scan_config \<Rightarrow> chain_answer list \<Rightarrow> scanner \<Rightarrow> round_end \<times> scanner" where
  "scan_loop c [] s = (Loop, s)"
| "scan_loop c (a # as) s =
     (if \<not> sc_continue s then (Loop, s)
      else case scan_round c a s of (Loop, s) \<Rightarrow> scan_loop c as s | (stop, s) \<Rightarrow> (stop, s))"

text \<open>A search object for an account starts where the row of the account says.\<close>

definition new_scanner :: "XmrAccount \<Rightarrow> (string \<rightharpoonup> u64) \<Rightarrow> db \<Rightarrow> scanner" where
  "new_scanner acc known d =
     \<lparr>sc_searched_blk_no = scanned_block_height acc, sc_got_updated = False, sc_continue = True, sc_account = acc,
      sc_db = d, sc_known = known, windows = []\<rparr>"

section \<open>What recording leaves alone\<close>

lemma insert_accounts:
  "insert_transaction t d = (row, d') \<Longrightarrow> Accounts d' = Accounts d"
  "insert_outputs rows d = (n, d') \<Longrightarrow> Accounts d' = Accounts d"
  "insert_inputs ins d = (n, d') \<Longrightarrow> Accounts d' = Accounts d"
  by (auto simp: insert_transaction_def dest: output_table.insert_rows_rest input_table.insert_rows_rest split: if_splits)

lemma delete_accounts: "delete_existing_tx_if_exists account h d = (ok, d') \<Longrightarrow> Accounts d' = Accounts d"
  by (auto simp: delete_existing_tx_if_exists_def delete_tx_def Let_def split: option.splits if_splits)

definition accounts_kept :: "XmrAccount list \<Rightarrow> recording \<Rightarrow> bool" where
  "accounts_kept accs r \<longleftrightarrow> Accounts (r_db r) = accs \<and> (\<forall>b. r_base r = Some b \<longrightarrow> Accounts b = accs)"

lemma open_accounts:
  "accounts_kept accs r \<Longrightarrow> open_transaction env info (window_timestamp info r) = (e, r') \<Longrightarrow> accounts_kept accs r'"
  by (auto simp: accounts_kept_def open_transaction_def split: option.splits prod.splits dest!: delete_accounts)

lemma record_accounts:
  assumes "accounts_kept accs r"
  shows "record_outputs env info r = (res, r') \<Longrightarrow> accounts_kept accs r'"
    and "record_inputs env info r = (res, r') \<Longrightarrow> accounts_kept accs r'"
proof -
  obtain e r1 where r1: "open_transaction env info (window_timestamp info r) = (e, r1)" by force
  have k: "accounts_kept accs r1" by (rule open_accounts [OF assms r1])
  show "accounts_kept accs r'" if "record_outputs env info r = (res, r')"
    using that r1 k assms unfolding record_outputs_def
    by (auto simp: accounts_kept_def Let_def split: prod.splits option.splits if_splits dest!: insert_accounts)
  show "accounts_kept accs r'" if "record_inputs env info r = (res, r')"
    using that r1 k assms unfolding record_inputs_def
    by (auto simp: accounts_kept_def Let_def split: prod.splits option.splits if_splits dest!: insert_accounts)
qed

lemma close_accounts: "accounts_kept accs r \<Longrightarrow> Accounts (r_db (close_transaction commit r)) = accs"
  by (auto simp: accounts_kept_def close_transaction_def split: option.split)

lemma process_tx_accounts: "process_tx env info r = (res, r') \<Longrightarrow> Accounts (r_db r') = Accounts (r_db r)"
proof -
  assume p: "process_tx env info r = (res, r')"
  let ?r = "r\<lparr>r_base := None, r_tx_id := 0\<rparr>"
  obtain res1 r1 where r1: "record_outputs env info ?r = (res1, r1)" by force
  obtain res2 r2 where r2: "record_inputs env info r1 = (res2, r2)" by force
  have "accounts_kept (Accounts (r_db r)) ?r" by (simp add: accounts_kept_def)
  then have k1: "accounts_kept (Accounts (r_db r)) r1" by (rule record_accounts(1) [OF _ r1])
  then have k2: "accounts_kept (Accounts (r_db r)) r2" by (rule record_accounts(2) [OF _ r2])
  have "\<exists>x commit. r' = close_transaction commit x \<and> accounts_kept (Accounts (r_db r)) x"
    using p r1 r2 k1 k2 by (cases res1; cases res2) (auto simp: process_tx_def)
  then show ?thesis using close_accounts by blast
qed

lemma process_txs_accounts: "process_txs env infos r = (e, r') \<Longrightarrow> Accounts (r_db r') = Accounts (r_db r)"
proof (induction infos arbitrary: r)
  case (Cons info infos)
  obtain res r1 where p: "process_tx env info r = (res, r1)" by force
  then show ?case using Cons process_tx_accounts [OF p] by (auto split: outcome.splits)
qed simp

section \<open>Windows\<close>

text \<open>The heights of a list of windows, in the order in which they are scanned.\<close>

definition heights :: "(u64 \<times> u64) list \<Rightarrow> nat list" where
  "heights ws = concat (map (\<lambda>(a, b). [unat a..<Suc (unat b)]) ws)"

definition scan_inv :: "scan_config \<Rightarrow> u64 \<Rightarrow> scanner \<Rightarrow> bool" where
  "scan_inv c start s \<longleftrightarrow> db_ok (sc_db s) \<and> sc_account s \<in> set (Accounts (sc_db s)) \<and> \<not> sc_got_updated s
     \<and> heights (windows s) = [unat start..<unat (sc_searched_blk_no s)] \<and> start \<le> sc_searched_blk_no s
     \<and> (windows s \<noteq> [] \<longrightarrow> scanned_block_height (sc_account s) + 1 = sc_searched_blk_no s)
     \<and> (blocks_lookahead c \<noteq> 0 \<longrightarrow> (\<forall>(a, b)\<in>set (windows s). unat b < unat a + unat (blocks_lookahead c)))"

lemma update_own_row:
  assumes "db_ok d" "acc \<in> set (Accounts d)" "acc_id new = acc_id acc" "acc_address new = acc_address acc"
    and "update_account acc new d = (ok, d')"
  shows "(if ok then new else acc) \<in> set (Accounts d')" "ok = (new \<noteq> acc)" "db_ok d'"
proof -
  have res: "(ok, d') = (if new \<noteq> acc then (True, d\<lparr>Accounts := map (\<lambda>a. if acc_id a = acc_id acc then new else a) (Accounts d)\<rparr>) else (False, d))"
    using update_account_row [OF assms(1-4)] assms(5) by (simp split: if_splits)
  then show "ok = (new \<noteq> acc)" by (auto split: if_splits)
  show "(if ok then new else acc) \<in> set (Accounts d')"
    using res assms(2) by (auto split: if_splits)
  show "db_ok d'" using update_same_key_ok(1) [OF assms(1,3)] assms(5) by simp
qed

lemma window_word:
  fixes a b la :: u64
  assumes "a \<le> b" "b \<le> a + la - 1" "la \<noteq> 0"
  shows "unat b < unat a + unat la"
proof -
  have le: "a + la - 1 \<le> a + la - 1" by simp
  have "unat (a + (la - 1)) \<le> unat a + unat (la - 1)" by (simp add: unat_word_ariths)
  moreover have "unat (la - 1) = unat la - 1" using assms(3) by (simp add: unat_minus_one)
  moreover have "unat b \<le> unat (a + (la - 1))" using assms(2) by (simp add: word_le_nat_alt algebra_simps)
  moreover have "0 < unat la" using assms(3) by (simp add: unat_gt_0)
  ultimately show ?thesis by linarith
qed

lemma unat_next: "(b :: u64) < - 1 \<Longrightarrow> unat (b + 1) = Suc (unat b)"
proof -
  assume "b < - 1"
  then have "1 + b \<noteq> 0" by (metis add.commute eq_neg_iff_add_eq_0 less_irrefl)
  then show ?thesis using unatSuc [of b] by (simp add: add.commute)
qed

lemma window_end:
  fixes h la peak :: u64
  assumes "unat h \<le> unat peak" "la \<noteq> 0" "unat peak + unat la < 2 ^ 64"
  shows "unat (min (h + la - 1) peak) = min (unat h + unat la - 1) (unat peak)"
proof -
  have one: "unat (la - 1) = unat la - 1" using assms(2) by (simp add: unat_minus_one)
  have la: "0 < unat la" using assms(2) by (simp add: unat_gt_0)
  have "h + la - 1 = h + (la - 1)" by simp
  then have "unat (h + la - 1) = (unat h + unat (la - 1)) mod 2 ^ LENGTH(64)" by (simp only: unat_word_ariths(1))
  also have "\<dots> = unat h + unat (la - 1)" using assms la one by (intro mod_less) simp
  finally show ?thesis using one la by (simp add: min_def word_le_nat_alt)
qed

text \<open>What the chain promises of a range: no blocks for an empty range, and no chain of maximal length.\<close>

definition answer_ok :: "chain_answer \<Rightarrow> bool" where
  "answer_ok a \<longleftrightarrow> last_block_height a < - 1 \<and> (\<forall>h1 h2. h2 < h1 \<longrightarrow> blocks a h1 h2 = [])"

lemma finish_round_inv:
  assumes inv: "scan_inv c start s" and w: "window_of c a s = (h1, h2)" and le: "h1 \<le> h2" and top: "last_block_height a < - 1"
  shows "scan_inv c start (finish_round h1 h2 ts s)"
    and "sc_searched_blk_no (finish_round h1 h2 ts s) = h2 + 1"
proof -
  let ?new = "(sc_account s)\<lparr>scanned_block_height := h2, scanned_block_timestamp := ts\<rparr>"
  note i = inv [unfolded scan_inv_def]
  obtain ok d where u: "update_account (sc_account s) ?new (sc_db s) = (ok, d)" by force
  have db: "db_ok (sc_db s)" and acc: "sc_account s \<in> set (Accounts (sc_db s))" using i by blast+
  have own: "(if ok then ?new else sc_account s) \<in> set (Accounts d)" "ok = (?new \<noteq> sc_account s)" "db_ok d"
    by (rule update_own_row [OF db acc _ _ u]; simp)+
  have row: "(if ok then ?new else sc_account s) = ?new" using own(2) by auto
  have h1: "h1 = sc_searched_blk_no s" and h2: "h2 = min (h1 + blocks_lookahead c - 1) (last_block_height a)"
    using w by (auto simp: window_of_def Let_def)
  have max: "h2 < - 1" using h2 top by (simp add: min_less_iff_disj)
  have nxt: "unat (h2 + 1) = Suc (unat h2)" by (rule unat_next [OF max])
  have fin: "finish_round h1 h2 ts s = s\<lparr>sc_db := d, sc_account := ?new, windows := windows s @ [(h1, h2)],
      sc_searched_blk_no := h2 + 1, sc_got_updated := False\<rparr>"
    using u row i by (simp add: finish_round_def Let_def)
  then show "sc_searched_blk_no (finish_round h1 h2 ts s) = h2 + 1" by simp
  have start: "unat start \<le> unat h1" "unat h1 \<le> unat h2" using i le by (simp_all add: h1 word_le_nat_alt)
  have "[unat start..<unat h1] @ [unat h1..<Suc (unat h2)] = [unat start..<Suc (unat h2)]"
    using start by (metis le_SucI upt_add_eq_append le_add_diff_inverse)
  then have hs: "heights (windows s @ [(h1, h2)]) = [unat start..<unat (h2 + 1)]"
    using i by (simp add: heights_def nxt h1)
  have "start \<le> h2 + 1" using start nxt by (simp add: word_le_nat_alt)
  moreover have "blocks_lookahead c \<noteq> 0 \<longrightarrow> unat h2 < unat h1 + unat (blocks_lookahead c)"
    using window_word [OF le] h2 by simp
  ultimately show "scan_inv c start (finish_round h1 h2 ts s)"
    unfolding fin scan_inv_def using own(1,3) row hs i by auto
qed

lemma scan_round_inv:
  assumes "scan_inv c start s" "answer_ok a" "scan_round c a s = (e, s')"
  shows "scan_inv c start s'"
proof -
  obtain h1 h2 where w: "window_of c a s = (h1, h2)" by force
  show ?thesis
  proof (cases "blocks a h1 h2 = []")
    case True
    then have "s' = wait_round c a s" using assms(3) w by (simp add: scan_round_def)
    then show ?thesis using assms(1) w by (auto simp: wait_round_def scan_inv_def Let_def)
  next
    case False
    then have le: "h1 \<le> h2" using assms(2) by (meson answer_ok_def not_less)
    show ?thesis
    proof (cases "block_txs a")
      case None
      then show ?thesis using assms False w by (simp add: scan_round_def)
    next
      case (Some infos)
      let ?r = "\<lparr>r_db = sc_db s, r_base = None, r_known = sc_known s, r_blk_timestamp = None, r_tx_id = 0\<rparr>"
      obtain x r where p: "process_txs (record_env c) infos ?r = (x, r)" by force
      let ?s = "s\<lparr>sc_db := r_db r, sc_known := r_known r\<rparr>"
      have db: "db_ok (r_db ?r)" using assms(1) by (simp add: scan_inv_def)
      have "db_ok (r_db r)" "Accounts (r_db r) = Accounts (sc_db s)"
        using process_txs_ok [OF db, of "record_env c" infos] process_txs_accounts [OF p] p by simp_all
      then have inv: "scan_inv c start ?s" using assms(1) by (simp add: scan_inv_def)
      have w': "window_of c a ?s = (h1, h2)" using w by (simp add: window_of_def)
      have "last_block_height a < - 1" using assms(2) by (simp add: answer_ok_def)
      note fin = finish_round_inv(1) [OF inv w' le this]
      show ?thesis
        using assms(3) False w Some p inv fin by (auto simp: scan_round_def Let_def split: option.splits)
    qed
  qed
qed

lemma scan_loop_inv:
  "\<lbrakk>scan_inv c start s; \<forall>a\<in>set as. answer_ok a; scan_loop c as s = (e, s')\<rbrakk> \<Longrightarrow> scan_inv c start s'"
proof (induction as arbitrary: s)
  case (Cons a as)
  obtain x s1 where r: "scan_round c a s = (x, s1)" by force
  have "scan_inv c start s1" using scan_round_inv [OF Cons.prems(1) _ r] Cons.prems(2) by simp
  then show ?case
    using Cons r by (cases x) (auto split: if_splits)
qed simp

lemma new_scanner_inv:
  "db_ok d \<Longrightarrow> acc \<in> set (Accounts d) \<Longrightarrow> scan_inv c (scanned_block_height acc) (new_scanner acc known d)"
  by (simp add: scan_inv_def new_scanner_def heights_def)

section \<open>Catching up\<close>

text \<open>A chain that stands at one height, has all its blocks, and no failing transaction in them.\<close>

definition steady :: "scan_config \<Rightarrow> chain_answer \<Rightarrow> bool" where
  "steady c a \<longleftrightarrow> answer_ok a \<and> (\<forall>h1 h2. h1 \<le> h2 \<longrightarrow> blocks a h1 h2 \<noteq> []) \<and> idle a \<le> thread_search_life c
     \<and> (\<exists>infos. block_txs a = Some infos \<and> (\<forall>r. fst (process_txs (record_env c) infos r) = None))"

lemma steady_round:
  assumes "scan_inv c start s" "steady c a" "sc_continue s" "window_of c a s = (h1, h2)" "h1 \<le> h2"
  shows "\<exists>s'. scan_round c a s = (Loop, s') \<and> sc_continue s' \<and> sc_searched_blk_no s' = h2 + 1"
proof -
  obtain infos where infos: "block_txs a = Some infos" "fst (process_txs (record_env c) infos r) = None" for r
    using assms(2) unfolding steady_def by blast
  let ?r = "\<lparr>r_db = sc_db s, r_base = None, r_known = sc_known s, r_blk_timestamp = None, r_tx_id = 0\<rparr>"
  obtain r where p: "process_txs (record_env c) infos ?r = (None, r)" using infos(2) [of ?r] by (metis prod.collapse)
  let ?s = "s\<lparr>sc_db := r_db r, sc_known := r_known r\<rparr>"
  have db: "db_ok (r_db ?r)" using assms(1) by (simp add: scan_inv_def)
  have "db_ok (r_db r)" "Accounts (r_db r) = Accounts (sc_db s)"
    using process_txs_ok [OF db, of "record_env c" infos] process_txs_accounts [OF p] p by simp_all
  then have inv: "scan_inv c start ?s" using assms(1) by (simp add: scan_inv_def)
  have w': "window_of c a ?s = (h1, h2)" using assms(4) by (simp add: window_of_def)
  have top: "last_block_height a < - 1" using assms(2) by (simp add: steady_def answer_ok_def)
  have "blocks a h1 h2 \<noteq> []" using assms(2,5) by (simp add: steady_def)
  then have "scan_round c a s = (Loop, finish_round h1 h2 (last (blocks a h1 h2)) ?s)"
    using assms(4) infos(1) p by (simp add: scan_round_def Let_def)
  moreover have "sc_continue (finish_round h1 h2 ts x) = sc_continue x" for ts x
    by (simp add: finish_round_def Let_def split: prod.split)
  ultimately show ?thesis using finish_round_inv(2) [OF inv w' assms(5) top] assms(3) by simp
qed

lemma steady_wait:
  assumes "scan_inv c start s" "steady c a" "window_of c a s = (h1, h2)" "h2 < h1"
  shows "scan_round c a s = (Loop, s)"
  using assms by (simp add: scan_round_def wait_round_def steady_def answer_ok_def not_le [symmetric])

lemma catch_up:
  assumes "steady c a" "blocks_lookahead c \<noteq> 0"
    and "unat (last_block_height a) + unat (blocks_lookahead c) < 2 ^ 64"
  shows "\<lbrakk>scan_inv c start s; sc_continue s; unat (sc_searched_blk_no s) \<le> Suc (unat (last_block_height a));
     Suc (unat (last_block_height a)) - unat (sc_searched_blk_no s) \<le> n * unat (blocks_lookahead c)\<rbrakk> \<Longrightarrow>
   \<exists>s'. scan_loop c (replicate n a) s = (Loop, s') \<and> sc_continue s' \<and> sc_searched_blk_no s' = last_block_height a + 1"
proof (induction n arbitrary: s)
  case 0
  have top: "unat (last_block_height a + 1) = Suc (unat (last_block_height a))"
    using assms(1) by (intro unat_next) (simp add: steady_def answer_ok_def)
  then show ?case using 0 by (simp add: word_unat_eq_iff)
next
  case (Suc n)
  have top: "unat (last_block_height a + 1) = Suc (unat (last_block_height a))"
    using assms(1) by (intro unat_next) (simp add: steady_def answer_ok_def)
  have la: "0 < unat (blocks_lookahead c)" using assms(2) by (simp add: unat_gt_0)
  obtain h1 h2 where w: "window_of c a s = (h1, h2)" by force
  have h: "h1 = sc_searched_blk_no s" "h2 = min (h1 + blocks_lookahead c - 1) (last_block_height a)"
    using w by (auto simp: window_of_def Let_def)
  show ?case
  proof (cases "unat h1 = Suc (unat (last_block_height a))")
    case True
    then have "last_block_height a < h1" by (simp add: word_less_nat_alt)
    then have "h2 < h1" using h(2) by (simp add: min_less_iff_disj)
    then have "scan_loop c (replicate (Suc n) a) s = scan_loop c (replicate n a) s"
      using steady_wait [OF Suc.prems(1) assms(1) w] Suc.prems(2) by simp
    moreover have "Suc (unat (last_block_height a)) - unat (sc_searched_blk_no s) \<le> n * unat (blocks_lookahead c)"
      using True h(1) by simp
    ultimately show ?thesis using Suc.IH [OF Suc.prems(1-3)] by simp
  next
    case False
    then have below: "unat h1 \<le> unat (last_block_height a)" using Suc.prems(3) h(1) by simp
    note h2 = window_end [OF below assms(2,3), folded h(2)]
    have le: "h1 \<le> h2" using h2 below la by (simp add: word_le_nat_alt)
    obtain s1 where s1: "scan_round c a s = (Loop, s1)" "sc_continue s1" "sc_searched_blk_no s1 = h2 + 1"
      using steady_round [OF Suc.prems(1) assms(1) Suc.prems(2) w le] by blast
    have inv: "scan_inv c start s1"
      using scan_round_inv [OF Suc.prems(1) _ s1(1)] assms(1) by (simp add: steady_def)
    have "h2 \<le> last_block_height a" using h(2) by simp
    then have "h2 < - 1" using assms(1) by (auto simp: steady_def answer_ok_def)
    then have n2: "unat (h2 + 1) = Suc (unat h2)" by (rule unat_next)
    have "unat (sc_searched_blk_no s1) \<le> Suc (unat (last_block_height a))" using s1(3) n2 h2 by simp
    moreover have "Suc (unat (last_block_height a)) - unat (sc_searched_blk_no s1) \<le> n * unat (blocks_lookahead c)"
      using Suc.prems(4) s1(3) n2 h2 h(1) la by (simp add: min_def split: if_splits)
    ultimately show ?thesis using Suc.IH [OF inv s1(2)] s1(1) Suc.prems(2) by simp
  qed
qed

section \<open>Properties\<close>

text \<open>C3: a search that nobody redirects scans every block from its start exactly once and in order: the
  windows of any number of rounds, put one after the other, are the heights from the start up to the next
  block, no window is longer than the look-ahead, and after at least one window the row of the account in
  the database holds the last scanned height, so that a search that starts from the row again repeats
  that block and skips none.\<close>

theorem scan_is_contiguous:
  assumes "db_ok d" and "acc \<in> set (Accounts d)" and "\<forall>a\<in>set as. answer_ok a"
    and "scan_loop c as (new_scanner acc known d) = (e, s)"
  shows "heights (windows s) = [unat (scanned_block_height acc)..<unat (sc_searched_blk_no s)]
    \<and> (blocks_lookahead c \<noteq> 0 \<longrightarrow> (\<forall>(a, b)\<in>set (windows s). unat b < unat a + unat (blocks_lookahead c)))
    \<and> sc_account s \<in> set (Accounts (sc_db s))
    \<and> (windows s \<noteq> [] \<longrightarrow> scanned_block_height (sc_account s) + 1 = sc_searched_blk_no s)"
  using scan_loop_inv [OF new_scanner_inv [OF assms(1,2)] assms(3,4)] by (simp add: scan_inv_def)

definition scan_sample_config :: scan_config where
  "scan_sample_config = \<lparr>blocks_lookahead = 3, thread_search_life = 600, record_env = sample_env\<rparr>"

definition scan_sample_answer :: chain_answer where
  "scan_sample_answer = \<lparr>last_block_height = 10, blocks = (\<lambda>h1 h2. if h2 < h1 then [] else [77]), block_txs = Some [], idle = 0\<rparr>"

definition scan_sample_account :: XmrAccount where
  "scan_sample_account = \<lparr>acc_id = 1, acc_address = ''A'', viewkey_hash = [], scanned_block_height = 0,
     scanned_block_timestamp = 0, start_height = 0, generated_locally = False\<rparr>"

lemma scan_sample_account_row: "scan_sample_account \<in> set (Accounts sample_db)"
  by (simp add: scan_sample_account_def sample_record_defs)

lemma scan_sample_answer_ok: "answer_ok scan_sample_answer"
  by (simp add: answer_ok_def scan_sample_answer_def)

lemma scan_sample_steady: "steady scan_sample_config scan_sample_answer"
  using scan_sample_answer_ok by (auto simp: steady_def scan_sample_config_def scan_sample_answer_def)

theorem scan_is_contiguous_witness:
  "let s = snd (scan_loop scan_sample_config [scan_sample_answer, scan_sample_answer] (new_scanner scan_sample_account Map.empty sample_db))
   in heights (windows s) = [0..<unat (sc_searched_blk_no s)] \<and> (\<forall>(a, b)\<in>set (windows s). unat b < unat a + 3)"
proof -
  let ?l = "scan_loop scan_sample_config [scan_sample_answer, scan_sample_answer] (new_scanner scan_sample_account Map.empty sample_db)"
  have eq: "?l = (fst ?l, snd ?l)" by simp
  have "\<forall>a\<in>set [scan_sample_answer, scan_sample_answer]. answer_ok a" using scan_sample_answer_ok by simp
  from scan_is_contiguous [OF sample_db_ok scan_sample_account_row this eq]
  show ?thesis by (simp add: Let_def scan_sample_account_def scan_sample_config_def)
qed



end
