(* ===== verification/ServerSystem.thy ===== *)
theory ServerSystem
  imports TxRequests ScanLoop
begin

text \<open>
  The whole backend (\<open>src/main.cpp\<close>, \<open>CurrentBlockchainStatus::monitor_blockchain\<close>): the twelve resources that restbed serves, the turns of the
  search threads, which scan windows of blocks on the tables and on the copy of the row that the handlers change, and the loop of
  the monitor, interleaved in any order. A request and a round of a search thread are one step each here; what happens when they
  overlap is in \<open>SearchThreads\<close>.
\<close>

section \<open>Requests\<close>

datatype request = Login | Ping | Get_Address_Txs | Get_Address_Info | Get_Unspent_Outs | Get_Random_Outs | Submit_Raw_Tx
  | Import_Wallet_Request | Import_Recent_Wallet_Request | Confirm_Tx_Sent | Get_Tx | Get_Version

text \<open>
  The replies and the server behind the handler of a resource; a handler that throws has no reply (restbed answers). The
  search for a payment may not return (\<open>None\<close>).
\<close>

definition handle :: "('tx, 'e) tx_env_scheme \<Rightarrow> request \<Rightarrow> string \<Rightarrow> server \<Rightarrow> (reply list \<times> server) option" where
  "handle env rq body s =
     (case rq of
        Login \<Rightarrow> let (r, s) = login env body s in Some ([r], s)
      | Ping \<Rightarrow> let (r, s) = ping env body s in Some ([r], s)
      | Get_Address_Txs \<Rightarrow> let (r, s) = get_address_txs env body s in Some (case r of Some r \<Rightarrow> [r] | None \<Rightarrow> [], s)
      | Get_Address_Info \<Rightarrow> let (r, s) = get_address_info env body s in Some ([r], s)
      | Get_Unspent_Outs \<Rightarrow> let (r, s) = get_unspent_outs env body s in Some ([r], s)
      | Get_Random_Outs \<Rightarrow> Some (fst (get_random_outs env body), s)
      | Submit_Raw_Tx \<Rightarrow> Some (case submit_raw_tx env body of Some (r, _) \<Rightarrow> [r] | None \<Rightarrow> [], s)
      | Import_Wallet_Request \<Rightarrow> map_option (\<lambda>(r, s). ([r], s)) (import_wallet_request env body s)
      | Import_Recent_Wallet_Request \<Rightarrow>
          Some (case import_recent_wallet_request env body s of Some (r, s) \<Rightarrow> ([r], s) | None \<Rightarrow> ([], s))
      | Confirm_Tx_Sent \<Rightarrow> Some ([confirm_tx_sent env body], s)
      | Get_Tx \<Rightarrow> Some ([get_tx env body s], s)
      | Get_Version \<Rightarrow> Some ([get_version env], s))"

section \<open>Search threads\<close>

text \<open>What a search thread works on, and what it leaves.\<close>

definition scanner_of :: "string \<Rightarrow> tx_search \<Rightarrow> XmrAccount \<Rightarrow> server \<Rightarrow> scanner" where
  "scanner_of a t acc s =
     \<lparr>sc_searched_blk_no = searched_blk_no t, sc_got_updated = searched_block_got_updated t, sc_continue = continue_search t,
      sc_account = acc, sc_db = srv_db s, sc_known = thread_known s a, windows = []\<rparr>"

definition in_thread :: "string \<Rightarrow> (tx_search \<Rightarrow> tx_search) \<Rightarrow> server \<Rightarrow> server" where
  "in_thread a f s = s\<lparr>srv_threads := update_thread a f (srv_threads s)\<rparr>"

definition thread_after :: "scanner \<Rightarrow> tx_search \<Rightarrow> tx_search" where
  "thread_after sc t = t\<lparr>searched_blk_no := sc_searched_blk_no sc, searched_block_got_updated := sc_got_updated sc,
     continue_search := sc_continue sc\<rparr>"

definition put_scanner :: "string \<Rightarrow> scanner \<Rightarrow> server \<Rightarrow> server" where
  "put_scanner a sc s = in_thread a (thread_after sc)
     (s\<lparr>srv_db := sc_db sc, thread_accs := (thread_accs s)(a \<mapsto> sc_account sc), thread_known := (thread_known s)(a := sc_known sc)\<rparr>)"

text \<open>The account's key in the rows that the thread writes.\<close>

definition with_account :: "XmrAccount \<Rightarrow> scan_config \<Rightarrow> scan_config" where
  "with_account acc c = c\<lparr>record_env := (record_env c)\<lparr>account_id := acc_id acc\<rparr>\<rparr>"

text \<open>One turn of the thread of an address: the line in front of the loop, one round of it, or one of the lines behind it.\<close>

definition thread_turn :: "scan_config \<Rightarrow> chain_answer \<Rightarrow> nat \<Rightarrow> string \<Rightarrow> server \<Rightarrow> server" where
  "thread_turn c answer now a s =
     (case (get_search_thread a (srv_threads s), thread_accs s a) of
        (Some t, Some acc) \<Rightarrow>
          (case phase t of
             Created \<Rightarrow> in_thread a search_enter s
           | Looping \<Rightarrow>
               if \<not> continue_search t then in_thread a search_leave s
               else
                 let answer = answer\<lparr>idle := of_nat (now - last_ping_timestamp t)\<rparr>;
                     (e, sc) = scan_round (with_account acc c) answer (scanner_of a t acc s);
                     s = put_scanner a sc s
                 in (case e of
                       Loop \<Rightarrow> s
                     | Returned_Early \<Rightarrow> in_thread a search_return_early s
                     | Exception _ \<Rightarrow> in_thread a search_leave s)
           | Finishing \<Rightarrow> in_thread a (\<lambda>t. stop_search (t\<lparr>phase := Returned\<rparr>)) s
           | Returned \<Rightarrow> s)
      | _ \<Rightarrow> s)"

section \<open>The monitor\<close>

text \<open>
  \<open>known_height\<close> and \<open>known_pool\<close> are what the monitor has read last; \<open>stop_loop\<close> is set by \<open>stop\<close>.
\<close>

record 'p monitor =
  known_height :: u64
  known_pool :: "(u64 \<times> 'p) list"
  stop_loop :: bool
  is_running :: bool

text \<open>
  \<open>pool_answer\<close> is the node's pool (\<open>None\<close> when it cannot be had), \<open>receive_time\<close> when a transaction came into it. The pool is only
  replaced when all of it was read.
\<close>

definition read_mempool :: "'p list option \<Rightarrow> ('p \<Rightarrow> u64 option) \<Rightarrow> (u64 \<times> 'p) list \<Rightarrow> bool \<times> (u64 \<times> 'p) list" where
  "read_mempool pool_answer receive_time mempool_txs =
     (case pool_answer of
        None \<Rightarrow> (False, mempool_txs)
      | Some txs \<Rightarrow>
          (case parse_all (\<lambda>tx. map_option (\<lambda>time. (time, tx)) (receive_time tx)) txs of
             None \<Rightarrow> (False, mempool_txs)
           | Some local_mempool_txs \<Rightarrow> (True, local_mempool_txs)))"

definition in_threads :: "(search_state \<Rightarrow> search_state) \<Rightarrow> server \<Rightarrow> server" where
  "in_threads f s = s\<lparr>srv_threads := f (srv_threads s)\<rparr>"

text \<open>One round of \<open>monitor_blockchain\<close>: its last one stops all threads and takes out those that are not in their loop.\<close>

definition monitor_round :: "u64 option \<Rightarrow> 'p list option \<Rightarrow> ('p \<Rightarrow> u64 option) \<Rightarrow> 'p monitor \<times> server \<Rightarrow> 'p monitor \<times> server" where
  "monitor_round height_answer pool_answer receive_time ms =
     (let (m, s) = ms in
      if stop_loop m
      then (m\<lparr>is_running := False\<rparr>, in_threads (clean_search_thread_map \<circ> stop_search_threads) s)
      else (m\<lparr>known_height := update_current_blockchain_height height_answer (known_height m),
              known_pool := snd (read_mempool pool_answer receive_time (known_pool m))\<rparr>,
            in_threads clean_search_thread_map s))"

text \<open>The line in front of the loop.\<close>

definition start_monitor :: "'p monitor \<Rightarrow> 'p monitor" where
  "start_monitor m = (if \<not> is_running m then m\<lparr>is_running := True\<rparr> else m)"

definition stop_monitor :: "'p monitor \<Rightarrow> 'p monitor" where
  "stop_monitor m = m\<lparr>stop_loop := True\<rparr>"

text \<open>
  The number of threads of the pool that asks the node. The configured number has 64 bits and is cut to 32, so that a multiple of
  \<open>2 ^ 32\<close> gives no thread at all.
\<close>

definition threads_no :: "u32 \<Rightarrow> u64 \<Rightarrow> u32" where
  "threads_no hardware_concurrency configured =
     (let n = max (hardware_concurrency div 2) 2 - 1;
          n = (if configured > 0 then ucast configured else n)
      in if n > 100 then 100 else n)"

section \<open>The system\<close>

text \<open>
  \<open>envs\<close> are the surroundings that requests may meet: the clock, the chain, what identification says. Requests and threads see the
  height that the monitor has read last.
\<close>

inductive system_run :: "('tx, 'e) tx_env_scheme set \<Rightarrow> 'p monitor \<times> server \<Rightarrow> 'p monitor \<times> server \<Rightarrow> bool" for envs where
  request: "\<lbrakk>env \<in> envs; current_height env = known_height m; handle env rq body s = Some (replies, s')\<rbrakk>
    \<Longrightarrow> system_run envs (m, s) (m, s')"
| turn: "last_block_height answer = known_height m \<Longrightarrow> system_run envs (m, s) (m, thread_turn c answer now a s)"
| monitor: "is_running m \<Longrightarrow> system_run envs (m, s) (monitor_round height_answer pool_answer receive_time (m, s))"
| start: "system_run envs (m, s) (start_monitor m, s)"
| stop: "system_run envs (m, s) (stop_monitor m, s)"

text \<open>The hash of view keys and their parsing do not change.\<close>

definition same_keys :: "(string \<Rightarrow> string) \<Rightarrow> (string \<Rightarrow> string option) \<Rightarrow> ('tx, 'e) tx_env_scheme set \<Rightarrow> bool" where
  "same_keys hash key envs \<longleftrightarrow> (\<forall>env\<in>envs. make_hash env = hash \<and> parse_viewkey env = key)"

section \<open>What every step keeps\<close>

text \<open>
  The thread of an address has a copy of the row of the address, which is the row in the table, and a view key whose hash is
  the one in the row.
\<close>

definition thread_ok :: "(string \<Rightarrow> string) \<Rightarrow> (string \<Rightarrow> string option) \<Rightarrow> server \<Rightarrow> string \<Rightarrow> tx_search \<Rightarrow> bool" where
  "thread_ok hash key s a t \<longleftrightarrow> (\<exists>acc k. thread_accs s a = Some acc \<and> acc \<in> set (Accounts (srv_db s)) \<and> acc_address acc = a
     \<and> hash k = viewkey_hash acc \<and> key k = Some (viewkey_hex t))"

definition server_ok :: "(string \<Rightarrow> string) \<Rightarrow> (string \<Rightarrow> string option) \<Rightarrow> server \<Rightarrow> bool" where
  "server_ok hash key s \<longleftrightarrow> db_ok (srv_db s) \<and> search_inv (srv_threads s)
     \<and> (\<forall>a t. get_search_thread a (srv_threads s) = Some t \<longrightarrow> thread_ok hash key s a t)"

text \<open>No row of an account is lost, and what identifies it does not change.\<close>

definition same_account :: "XmrAccount \<Rightarrow> XmrAccount \<Rightarrow> bool" where
  "same_account acc new \<longleftrightarrow> acc_id new = acc_id acc \<and> acc_address new = acc_address acc \<and> viewkey_hash new = viewkey_hash acc
     \<and> generated_locally new = generated_locally acc"

definition rows_kept :: "db \<Rightarrow> db \<Rightarrow> bool" where
  "rows_kept d d' \<longleftrightarrow> (\<forall>acc\<in>set (Accounts d). \<exists>new\<in>set (Accounts d'). same_account acc new)"

definition keeps :: "(string \<Rightarrow> string) \<Rightarrow> (string \<Rightarrow> string option) \<Rightarrow> server \<Rightarrow> server \<Rightarrow> bool" where
  "keeps hash key s s' \<longleftrightarrow> (server_ok hash key s \<longrightarrow> server_ok hash key s' \<and> rows_kept (srv_db s) (srv_db s'))"

lemma same_account_refl [simp]: "same_account acc acc"
  by (simp add: same_account_def)

lemma rows_kept_same: "Accounts d' = Accounts d \<Longrightarrow> rows_kept d d'"
  by (auto simp: rows_kept_def intro: bexI [rotated])

lemma rows_kept_trans: "rows_kept d d' \<Longrightarrow> rows_kept d' d'' \<Longrightarrow> rows_kept d d''"
  unfolding rows_kept_def same_account_def by metis

lemma keeps_refl [simp]: "keeps hash key s s"
  by (simp add: keeps_def rows_kept_same)

lemma keeps_trans: "keeps hash key s s' \<Longrightarrow> keeps hash key s' s'' \<Longrightarrow> keeps hash key s s''"
  unfolding keeps_def using rows_kept_trans by blast

text \<open>A statement that leaves the accounts alone.\<close>

lemma keeps_db:
  assumes "Accounts d = Accounts (srv_db s)" "db_ok (srv_db s) \<Longrightarrow> db_ok d"
  shows "keeps hash key s (s\<lparr>srv_db := d\<rparr>)"
  using assms by (simp add: keeps_def server_ok_def thread_ok_def rows_kept_same)

text \<open>A step of the threads that starts none.\<close>

lemma keeps_threads:
  assumes "search_inv (srv_threads s) \<Longrightarrow> search_inv ts"
    and "\<And>a t. get_search_thread a ts = Some t \<Longrightarrow>
      \<exists>t0. get_search_thread a (srv_threads s) = Some t0 \<and> viewkey_hex t = viewkey_hex t0"
  shows "keeps hash key s (s\<lparr>srv_threads := ts\<rparr>)"
  using assms by (simp add: keeps_def server_ok_def thread_ok_def rows_kept_same) metis

lemma keeps_update_thread:
  assumes "system_step (srv_threads s) (update_thread a f (srv_threads s))" "\<And>t. viewkey_hex (f t) = viewkey_hex t"
  shows "keeps hash key s (s\<lparr>srv_threads := update_thread a f (srv_threads s)\<rparr>)"
  using assms system_step_inv by (intro keeps_threads) (auto simp: get_update)

lemma keeps_known [simp]: "keeps hash key s (s\<lparr>thread_known := known\<rparr>)"
  by (simp add: keeps_def server_ok_def thread_ok_def rows_kept_same)

lemma keeps_ping: "keeps hash key s (s\<lparr>srv_threads := snd (ping_search_thread now a (srv_threads s))\<rparr>)"
  using keeps_update_thread [of s a "\<lambda>t. t\<lparr>last_ping_timestamp := now\<rparr>"] system_step.ping [of "srv_threads s" now a]
  by (cases "search_thread_exist a (srv_threads s)") (simp_all add: ping_search_thread_def)

lemma keeps_set_blk: "keeps hash key s (s\<lparr>srv_threads := snd (set_new_searched_blk_no a n (srv_threads s))\<rparr>)"
  using keeps_update_thread [of s a "set_searched_blk_no n"] system_step.rescan [of "srv_threads s" a n]
  by (cases "search_thread_exist a (srv_threads s)") (simp_all add: set_new_searched_blk_no_def set_searched_blk_no_def)

lemma keeps_exist_key: "keeps hash key s (s\<lparr>srv_threads := snd (search_thread_exist_key a k (srv_threads s))\<rparr>)"
proof (rule keeps_threads)
  show "search_inv (srv_threads s) \<Longrightarrow> search_inv (snd (search_thread_exist_key a k (srv_threads s)))"
    using system_step_inv [OF system_step.login] by blast
qed (auto simp: search_thread_exist_key_def get_viewkey_def get_search_thread_def Let_def split: option.splits if_splits prod.splits)

lemma map_of_filter_Some: "distinct (map fst xs) \<Longrightarrow> map_of (filter P xs) a = Some t \<Longrightarrow> map_of xs a = Some t"
  by (auto dest!: map_of_SomeD intro!: map_of_is_SomeI)

lemma keeps_clean: "keeps hash key s (in_threads clean_search_thread_map s)"
proof -
  have "server_ok hash key s \<Longrightarrow> distinct (map fst (searching_threads (srv_threads s)))"
    by (simp add: server_ok_def search_inv_def)
  moreover have "keeps hash key s (in_threads clean_search_thread_map s)"
    if "distinct (map fst (searching_threads (srv_threads s)))"
    unfolding in_threads_def
  proof (rule keeps_threads)
    show "search_inv (srv_threads s) \<Longrightarrow> search_inv (clean_search_thread_map (srv_threads s))"
      using system_step_inv [OF system_step.clean] by blast
  qed (use map_of_filter_Some [OF that] in \<open>auto simp: get_search_thread_def clean_search_thread_map_def\<close>)
  ultimately show ?thesis unfolding keeps_def by blast
qed

lemma keeps_stop: "keeps hash key s (in_threads stop_search_threads s)"
  unfolding in_threads_def
proof (rule keeps_threads)
  show "search_inv (srv_threads s) \<Longrightarrow> search_inv (stop_search_threads (srv_threads s))"
    using system_step_inv [OF system_step.stop] by blast
  have "map_of (map (\<lambda>(a, t). (a, stop_search t)) xs) a = map_option stop_search (map_of xs a)"
    for xs :: threads and a
    by (induction xs) auto
  moreover have "viewkey_hex (stop_search t) = viewkey_hex t" for t :: tx_search by (simp add: stop_search_def)
  ultimately show "get_search_thread a (stop_search_threads (srv_threads s)) = Some t \<Longrightarrow>
      \<exists>t0. get_search_thread a (srv_threads s) = Some t0 \<and> viewkey_hex t = viewkey_hex t0" for a t
    by (auto simp: get_search_thread_def stop_search_threads_def)
qed

section \<open>Accounts and the start of a search\<close>

text \<open>A handler's account: its row is in the table, under the address and with the hash of the key of the request.\<close>

definition own_row :: "(string \<Rightarrow> string) \<Rightarrow> string \<Rightarrow> string \<Rightarrow> XmrAccount \<Rightarrow> server \<Rightarrow> bool" where
  "own_row hash a k acc s \<longleftrightarrow> acc \<in> set (Accounts (srv_db s)) \<and> acc_address acc = a \<and> hash k = viewkey_hash acc"

lemma keeps_insert_account: "keeps hash key s (s\<lparr>srv_db := snd (insert_account acc (srv_db s))\<rparr>)"
proof -
  have "set (Accounts (srv_db s)) \<subseteq> set (Accounts (snd (insert_account acc (srv_db s))))"
    by (auto simp: insert_account_def)
  then show ?thesis
    using insert_account_ok [of "srv_db s" acc]
    by (fastforce simp: keeps_def server_ok_def thread_ok_def rows_kept_def intro: same_account_refl)
qed

lemma create_account_keeps:
  assumes "create_account env a k locally (srv_db s) = (r, d)"
  shows "keeps hash key s (s\<lparr>srv_db := d\<rparr>)"
    and "WalletDb.select_account a (srv_db s) = None \<Longrightarrow> r = Some acc \<Longrightarrow> own_row (make_hash env) a k acc (s\<lparr>srv_db := d\<rparr>)"
proof -
  show "keeps hash key s (s\<lparr>srv_db := d\<rparr>)"
  proof (cases "WalletDb.select_account a (srv_db s)")
    case None
    then have "\<exists>acc. d = snd (insert_account acc (srv_db s))"
      using assms by (auto simp: create_account_def Let_def split: option.splits prod.splits if_splits) (metis snd_conv)+
    then show ?thesis using keeps_insert_account by blast
  next
    case (Some acc)
    then have "s\<lparr>srv_db := d\<rparr> = s" using assms by (simp add: create_account_def)
    then show ?thesis by simp
  qed
  show "own_row (make_hash env) a k acc (s\<lparr>srv_db := d\<rparr>)" if "WalletDb.select_account a (srv_db s) = None" "r = Some acc"
    using assms that by (auto simp: create_account_def Let_def own_row_def insert_account_def split: option.splits prod.splits if_splits)
qed

lemma start_search_keeps:
  assumes "own_row (make_hash env) a k acc s" "construct_tx_search env acc k = Some t"
  shows "keeps (make_hash env) (parse_viewkey env) s (snd (start_search env acc t s))"
    and "srv_db (snd (start_search env acc t s)) = srv_db s"
proof -
  let ?ts = "snd (start_tx_search_thread (spawn_ok env) a t (srv_threads s))"
  have a: "acc_address acc = a" using assms(1) by (simp add: own_row_def)
  obtain hex where t: "t = new_tx_search (scanned_block_height acc) (unat (seconds_now env)) hex" "parse_viewkey env k = Some hex"
    using assms(2) by (auto simp: construct_tx_search_def split: if_splits)
  show "srv_db (snd (start_search env acc t s)) = srv_db s" by (simp add: start_search_def Let_def case_prod_beta)
  have inv: "search_inv (srv_threads s) \<Longrightarrow> search_inv ?ts"
    using system_step_inv [OF system_step.start] unfolding t(1) by blast
  have vk: "viewkey_hex t = hex" by (simp add: t(1) new_tx_search_def)
  show "keeps (make_hash env) (parse_viewkey env) s (snd (start_search env acc t s))"
  proof (cases "\<not> search_thread_exist a (srv_threads s) \<and> spawn_ok env")
    case True
    then have old: "get_search_thread a (srv_threads s) = None" using exist_iff by auto
    have get: "get_search_thread b ?ts = (if b = a then Some t else get_search_thread b (srv_threads s))" for b
      using True old by (auto simp: start_tx_search_thread_def get_search_thread_def map_add_def split: option.split)
    have "snd (start_search env acc t s) = s\<lparr>srv_threads := ?ts, thread_accs := (thread_accs s)(a \<mapsto> acc),
        thread_known := (thread_known s)(a := populate_known_outputs acc (srv_db s))\<rparr>"
      using True a by (simp add: start_search_def start_tx_search_thread_def)
    then show ?thesis
      using assms(1) inv get old t(2) vk
      by (auto simp: keeps_def server_ok_def thread_ok_def own_row_def rows_kept_same split: if_splits)
  next
    case False
    then have "snd (start_search env acc t s) = s"
      using a by (auto simp: start_search_def start_tx_search_thread_def)
    then show ?thesis by simp
  qed
qed

lemma select_own_row:
  "WalletDb.select_account a (srv_db s) = Some acc \<Longrightarrow> hash k = viewkey_hash acc \<Longrightarrow> own_row hash a k acc s"
  using select_account_row [of a "srv_db s" acc] by (simp add: own_row_def)

lemma login_start_keeps:
  assumes "login_and_start_search_thread env a k j s = (r, j', s')"
  shows "keeps (make_hash env) (parse_viewkey env) s s'" "srv_db s' = srv_db s"
    "r = Some acc \<Longrightarrow> own_row (make_hash env) a k acc s'"
proof -
  have *: "keeps (make_hash env) (parse_viewkey env) s s' \<and> srv_db s' = srv_db s
      \<and> (r = Some acc \<longrightarrow> own_row (make_hash env) a k acc s')" for acc
  proof (cases "WalletDb.select_account a (srv_db s)")
    case (Some row)
    note row = select_own_row [OF Some, of "make_hash env" k]
    show ?thesis
    proof (cases "make_hash env k = viewkey_hash row")
      case True
      note start = start_search_keeps [OF row [OF True]]
      show ?thesis
        using assms Some True row [OF True] start
        by (fastforce simp: login_and_start_search_thread_def Let_def own_row_def split: if_splits option.splits prod.splits bool.splits)
    qed (use assms Some in \<open>auto simp: login_and_start_search_thread_def Let_def\<close>)
  qed (use assms in \<open>auto simp: login_and_start_search_thread_def Let_def\<close>)
  show "keeps (make_hash env) (parse_viewkey env) s s'" "srv_db s' = srv_db s"
    "r = Some acc \<Longrightarrow> own_row (make_hash env) a k acc s'" using * by blast+
qed

lemma login_started_keeps:
  "keeps (make_hash env) (parse_viewkey env) s (snd (snd (login_and_start_search_thread env a k j s)))"
  using login_start_keeps(1) [of env a k j s] by (metis prod.collapse)

lemma make_search_keeps:
  assumes "own_row (make_hash env) a k acc s" "make_search_thread env acc k s = (ok, s')"
  shows "keeps (make_hash env) (parse_viewkey env) s s'" "srv_db s' = srv_db s"
proof -
  have "s' = s \<or> (\<exists>t. construct_tx_search env acc k = Some t \<and> s' = snd (start_search env acc t s))"
    using assms(2) by (auto simp: make_search_thread_def split: if_splits option.splits)
  then show "keeps (make_hash env) (parse_viewkey env) s s'" "srv_db s' = srv_db s"
    using start_search_keeps [OF assms(1)] by auto
qed

lemma select_account_of_keeps:
  assumes "select_account_of env a k create s = (r, s')"
  shows "keeps (make_hash env) (parse_viewkey env) s s'" "r = Some acc \<Longrightarrow> own_row (make_hash env) a k acc s'"
proof -
  have *: "keeps (make_hash env) (parse_viewkey env) s s' \<and> (r = Some acc \<longrightarrow> own_row (make_hash env) a k acc s')" for acc
  proof (cases "WalletDb.select_account a (srv_db s)")
    case (Some row)
    then show ?thesis
      using assms select_own_row [OF Some, of "make_hash env" k] by (auto simp: select_account_of_def Let_def split: if_splits)
  next
    case None
    show ?thesis
    proof (cases "create")
      case False
      then show ?thesis using assms None by (auto simp: select_account_of_def Let_def)
    next
      case True
      obtain r1 d where c: "create_account env a k True (srv_db s) = (r1, d)" by force
      note made = create_account_keeps [OF c]
      show ?thesis
      proof (cases r1)
        case None
        then show ?thesis using assms c True \<open>WalletDb.select_account a (srv_db s) = None\<close> made(1)
          by (auto simp: select_account_of_def Let_def)
      next
        case (Some row)
        note own = made(2) [OF None Some]
        obtain ok s2 where m: "make_search_thread env row k (s\<lparr>srv_db := d\<rparr>) = (ok, s2)" by force
        note run = make_search_keeps [OF own m]
        have "keeps (make_hash env) (parse_viewkey env) s s2" using keeps_trans [OF made(1) run(1)] .
        moreover have "own_row (make_hash env) a k row s2" using own run(2) by (simp add: own_row_def)
        ultimately show ?thesis using assms c m True None Some
          by (auto simp: select_account_of_def Let_def split: bool.splits if_splits)
      qed
    qed
  qed
  show "keeps (make_hash env) (parse_viewkey env) s s'" "r = Some acc \<Longrightarrow> own_row (make_hash env) a k acc s'" using * by blast+
qed

text \<open>The row, the thread and its copy are moved together.\<close>

lemma update_row_keeps:
  assumes "server_ok hash key s" "acc \<in> set (Accounts (srv_db s))" "same_account acc new" "update_account acc new (srv_db s) = (ok, d)"
    and "accs = (if ok then (thread_accs s)(acc_address acc \<mapsto> new) else thread_accs s)"
  shows "server_ok hash key (s\<lparr>srv_db := d, thread_accs := accs\<rparr>)" "rows_kept (srv_db s) d"
proof -
  have ok: "db_ok (srv_db s)" using assms(1) by (simp add: server_ok_def)
  have id: "acc_id new = acc_id acc" "acc_address new = acc_address acc" using assms(3) by (simp_all add: same_account_def)
  note upd = update_account_row [OF ok assms(2) id]
  have own: "b = acc" if "b \<in> set (Accounts (srv_db s))" "acc_id b = acc_id acc \<or> acc_address b = acc_address acc" for b
    using ok keyed_find [of acc_id "Accounts (srv_db s)" b acc] keyed_find [of acc_address "Accounts (srv_db s)" b acc] that assms(2)
    by (auto simp: db_ok_simps)
  have rows: "Accounts d = (if ok then map (\<lambda>b. if acc_id b = acc_id acc then new else b) (Accounts (srv_db s)) else Accounts (srv_db s))"
    using assms(4) upd by (auto split: if_splits)
  show kept: "rows_kept (srv_db s) d"
    unfolding rows_kept_def
  proof
    fix b assume b: "b \<in> set (Accounts (srv_db s))"
    show "\<exists>b'\<in>set (Accounts d). same_account b b'"
    proof (cases "ok \<and> b = acc")
      case True
      then show ?thesis using b assms(3) rows by (intro bexI [of _ new]) auto
    next
      case False
      then show ?thesis using b rows own [OF b] by (intro bexI [of _ b]) auto
    qed
  qed
  have "db_ok d" using update_own_row(3) [OF ok assms(2) id assms(4)] .
  moreover have "thread_ok hash key (s\<lparr>srv_db := d, thread_accs := accs\<rparr>) a t"
    if t: "get_search_thread a (srv_threads s) = Some t" for a t
  proof -
    obtain b k where b: "thread_accs s a = Some b" "b \<in> set (Accounts (srv_db s))" "acc_address b = a" "hash k = viewkey_hash b"
        "key k = Some (viewkey_hex t)"
      using assms(1) t unfolding server_ok_def thread_ok_def by blast
    show ?thesis
    proof (cases "ok \<and> a = acc_address acc")
      case True
      then have "b = acc" using own [OF b(2)] b(3) by simp
      then show ?thesis using True b assms(2,3,5) rows
        by (auto simp: thread_ok_def same_account_def intro!: exI [of _ k])
    next
      case False
      then have "b \<in> set (Accounts d)" "accs a = Some b" using b rows own [OF b(2)] assms(5) by auto
      then show ?thesis using b by (auto simp: thread_ok_def)
    qed
  qed
  ultimately show "server_ok hash key (s\<lparr>srv_db := d, thread_accs := accs\<rparr>)"
    using assms(1) by (simp add: server_ok_def)
qed

lemma server_ok_accs:
  assumes "\<And>a t. get_search_thread a (srv_threads s) = Some t \<Longrightarrow> accs a = thread_accs s a"
  shows "server_ok hash key (s\<lparr>thread_accs := accs\<rparr>) = server_ok hash key s"
  using assms by (simp add: server_ok_def thread_ok_def)

lemma move_scan_keeps:
  assumes "acc \<in> set (Accounts (srv_db s))" "acc_address acc = a" "same_account acc new"
  shows "keeps hash key s (snd (move_scan msgs a acc new s))"
  unfolding keeps_def
proof
  assume ok: "server_ok hash key s"
  obtain moved d where d: "update_account acc new (srv_db s) = (moved, d)" by force
  let ?accs = "if moved then (thread_accs s)(acc_address acc \<mapsto> new) else thread_accs s"
  note upd = update_row_keeps [OF ok assms(1,3) d refl]
  let ?s1 = "s\<lparr>srv_db := d, thread_accs := ?accs\<rparr>"
  have db: "srv_db (snd (move_scan msgs a acc new s)) = d" using d by (simp add: move_scan_db)
  have "server_ok hash key (snd (move_scan msgs a acc new s))"
  proof (cases "moved \<and> search_thread_exist a (srv_threads s)")
    case True
    have "snd (move_scan msgs a acc new s)
        = ?s1\<lparr>srv_threads := snd (set_new_searched_blk_no a (scanned_block_height new) (srv_threads ?s1))\<rparr>"
    proof -
      have ex: "search_thread_exist a (update_thread a f ts) = search_thread_exist a ts" for f ts
        unfolding search_thread_exist_def by (simp flip: set_map)
      show ?thesis using True d assms(2)
        by (simp add: move_scan_def update_acc_def set_new_searched_blk_no_def ex Let_def)
    qed
    moreover have "keeps hash key ?s1 (?s1\<lparr>srv_threads := snd (set_new_searched_blk_no a (scanned_block_height new) (srv_threads ?s1))\<rparr>)"
      by (rule keeps_set_blk)
    ultimately show ?thesis using upd(1) unfolding keeps_def by metis
  next
    case False
    then have "snd (move_scan msgs a acc new s) = s\<lparr>srv_db := d\<rparr>"
      using d by (cases moved) (simp_all add: move_scan_def set_new_searched_blk_no_def Let_def)
    moreover have "server_ok hash key (s\<lparr>srv_db := d, thread_accs := ?accs\<rparr>) = server_ok hash key (s\<lparr>srv_db := d\<rparr>)"
    proof -
      have "?accs b = thread_accs s b" if "get_search_thread b (srv_threads s) = Some t" for b t
        using False that exist_iff [of a "srv_threads s"] assms(2) by auto
      then show ?thesis using server_ok_accs [of "s\<lparr>srv_db := d\<rparr>" ?accs hash key] by simp
    qed
    ultimately show ?thesis using upd(1) by simp
  qed
  then show "server_ok hash key (snd (move_scan msgs a acc new s)) \<and> rows_kept (srv_db s) (srv_db (snd (move_scan msgs a acc new s)))"
    using upd(2) db by simp
qed

section \<open>Every handler\<close>

lemma login_keeps: "keeps (make_hash env) (parse_viewkey env) s (snd (login env body s))"
proof -
  have "keeps (make_hash env) (parse_viewkey env) s (snd (login_as env a k locally create_only s))" for a k locally create_only
  proof -
    obtain r1 s1 where s1: "select_account_of env a k False s = (r1, s1)" by force
    note k1 = select_account_of_keeps(1) [OF s1]
    obtain r2 d where d: "(case r1 of None \<Rightarrow> create_account env a k locally (srv_db s1) | Some _ \<Rightarrow> (r1, srv_db s1)) = (r2, d)" by force
    have k2: "keeps (make_hash env) (parse_viewkey env) s1 (s1\<lparr>srv_db := d\<rparr>)"
      using d create_account_keeps(1) [of env a k locally s1 r2 d] by (cases r1) auto
    have k3: "keeps (make_hash env) (parse_viewkey env) (s1\<lparr>srv_db := d\<rparr>) s3"
      if "login_and_start_search_thread env a k j (s1\<lparr>srv_db := d\<rparr>) = (r, j', s3)" for j r j' s3
      using login_start_keeps(1) [OF that] .
    note k12 = keeps_trans [OF k1 k2]
    show ?thesis
      using s1 d k12 keeps_trans [OF k12 k3]
      by (cases r2) (auto simp: login_as_def Let_def split: prod.splits)
  qed
  then show ?thesis
    by (auto simp: login_def Let_def split: sum.split option.split)
qed

lemma ping_keeps: "keeps (make_hash env) (parse_viewkey env) s (snd (ping env body s))"
proof -
  have "keeps (make_hash env) (parse_viewkey env) s
      (s\<lparr>srv_threads := snd (ping_search_thread now a (snd (search_thread_exist_key a k (srv_threads s))))\<rparr>)" for now a k
    using keeps_trans [OF keeps_exist_key [of _ _ s a k] keeps_ping [of _ _ "s\<lparr>srv_threads := snd (search_thread_exist_key a k (srv_threads s))\<rparr>" now a]]
    by simp
  then show ?thesis
    using keeps_exist_key [of "make_hash env" "parse_viewkey env" s]
    by (auto simp: ping_def Let_def case_prod_beta split: sum.split option.split)
qed

lemma check_accounts: "Accounts (snd (snd (spendability_check c txs d))) = Accounts d"
  by (induction c txs d rule: spendability_check.induct)
     (auto simp: mark_spendable_def delete_tx_def Let_def case_prod_beta split: if_splits)

lemma check_keeps: "keeps hash key s (s\<lparr>srv_db := snd (snd (spendability_check c (select_transactions row (srv_db s)) (srv_db s)))\<rparr>)"
proof (rule keeps_db [OF check_accounts])
  show "db_ok (srv_db s) \<Longrightarrow> db_ok (snd (snd (spendability_check c (select_transactions row (srv_db s)) (srv_db s))))"
    using check_account [of "srv_db s" c row] by auto
qed

lemma get_address_txs_keeps: "keeps (make_hash env) (parse_viewkey env) s (snd (get_address_txs env body s))"
proof -
  have *: "keeps (make_hash env) (parse_viewkey env) s (s1\<lparr>srv_db := snd (snd (spendability_check c (select_transactions row (srv_db s1)) (srv_db s1)))\<rparr>)"
    if "s1 = snd (snd (login_and_start_search_thread env a k j s))" for a k j s1 c row
    unfolding that by (rule keeps_trans [OF login_started_keeps check_keeps])
  show ?thesis
    using * login_started_keeps
    by (auto simp: get_address_txs_def Let_def case_prod_beta split: sum.split option.split prod.split)
qed

lemma follow_row_keeps: "keeps hash key s (follow_row a acc s)"
  using keeps_set_blk by (auto simp: follow_row_def split: option.split)

lemma get_address_info_keeps: "keeps (make_hash env) (parse_viewkey env) s (snd (get_address_info env body s))"
proof -
  have *: "keeps (make_hash env) (parse_viewkey env) s
      ((follow_row a acc (s1\<lparr>srv_threads := snd (ping_search_thread now a (srv_threads s1))\<rparr>))\<lparr>srv_db := snd (snd (spendability_check c
        (select_transactions row (srv_db (follow_row a acc (s1\<lparr>srv_threads := snd (ping_search_thread now a (srv_threads s1))\<rparr>))))
        (srv_db (follow_row a acc (s1\<lparr>srv_threads := snd (ping_search_thread now a (srv_threads s1))\<rparr>)))))\<rparr>)"
    if "s1 = snd (snd (login_and_start_search_thread env a k j s))" for a k j s1 now acc c row
    unfolding that by (rule keeps_trans [OF keeps_trans [OF keeps_trans [OF login_started_keeps keeps_ping] follow_row_keeps] check_keeps])
  show ?thesis
    using * login_started_keeps
    by (auto simp: get_address_info_def Let_def case_prod_beta split: sum.split option.split prod.split)
qed

lemma get_unspent_outs_keeps: "keeps (make_hash env) (parse_viewkey env) s (snd (get_unspent_outs env body s))"
  using login_started_keeps
  by (auto simp: get_unspent_outs_def Let_def case_prod_beta split: sum.split option.split prod.split)

lemma import_scan_keeps:
  assumes "own_row hash a k acc s"
  shows "keeps hash key s (snd (move_scan msgs a acc (acc\<lparr>scanned_block_height := n, start_height := m\<rparr>) s))"
    "keeps hash key s (snd (move_scan msgs a acc (acc\<lparr>scanned_block_height := n\<rparr>) s))"
  using assms by (auto simp: own_row_def same_account_def intro!: move_scan_keeps)

lemma new_payment_keeps: "keeps hash key s (snd (new_payment env j acc p s))"
proof -
  have "keeps hash key s (s\<lparr>srv_db := snd (insert_payment q (srv_db s))\<rparr>)" for q
    by (rule keeps_db [OF _ insert_payment_ok]) (simp_all add: insert_payment_def)
  then show ?thesis by (auto simp: new_payment_def Let_def case_prod_beta)
qed

lemma check_payment_keeps:
  assumes "own_row hash a k acc s" "p \<in> set (Payments (srv_db s))" "check_payment env j a acc p s = Some (r, s')"
  shows "keeps hash key s s'"
proof -
  have pay: "keeps hash key s (s\<lparr>srv_db := snd (update_payment p (p\<lparr>request_fulfilled := True, pay_tx_hash := h\<rparr>) (srv_db s))\<rparr>)" for h
  proof (rule keeps_db)
    show "Accounts (snd (update_payment p (p\<lparr>request_fulfilled := True, pay_tx_hash := h\<rparr>) (srv_db s))) = Accounts (srv_db s)"
      by (simp add: update_payment_def Let_def)
    show "db_ok (srv_db s) \<Longrightarrow> db_ok (snd (update_payment p (p\<lparr>request_fulfilled := True, pay_tx_hash := h\<rparr>) (srv_db s)))"
      using assms(2) by (intro update_payment_ok) (auto simp: db_ok_simps)
  qed
  have own: "own_row hash a k acc (s\<lparr>srv_db := snd (update_payment p q (srv_db s))\<rparr>)" for q
    using assms(1) by (simp add: own_row_def update_payment_def Let_def)
  obtain integrated where i: "integrated_address env (payment_id p) = Some integrated \<or> s' = s"
    using assms(3) by (cases "integrated_address env (payment_id p)") (auto simp: check_payment_def)
  show ?thesis
  proof (cases "s' = s")
    case False
    then obtain h where h: "search_if_payment_made (payment_chain env) (current_height env) (payment_id p) (import_fee p) = Some (Some h)"
      using assms(3) i by (auto simp: check_payment_def bind_eq_Some_conv Let_def split: option.splits)
    obtain ok d where d: "update_payment p (p\<lparr>request_fulfilled := True, pay_tx_hash := h\<rparr>) (srv_db s) = (ok, d)" by force
    obtain msg s2 where s2: "move_scan paid_msgs a acc (acc\<lparr>scanned_block_height := 0, start_height := 0\<rparr>) (s\<lparr>srv_db := d\<rparr>) = (msg, s2)"
      by force
    have "s' = s\<lparr>srv_db := d\<rparr> \<or> s' = s2"
      using assms(3) i h d s2 False by (cases ok; cases msg) (auto simp: check_payment_def Let_def)
    then show ?thesis
      using pay [of h] keeps_trans [OF pay [of h] import_scan_keeps(1) [OF own]] d s2 by (metis snd_conv)
  qed simp
qed

lemma import_wallet_keeps:
  assumes "import_wallet_request env body s = Some (r, s')"
  shows "keeps (make_hash env) (parse_viewkey env) s s'"
proof (cases "parse_request env body [''address'', ''view_key''] Null")
  case (Inr req)
  show ?thesis
  proof (cases "(get_string ''address'' req, get_string ''view_key'' req)")
    case (Pair oa ok)
    show ?thesis
    proof (cases "oa = None \<or> ok = None")
      case False
      then obtain a k where ak: "get_string ''address'' req = Some a" "get_string ''view_key'' req = Some k" using Pair by auto
      obtain acc1 s1 where s1: "select_account_of env a k True s = (acc1, s1)" by force
      note found = select_account_of_keeps [OF s1]
      show ?thesis
      proof (cases acc1)
        case None
        then show ?thesis using assms Inr ak s1 found(1) by (simp add: import_wallet_request_def Let_def)
      next
        case (Some acc)
        note own = found(2) [OF Some]
        have "keeps (make_hash env) (parse_viewkey env) s1 s'"
        proof (cases "setup_import_fee env = 0")
          case True
          then have "s' = snd (free_import (import_answer env) a acc s1)"
            using assms Inr ak s1 Some by (auto simp: import_wallet_request_def Let_def)
          then show ?thesis using import_scan_keeps(1) [OF own] by (simp add: free_import_def case_prod_beta split: option.split)
        next
          case False
          show ?thesis
          proof (cases "select_payment acc (srv_db s1)")
            case None
            then show ?thesis using assms Inr ak s1 Some False by (simp add: import_wallet_request_def Let_def)
          next
            case pay: (Some p)
            consider "pay_id p = 0" "s' = snd (new_payment env (import_answer env) acc p s1)"
              | "pay_id p \<noteq> 0" "s' = s1"
              | "pay_id p \<noteq> 0" "check_payment env (import_answer env) a acc p s1 = Some (r, s')"
              using assms Inr ak s1 Some False pay by (auto simp: import_wallet_request_def Let_def split: if_splits)
            then show ?thesis
              using new_payment_keeps check_payment_keeps [OF own] select_payment_Some [OF pay] by cases auto
          qed
        qed
        then show ?thesis using keeps_trans [OF found(1)] by blast
      qed
    qed (use assms Inr Pair in \<open>auto simp: import_wallet_request_def split: option.splits\<close>)
  qed
qed (use assms in \<open>simp add: import_wallet_request_def\<close>)

lemma import_recent_keeps:
  assumes "import_recent_wallet_request env body s = Some (r, s')"
  shows "keeps (make_hash env) (parse_viewkey env) s s'"
proof -
  let ?j = "jset ''request_fulfilled'' (Bool False) Null"
  let ?fields = "[''address'', ''view_key'', ''no_blocks_to_import'']"
  show ?thesis
  proof (cases "s' = s")
    case False
    obtain req a k str asked where req: "parse_request env body ?fields ?j = Inr req" "get_string ''address'' req = Some a"
        "get_string ''view_key'' req = Some k" "get_string ''no_blocks_to_import'' req = Some str" "lexical_cast env str = Some asked"
      using assms False by (auto simp: import_recent_wallet_request_def Let_def split: sum.splits option.splits)
    obtain acc1 s1 where s1: "select_account_of env a k True s = (acc1, s1)" by force
    note found = select_account_of_keeps [OF s1]
    have "s' = s1 \<or> (\<exists>acc n. acc1 = Some acc \<and> s' = snd (move_scan recent_msgs a acc (acc\<lparr>scanned_block_height := n\<rparr>) s1))"
    proof (cases acc1)
      case None
      then show ?thesis using assms req s1 by (simp add: import_recent_wallet_request_def Let_def)
    next
      case (Some acc)
      define n where "n = (if setup_import_fee env = 0 then current_height env else scanned_block_height acc)
        - min (min asked (max_number_of_blocks_to_import env)) (current_height env)"
      obtain msg s2 where m: "move_scan recent_msgs a acc (acc\<lparr>scanned_block_height := n\<rparr>) s1 = (msg, s2)" by force
      have "s' = s1 \<or> s' = s2"
        using assms req s1 Some m unfolding n_def
        by (cases msg) (auto simp: import_recent_wallet_request_def Let_def split: if_splits)
      then show ?thesis using m Some by (metis snd_conv)
    qed
    then show ?thesis
      using found keeps_trans [OF found(1) import_scan_keeps(2) [OF found(2)]] by blast
  qed simp
qed

section \<open>Every turn of a thread\<close>

lemma keeps_in_thread:
  assumes "\<And>t. \<lbrakk>phase t = Looping \<longrightarrow> searching_is_ongoing t; phase t \<in> {Created, Finishing} \<longrightarrow> \<not> searching_is_ongoing t\<rbrakk> \<Longrightarrow>
      (phase (f t) = Looping \<longrightarrow> searching_is_ongoing (f t)) \<and> (phase (f t) \<in> {Created, Finishing} \<longrightarrow> \<not> searching_is_ongoing (f t))"
    and "\<And>t. viewkey_hex (f t) = viewkey_hex t"
  shows "keeps hash key s (in_thread a f s)"
  unfolding in_thread_def
proof (rule keeps_threads)
  assume inv: "search_inv (srv_threads s)"
  show "search_inv (update_thread a f (srv_threads s))"
  proof (rule update_inv [OF inv])
    fix t assume "(a, t) \<in> set (searching_threads (srv_threads s))"
    then show "(phase (f t) = Looping \<longrightarrow> searching_is_ongoing (f t)) \<and> (phase (f t) \<in> {Created, Finishing} \<longrightarrow> \<not> searching_is_ongoing (f t))"
      using inv by (intro assms(1)) (auto simp: search_inv_def)
  qed
qed (use assms(2) in \<open>auto simp: get_update\<close>)

lemma thread_lines_keep:
  "keeps hash key s (in_thread a search_enter s)" "keeps hash key s (in_thread a search_leave s)"
  "keeps hash key s (in_thread a search_return_early s)" "keeps hash key s (in_thread a (\<lambda>t. stop_search (t\<lparr>phase := Returned\<rparr>)) s)"
  "keeps hash key s (in_thread a (thread_after sc) s)"
  by (rule keeps_in_thread; simp add: thread_defs thread_after_def)+

text \<open>What a round does to the tables and to the copy of the row.\<close>

lemma scan_round_rows:
  assumes "db_ok (sc_db sc0)" "scan_round c answer sc0 = (e, sc)"
  obtains d1 where "db_ok d1" "Accounts d1 = Accounts (sc_db sc0)" "sc_db sc = d1" "sc_account sc = sc_account sc0"
  | d1 new ok where "db_ok d1" "Accounts d1 = Accounts (sc_db sc0)" "same_account (sc_account sc0) new"
      "update_account (sc_account sc0) new d1 = (ok, sc_db sc)" "sc_account sc = (if ok then new else sc_account sc0)"
proof -
  obtain h1 h2 where w: "window_of c answer sc0 = (h1, h2)" by force
  show thesis
  proof (cases "blocks answer h1 h2 = []")
    case True
    then have "sc = wait_round c answer sc0" using assms(2) w by (simp add: scan_round_def)
    then show thesis using that(1) [of "sc_db sc0"] assms(1) w by (simp add: wait_round_def Let_def)
  next
    case blks: False
    show thesis
    proof (cases "block_txs answer")
      case None
      then show thesis using that(1) [of "sc_db sc0"] assms blks w by (simp add: scan_round_def)
    next
      case (Some infos)
      let ?r = "\<lparr>r_db = sc_db sc0, r_base = None, r_known = sc_known sc0, r_blk_timestamp = None, r_tx_id = 0\<rparr>"
      obtain x r where p: "process_txs (record_env c) infos ?r = (x, r)" by force
      have d1: "db_ok (r_db r)" "Accounts (r_db r) = Accounts (sc_db sc0)"
        using process_txs_ok [of ?r "record_env c" infos] process_txs_accounts [OF p] p assms(1) by simp_all
      show thesis
      proof (cases x)
        case None
        let ?new = "(sc_account sc0)\<lparr>scanned_block_height := h2, scanned_block_timestamp := last (blocks answer h1 h2)\<rparr>"
        obtain ok d where u: "update_account (sc_account sc0) ?new (r_db r) = (ok, d)" by force
        have "sc_db sc = d \<and> sc_account sc = (if ok then ?new else sc_account sc0)"
          using assms(2) w blks Some p None u by (auto simp: scan_round_def finish_round_def Let_def)
        then show thesis using that(2) [OF d1, of ?new ok] u by (simp add: same_account_def)
      next
        case (Some err)
        then show thesis using that(1) [OF d1] assms(2) w blks \<open>block_txs answer = Some infos\<close> p
          by (auto simp: scan_round_def Let_def)
      qed
    qed
  qed
qed

lemma put_scanner_keeps:
  assumes "thread_accs s a = Some acc" "acc \<in> set (Accounts (srv_db s))" "acc_address acc = a"
    and "scan_round c answer (scanner_of a t acc s) = (e, sc)"
  shows "keeps hash key s (put_scanner a sc s)"
  unfolding keeps_def
proof
  assume ok: "server_ok hash key s"
  have db: "db_ok (sc_db (scanner_of a t acc s))" using ok by (simp add: server_ok_def scanner_of_def)
  let ?s2 = "s\<lparr>srv_db := sc_db sc, thread_accs := (thread_accs s)(a \<mapsto> sc_account sc)\<rparr>"
  have s2: "server_ok hash key ?s2 \<and> rows_kept (srv_db s) (sc_db sc)"
  proof (rule scan_round_rows [OF db assms(4)])
    fix d1 assume "db_ok d1" "Accounts d1 = Accounts (sc_db (scanner_of a t acc s))" "sc_db sc = d1"
      "sc_account sc = sc_account (scanner_of a t acc s)"
    then show ?thesis
      using keeps_db [of d1 s hash key] ok assms(1)
      by (simp add: keeps_def scanner_of_def fun_upd_idem)
  next
    fix d1 new moved assume d1: "db_ok d1" "Accounts d1 = Accounts (sc_db (scanner_of a t acc s))" "same_account (sc_account (scanner_of a t acc s)) new"
      "update_account (sc_account (scanner_of a t acc s)) new d1 = (moved, sc_db sc)"
      "sc_account sc = (if moved then new else sc_account (scanner_of a t acc s))"
    have s1: "server_ok hash key (s\<lparr>srv_db := d1\<rparr>)" "rows_kept (srv_db s) d1"
      using keeps_db [of d1 s hash key] ok d1(1,2) by (simp_all add: keeps_def scanner_of_def)
    have accs: "(thread_accs s)(a \<mapsto> sc_account sc)
        = (if moved then (thread_accs (s\<lparr>srv_db := d1\<rparr>))(acc_address acc \<mapsto> new) else thread_accs (s\<lparr>srv_db := d1\<rparr>))"
      using assms(1,3) d1(5) by (auto simp: scanner_of_def)
    have row: "acc \<in> set (Accounts (srv_db (s\<lparr>srv_db := d1\<rparr>)))" "same_account acc new"
        "update_account acc new (srv_db (s\<lparr>srv_db := d1\<rparr>)) = (moved, sc_db sc)"
      using assms(2) d1 by (simp_all add: scanner_of_def)
    show ?thesis using update_row_keeps [OF s1(1) row accs] rows_kept_trans [OF s1(2)] by simp
  qed
  have "keeps hash key ?s2 (put_scanner a sc s)"
    using keeps_trans [OF keeps_known [of _ _ ?s2 "(thread_known s)(a := sc_known sc)"] thread_lines_keep(5) [of _ _ _ a sc]]
    by (simp add: put_scanner_def)
  then show "server_ok hash key (put_scanner a sc s) \<and> rows_kept (srv_db s) (srv_db (put_scanner a sc s))"
    using s2 rows_kept_trans unfolding keeps_def by auto
qed

lemma thread_turn_keeps: "keeps hash key s (thread_turn c answer now a s)"
proof (cases "get_search_thread a (srv_threads s)")
  case (Some t)
  show ?thesis
    unfolding keeps_def
  proof
    assume ok: "server_ok hash key s"
    obtain acc where acc: "thread_accs s a = Some acc" "acc \<in> set (Accounts (srv_db s))" "acc_address acc = a"
      using ok Some unfolding server_ok_def thread_ok_def by blast
    have "keeps hash key s (thread_turn c answer now a s)"
    proof (cases "phase t = Looping \<and> continue_search t")
      case True
      let ?c = "with_account acc c"
      let ?ans = "answer\<lparr>idle := of_nat (now - last_ping_timestamp t)\<rparr>"
      obtain e sc where r: "scan_round ?c ?ans (scanner_of a t acc s) = (e, sc)" by force
      note put = put_scanner_keeps [OF acc r, of hash key]
      show ?thesis
        using Some acc True r put keeps_trans [OF put thread_lines_keep(2)] keeps_trans [OF put thread_lines_keep(3)]
        by (cases e) (simp_all add: thread_turn_def)
    next
      case False
      then show ?thesis
        using Some acc thread_lines_keep by (cases "phase t") (simp_all add: thread_turn_def)
    qed
    then show "server_ok hash key (thread_turn c answer now a s) \<and> rows_kept (srv_db s) (srv_db (thread_turn c answer now a s))"
      using ok by (simp add: keeps_def)
  qed
qed (simp add: thread_turn_def)

lemma monitor_keeps: "keeps hash key s (snd (monitor_round height_answer pool_answer receive_time (m, s)))"
proof -
  have "in_threads (clean_search_thread_map \<circ> stop_search_threads) s = in_threads clean_search_thread_map (in_threads stop_search_threads s)"
    by (simp add: in_threads_def)
  then show ?thesis
    using keeps_clean keeps_trans [OF keeps_stop keeps_clean] by (simp add: monitor_round_def)
qed

section \<open>The parts of the system\<close>

text \<open>
  A part of the system that serves inputs one after the other. What the backend relies on is that each of them keeps the server
  well-formed and loses no account; then so does any sequence.
\<close>

locale server_part =
  fixes serve :: "'i \<Rightarrow> server \<Rightarrow> server" and hash :: "string \<Rightarrow> string" and key :: "string \<Rightarrow> string option"
  assumes serve_keeps: "keeps hash key s (serve i s)"
begin

lemma serves_keep: "keeps hash key s (fold serve is s)"
  by (induction "is" arbitrary: s) (auto intro: keeps_trans [OF serve_keeps])

lemma serves_ok: "server_ok hash key s \<Longrightarrow> server_ok hash key (fold serve is s)"
  using serves_keep by (simp add: keeps_def)

lemma serves_rows: "server_ok hash key s \<Longrightarrow> rows_kept (srv_db s) (srv_db (fold serve is s))"
  using serves_keep by (simp add: keeps_def)

end

definition serve_request :: "('tx, 'e) tx_env_scheme \<Rightarrow> request \<times> string \<Rightarrow> server \<Rightarrow> server" where
  "serve_request env q s = (case handle env (fst q) (snd q) s of Some (_, s') \<Rightarrow> s' | None \<Rightarrow> s)"

definition serve_turn :: "scan_config \<times> chain_answer \<times> nat \<times> string \<Rightarrow> server \<Rightarrow> server" where
  "serve_turn q s = (case q of (c, answer, now, a) \<Rightarrow> thread_turn c answer now a s)"

lemma handle_keeps:
  assumes "handle env rq body s = Some (replies, s')"
  shows "keeps (make_hash env) (parse_viewkey env) s s'"
proof (cases rq)
  case Import_Wallet_Request
  then show ?thesis using assms import_wallet_keeps by (auto simp: handle_def)
next
  case Import_Recent_Wallet_Request
  then show ?thesis using assms import_recent_keeps by (auto simp: handle_def split: option.splits)
qed (use assms login_keeps [of env s body] ping_keeps [of env s body] get_address_txs_keeps [of env s body]
    get_address_info_keeps [of env s body] get_unspent_outs_keeps [of env s body]
  in \<open>auto simp: handle_def Let_def case_prod_beta\<close>)

interpretation requests: server_part "serve_request env" "make_hash env" "parse_viewkey env" for env
  by unfold_locales (auto simp: serve_request_def split: option.split dest: handle_keeps)

interpretation turns: server_part serve_turn hash key for hash key
  by unfold_locales (simp add: serve_turn_def thread_turn_keeps split: prod.split)

interpretation monitor_rounds: server_part "\<lambda>(m, height, pool, time) s. snd (monitor_round height pool time (m, s))" hash key for hash key
  by unfold_locales (auto intro: monitor_keeps)

lemma system_run_keeps: "system_run envs ms ms' \<Longrightarrow> same_keys hash key envs \<Longrightarrow> keeps hash key (snd ms) (snd ms')"
proof (induction rule: system_run.induct)
  case (request env m rq body s replies s')
  then show ?case using requests.serve_keeps [of env s "(rq, body)"] by (simp add: serve_request_def same_keys_def)
next
  case (turn answer m s c now a)
  then show ?case using turns.serve_keeps [of hash key s "(c, answer, now, a)"] by (simp add: serve_turn_def)
next
  case (monitor m s height_answer pool_answer receive_time)
  then show ?case using monitor_rounds.serve_keeps [of hash key s "(m, height_answer, pool_answer, receive_time)"] by simp
qed simp_all

lemma system_runs_keep: "(system_run envs)\<^sup>*\<^sup>* ms ms' \<Longrightarrow> same_keys hash key envs \<Longrightarrow> keeps hash key (snd ms) (snd ms')"
proof (induction rule: rtranclp_induct)
  case (step ms' ms'')
  then show ?case using keeps_trans system_run_keeps by blast
qed simp

text \<open>The server as it starts, on the tables of an earlier run.\<close>

definition fresh_server :: "db \<Rightarrow> server" where
  "fresh_server d = \<lparr>srv_db = d, srv_threads = initial_search, thread_accs = Map.empty, thread_known = (\<lambda>_. Map.empty)\<rparr>"

lemma fresh_server_ok: "db_ok d \<Longrightarrow> server_ok hash key (fresh_server d)"
  by (simp add: server_ok_def fresh_server_def initial_inv) (simp add: initial_search_def get_search_thread_def)

section \<open>Properties\<close>


definition sample_monitor :: "nat monitor" where
  "sample_monitor = \<lparr>known_height = 100, known_pool = [], stop_loop = False, is_running = True\<rparr>"

lemma sample_keys: "same_keys id Some {sample_tx_env}"
  by (simp add: same_keys_def sample_tx_env_def)



lemma tx_server_ok: "server_ok id Some tx_server"
proof -
  have "get_search_thread a (srv_threads tx_server) = Some t \<Longrightarrow> thread_ok id Some tx_server a t" for a t
    by (auto simp: thread_ok_def tx_server_def balance_server_defs add_input_def get_search_thread_def new_tx_search_def split: if_splits)
  moreover have "search_inv (srv_threads tx_server)"
    by (simp add: search_inv_def tx_server_def balance_server_defs new_tx_search_def)
  ultimately show ?thesis using tx_server_rows(1) by (simp add: server_ok_def)
qed


end
