(* ===== verification/SystemProgress.thy ===== *)
theory SystemProgress
  imports ServerSystem
begin

text \<open>
  Progress of the whole backend: the turns of a search thread reach the top of the chain, however many turns of other threads come in between.
\<close>

section \<open>One turn\<close>

lemma get_in_thread: "get_search_thread b (srv_threads (in_thread a f s)) = map_option (\<lambda>t. if b = a then f t else t) (get_search_thread b (srv_threads s))"
  by (simp add: in_thread_def get_update)

lemma in_thread_accs [simp]: "thread_accs (in_thread a f s) = thread_accs s"
  by (simp add: in_thread_def)

lemma put_scanner_threads:
  "get_search_thread b (srv_threads (put_scanner a sc s))
    = map_option (\<lambda>t. if b = a then thread_after sc t else t) (get_search_thread b (srv_threads s))"
  "thread_accs (put_scanner a sc s) = (thread_accs s)(a \<mapsto> sc_account sc)"
  by (simp_all add: put_scanner_def get_in_thread)

lemma turn_of_other:
  assumes "b \<noteq> a"
  shows "get_search_thread a (srv_threads (thread_turn c answer now b s)) = get_search_thread a (srv_threads s)"
    "thread_accs (thread_turn c answer now b s) a = thread_accs s a"
proof -
  have id: "map_option (\<lambda>t. t) r = r" for r :: "tx_search option" by (cases r) simp_all
  show "get_search_thread a (srv_threads (thread_turn c answer now b s)) = get_search_thread a (srv_threads s)"
    "thread_accs (thread_turn c answer now b s) a = thread_accs s a"
    using assms
    by (auto simp: thread_turn_def Let_def get_in_thread put_scanner_threads id split: option.split phase.split prod.split round_end.split)
qed

text \<open>
  How far the thread of an address is behind: at most \<open>k\<close> windows; and once it has scanned one, its copy of the row holds the last
  scanned height.
\<close>

definition behind :: "string \<Rightarrow> u64 \<Rightarrow> u64 \<Rightarrow> u64 \<Rightarrow> nat \<Rightarrow> nat \<Rightarrow> server \<Rightarrow> nat \<Rightarrow> bool" where
  "behind a from la peak pinged row s k \<longleftrightarrow> (\<exists>t acc. get_search_thread a (srv_threads s) = Some t \<and> phase t = Looping \<and> continue_search t
     \<and> \<not> searched_block_got_updated t \<and> last_ping_timestamp t = pinged \<and> thread_accs s a = Some acc \<and> acc_id acc = row
     \<and> unat (searched_blk_no t) \<le> Suc (unat peak) \<and> Suc (unat peak) - unat (searched_blk_no t) \<le> k * unat la
     \<and> (searched_blk_no t = from \<or> scanned_block_height acc + 1 = searched_blk_no t))"

text \<open>A turn that meets a chain that stands still at \<open>peak\<close>, a recent ping, and no failing transaction.\<close>

definition good_turn :: "nat \<Rightarrow> nat \<Rightarrow> u64 \<Rightarrow> u64 \<Rightarrow> scan_config \<Rightarrow> chain_answer \<Rightarrow> nat \<Rightarrow> bool" where
  "good_turn pinged row la peak c answer now \<longleftrightarrow> last_block_height answer = peak \<and> blocks_lookahead c = la
     \<and> (\<forall>acc. acc_id acc = row \<longrightarrow> steady (with_account acc c) (answer\<lparr>idle := of_nat (now - pinged)\<rparr>))"

lemma with_account_lookahead [simp]: "blocks_lookahead (with_account acc c) = blocks_lookahead c"
  by (simp add: with_account_def)

lemma good_turn_step:
  assumes "server_ok hash key s" "behind a from la peak pinged row s (Suc k)" "good_turn pinged row la peak c answer now"
    and "la \<noteq> 0" "unat peak + unat la < 2 ^ 64"
  shows "behind a from la peak pinged row (thread_turn c answer now a s) k"
proof -
  obtain t acc where t: "get_search_thread a (srv_threads s) = Some t" "phase t = Looping" "continue_search t"
      "\<not> searched_block_got_updated t" "last_ping_timestamp t = pinged" "thread_accs s a = Some acc" "acc_id acc = row"
      "unat (searched_blk_no t) \<le> Suc (unat peak)" "Suc (unat peak) - unat (searched_blk_no t) \<le> Suc k * unat la"
      "searched_blk_no t = from \<or> scanned_block_height acc + 1 = searched_blk_no t"
    using assms(2) unfolding behind_def by blast
  have acc: "acc \<in> set (Accounts (srv_db s))" "acc_address acc = a"
    using assms(1) t(1,6) unfolding server_ok_def thread_ok_def by fastforce+
  let ?c = "with_account acc c" and ?ans = "answer\<lparr>idle := of_nat (now - pinged)\<rparr>" and ?sc = "scanner_of a t acc s"
  have st: "steady ?c ?ans" "last_block_height ?ans = peak" "blocks_lookahead ?c = la"
    using assms(3) t(7) by (simp_all add: good_turn_def)
  have inv: "scan_inv ?c (searched_blk_no t) ?sc"
    using assms(1) acc t(4) by (simp add: scan_inv_def scanner_of_def server_ok_def heights_def)
  have la: "0 < unat la" using assms(4) by (simp add: unat_gt_0)
  obtain h1 h2 where w: "window_of ?c ?ans ?sc = (h1, h2)" by force
  have h: "h1 = searched_blk_no t" "h2 = min (h1 + la - 1) peak"
    using w st by (auto simp: window_of_def scanner_of_def Let_def)
  obtain sc where sc: "scan_round ?c ?ans ?sc = (Loop, sc)" "sc_continue sc" "\<not> sc_got_updated sc" "acc_id (sc_account sc) = row"
      "unat (sc_searched_blk_no sc) \<le> Suc (unat peak)" "Suc (unat peak) - unat (sc_searched_blk_no sc) \<le> k * unat la"
      "sc_searched_blk_no sc = from \<or> scanned_block_height (sc_account sc) + 1 = sc_searched_blk_no sc"
  proof (cases "unat h1 \<le> unat peak")
    case True
    note h2 = window_end [OF True assms(4,5), folded h(2)]
    have le: "h1 \<le> h2" using h2 True la by (simp add: word_le_nat_alt)
    obtain sc where sc: "scan_round ?c ?ans ?sc = (Loop, sc)" "sc_continue sc" "sc_searched_blk_no sc = h2 + 1"
      using steady_round [OF inv st(1) _ w le] t(3) by (auto simp: scanner_of_def)
    have ok: "answer_ok ?ans" using st(1) by (simp add: steady_def)
    have inv': "scan_inv ?c (searched_blk_no t) sc" by (rule scan_round_inv [OF inv ok sc(1)])
    have "h2 \<le> peak" using h(2) by simp
    also have "peak < - 1" using ok st(2) by (simp add: answer_ok_def)
    finally have n2: "unat (h2 + 1) = Suc (unat h2)" by (rule unat_next)
    have "heights (windows sc) \<noteq> []" using inv' sc(3) n2 le h(1) by (simp add: scan_inv_def word_le_nat_alt)
    then have "windows sc \<noteq> []" by (auto simp: heights_def)
    then have row: "scanned_block_height (sc_account sc) + 1 = sc_searched_blk_no sc" using inv' by (simp add: scan_inv_def)
    have "db_ok (sc_db ?sc)" using inv by (simp add: scan_inv_def)
    then have "acc_id (sc_account sc) = acc_id (sc_account ?sc)"
      by (rule scan_round_rows [OF _ sc(1)]) (auto simp: same_account_def)
    then have "acc_id (sc_account sc) = row" using t(7) by (simp add: scanner_of_def)
    moreover have "unat (sc_searched_blk_no sc) \<le> Suc (unat peak)" using sc(3) n2 h2 by simp
    moreover have "Suc (unat peak) - unat (sc_searched_blk_no sc) \<le> k * unat la"
      using t(9) sc(3) n2 h2 h(1) la by (simp add: min_def split: if_splits)
    ultimately show thesis using that [OF sc(1,2)] inv' row by (simp add: scan_inv_def)
  next
    case False
    then have "peak < h1" by (simp add: word_less_nat_alt)
    then have "h2 < h1" using h(2) by (simp add: min_less_iff_disj)
    then have "scan_round ?c ?ans ?sc = (Loop, ?sc)" by (rule steady_wait [OF inv st(1) w])
    moreover have "Suc (unat peak) - unat (searched_blk_no t) \<le> k * unat la" using False h(1) by simp
    ultimately show thesis using that [of ?sc] t by (simp add: scanner_of_def)
  qed
  have turn: "thread_turn c answer now a s = put_scanner a sc s"
    using t(1-3,5,6) sc(1) by (simp add: thread_turn_def)
  show ?thesis
    unfolding behind_def turn
    using t sc by (intro exI [of _ "thread_after sc t"] exI [of _ "sc_account sc"]) (simp add: put_scanner_threads thread_after_def)
qed

section \<open>Turns among everything else\<close>

text \<open>A step that leaves the thread of the address and its copy of the row alone.\<close>

definition leaves_alone :: "string \<Rightarrow> server \<Rightarrow> server \<Rightarrow> bool" where
  "leaves_alone a s s' \<longleftrightarrow> get_search_thread a (srv_threads s') = get_search_thread a (srv_threads s) \<and> thread_accs s' a = thread_accs s a"

lemma behind_alone: "behind a from la peak pinged row s k \<Longrightarrow> leaves_alone a s s' \<Longrightarrow> behind a from la peak pinged row s' k"
  by (simp add: behind_def leaves_alone_def)

lemma other_turn_alone: "b \<noteq> a \<Longrightarrow> leaves_alone a s (thread_turn c answer now b s)"
  by (simp add: leaves_alone_def turn_of_other)

text \<open>The monitor does not take out a thread that is in its loop.\<close>

lemma monitor_alone:
  assumes "server_ok hash key s" "get_search_thread a (srv_threads s) = Some t" "phase t = Looping" "\<not> stop_loop m"
  shows "leaves_alone a s (snd (monitor_round height_answer pool_answer receive_time (m, s)))"
proof -
  have inv: "search_inv (srv_threads s)" using assms(1) by (simp add: server_ok_def)
  have "searching_is_ongoing t" using inv assms(2,3) by (auto simp: search_inv_def get_search_thread_def dest!: map_of_SomeD)
  then have "map_of (filter (\<lambda>(a, t). searching_is_ongoing t) (searching_threads (srv_threads s))) a = Some t"
    using inv assms(2) map_of_filter [of "searching_threads (srv_threads s)" a t searching_is_ongoing]
    unfolding search_inv_def get_search_thread_def by blast
  then show ?thesis
    using assms(2,4) by (simp add: leaves_alone_def monitor_round_def in_threads_def get_search_thread_def clean_search_thread_map_def)
qed

text \<open>Good turns of one thread, counted, among steps that leave it alone.\<close>

inductive turns_among :: "('tx, 'e) tx_env_scheme set \<Rightarrow> string \<Rightarrow> (scan_config \<Rightarrow> chain_answer \<Rightarrow> nat \<Rightarrow> bool) \<Rightarrow> 'p monitor \<times> server
    \<Rightarrow> nat \<Rightarrow> 'p monitor \<times> server \<Rightarrow> bool" for envs a good ms where
  none: "turns_among envs a good ms 0 ms"
| own: "\<lbrakk>turns_among envs a good ms n (m, s); good c answer now\<rbrakk> \<Longrightarrow> turns_among envs a good ms (Suc n) (m, thread_turn c answer now a s)"
| other: "\<lbrakk>turns_among envs a good ms n ms'; system_run envs ms' ms''; leaves_alone a (snd ms') (snd ms'')\<rbrakk>
    \<Longrightarrow> turns_among envs a good ms n ms''"

lemma turns_among_behind:
  assumes "turns_among envs a (good_turn pinged row la peak) ms n ms'" "server_ok hash key (snd ms)" "same_keys hash key envs"
    and "la \<noteq> 0" "unat peak + unat la < 2 ^ 64"
  shows "server_ok hash key (snd ms') \<and> (\<forall>k. behind a from la peak pinged row (snd ms) (n + k) \<longrightarrow> behind a from la peak pinged row (snd ms') k)"
  using assms(1)
proof (induction rule: turns_among.induct)
  case none
  then show ?case using assms(2) by simp
next
  case (own n m s c answer now)
  have ok: "server_ok hash key s" using own.IH by simp
  moreover have "server_ok hash key (thread_turn c answer now a s)" using thread_turn_keeps ok by (simp add: keeps_def)
  moreover have "behind a from la peak pinged row (thread_turn c answer now a s) k" if "behind a from la peak pinged row (snd ms) (Suc n + k)" for k
  proof -
    have "behind a from la peak pinged row s (Suc k)" using own.IH that by simp
    from good_turn_step [OF ok this own.hyps(2) assms(4,5)] show ?thesis .
  qed
  ultimately show ?case by simp
next
  case (other n ms' ms'')
  then show ?case using system_run_keeps [OF other.hyps(2) assms(3)] behind_alone unfolding keeps_def by blast
qed

section \<open>Properties\<close>


text \<open>The search of the account of the samples, from block 60, in two windows of three blocks, with a turn of another thread in between.\<close>

definition looping_server :: server where
  "looping_server = in_thread ''A'' search_enter tx_server"

definition sample_answer_65 :: chain_answer where
  "sample_answer_65 = scan_sample_answer\<lparr>last_block_height := 65\<rparr>"

definition sample_thread :: tx_search where
  "sample_thread = search_enter (new_tx_search 60 10 ''k'')"

lemma sample_good_turn: "good_turn 10 1 3 65 scan_sample_config sample_answer_65 10"
  by (auto simp: good_turn_def steady_def answer_ok_def sample_answer_65_def scan_sample_answer_def scan_sample_config_def with_account_def)


end
