(* ===== verification/FormData.thy ===== *)
theory FormData
  imports Prelude
begin

text \<open>
  The helper functions of \<open>src/src/utils.cpp\<close> on text and times: the decoding of form data, the table of known outputs in
  a file of comma separated values, and the difference of two time stamps.
\<close>

section \<open>Hexadecimal digits\<close>

definition hexval :: "char \<Rightarrow> nat option" where
  "hexval c = (let n = of_char c in
     if 48 \<le> n \<and> n < 58 then Some (n - 48)
     else if 97 \<le> n \<and> n < 103 then Some (n - 87)
     else if 65 \<le> n \<and> n < 71 then Some (n - 55) else None)"

text \<open>White space of the stream classes.\<close>

definition is_space :: "char \<Rightarrow> bool" where
  "is_space c = (let n = of_char c :: nat in n = 32 \<or> (9 \<le> n \<and> n < 14))"

text \<open>
  Reading a number in base 16 from a stream of two characters (\<open>is >> std::hex >> value\<close>): white space is skipped, a
  sign is accepted, the number ends at the first character that is no digit, and the prefix of a
  hexadecimal number alone is an error.
\<close>

definition read_hex2 :: "char \<Rightarrow> char \<Rightarrow> int option" where
  "read_hex2 a b =
     (if is_space a \<or> a = CHR ''+'' then map_option int (hexval b)
      else if a = CHR ''-'' then map_option (\<lambda>v. - int v) (hexval b)
      else case hexval a of
             None \<Rightarrow> None
           | Some v \<Rightarrow>
               (case hexval b of
                  Some w \<Rightarrow> Some (int (16 * v + w))
                | None \<Rightarrow> if v = 0 \<and> (b = CHR ''x'' \<or> b = CHR ''X'') then None else Some (int v)))"

section \<open>Form data\<close>

fun url_decode :: "string \<Rightarrow> string option" where
  "url_decode [] = Some []"
| "url_decode (c # cs) =
     (if c = CHR ''%''
      then (case cs of
              a # b # rest \<Rightarrow>
                (case read_hex2 a b of
                   Some value \<Rightarrow> map_option ((#) (char_of value)) (url_decode rest)
                 | None \<Rightarrow> None)
            | _ \<Rightarrow> None)
      else if c = CHR ''+'' then map_option ((#) (CHR '' '')) (url_decode cs)
      else map_option ((#) c) (url_decode cs))"

text \<open>Splitting at a character gives at least one piece.\<close>

fun split_at :: "char \<Rightarrow> string \<Rightarrow> string list" where
  "split_at x [] = [[]]"
| "split_at x (c # cs) = (if c = x then [] # split_at x cs else (case split_at x cs of p # ps \<Rightarrow> (c # p) # ps | [] \<Rightarrow> [[c]]))"

text \<open>The loop over the pieces ends at the first one without an equals sign.\<close>

fun form_fields :: "string list \<Rightarrow> (string \<rightharpoonup> string) \<Rightarrow> (string \<rightharpoonup> string)" where
  "form_fields [] body = body"
| "form_fields (it # its) body =
     (if CHR ''='' \<in> set it
      then form_fields its (body(takeWhile (\<lambda>c. c \<noteq> CHR ''='') it \<mapsto> drop 1 (dropWhile (\<lambda>c. c \<noteq> CHR ''='') it)))
      else body)"

definition parse_crow_post_data :: "string \<Rightarrow> (string \<rightharpoonup> string)" where
  "parse_crow_post_data req_body =
     (case url_decode req_body of
        None \<Rightarrow> Map.empty
      | Some tmp \<Rightarrow> form_fields (split_at (CHR ''&'') tmp) Map.empty)"

section \<open>Known outputs from a file\<close>

text \<open>
  \<open>lines\<close> are the lines of the file, \<open>number\<close> is \<open>lexical_cast\<close> and \<open>pod\<close> is \<open>hex_to_pod\<close> for a key. The result comes with the
  table, which keeps what was added before a failure.
\<close>

fun known_outputs_lines :: "(string \<Rightarrow> u64 option) \<Rightarrow> (string \<Rightarrow> byte list option) \<Rightarrow> bool \<Rightarrow> string list
    \<Rightarrow> (byte list \<rightharpoonup> u64) \<Rightarrow> bool \<times> (byte list \<rightharpoonup> u64)" where
  "known_outputs_lines number pod skip_first_line [] known_outputs = (True, known_outputs)"
| "known_outputs_lines number pod skip_first_line (line # lines) known_outputs =
     (if skip_first_line then known_outputs_lines number pod False lines known_outputs
      else
        let vec = split_at (CHR '','') line
        in if length vec \<le> 7 then (False, known_outputs)
           else (case number (vec ! 7) of
                   None \<Rightarrow> (False, known_outputs)
                 | Some amount \<Rightarrow>
                     if length vec \<le> 8 then (False, known_outputs)
                     else (case pod (vec ! 8) of
                             None \<Rightarrow> (False, known_outputs)
                           | Some out_pk \<Rightarrow>
                               if out_pk \<in> dom known_outputs then (False, known_outputs)
                               else known_outputs_lines number pod False lines (known_outputs(out_pk \<mapsto> amount)))))"

definition populate_known_outputs_from_csv :: "(string \<Rightarrow> u64 option) \<Rightarrow> (string \<Rightarrow> byte list option) \<Rightarrow> (string \<Rightarrow> string list option)
    \<Rightarrow> string \<Rightarrow> (byte list \<rightharpoonup> u64) \<Rightarrow> bool \<Rightarrow> bool \<times> (byte list \<rightharpoonup> u64)" where
  "populate_known_outputs_from_csv number pod read_file csv_file known_outputs skip_first_line =
     (case read_file csv_file of
        None \<Rightarrow> (False, known_outputs)
      | Some lines \<Rightarrow> known_outputs_lines number pod skip_first_line lines known_outputs)"

section \<open>Time stamps\<close>

text \<open>Years of 365 days, days, hours, minutes and seconds.\<close>

definition timestamp_difference :: "u64 \<Rightarrow> u64 \<Rightarrow> u64 \<times> u64 \<times> u64 \<times> u64 \<times> u64" where
  "timestamp_difference t1 t2 =
     (let timestamp_diff = t1 - t2;
          timestamp_diff = (if t2 > t1 then t2 - t1 else timestamp_diff);
          time_diff_years = timestamp_diff div 31536000;
          timestamp_diff = timestamp_diff - time_diff_years * 31536000;
          time_diff_days = timestamp_diff div 86400;
          timestamp_diff = timestamp_diff - time_diff_days * 86400;
          time_diff_hours = timestamp_diff div 3600;
          timestamp_diff = timestamp_diff - time_diff_hours * 3600;
          time_diff_minutes = timestamp_diff div 60;
          timestamp_diff = timestamp_diff - time_diff_minutes * 60;
          time_diff_seconds = timestamp_diff
      in (time_diff_years, time_diff_days, time_diff_hours, time_diff_minutes, time_diff_seconds))"

section \<open>Lemmas\<close>

text \<open>A text and one of its encodings: an escaped byte, a plus for a space, or the character itself.\<close>

inductive url_encodes :: "string \<Rightarrow> string \<Rightarrow> bool" where
  Nil: "url_encodes [] []"
| escape: "\<lbrakk>hexval a = Some v; hexval b = Some w; url_encodes e s\<rbrakk> \<Longrightarrow> url_encodes (CHR ''%'' # a # b # e) (char_of (16 * v + w) # s)"
| plus: "url_encodes e s \<Longrightarrow> url_encodes (CHR ''+'' # e) (CHR '' '' # s)"
| plain: "\<lbrakk>c \<noteq> CHR ''%''; c \<noteq> CHR ''+''; url_encodes e s\<rbrakk> \<Longrightarrow> url_encodes (c # e) (c # s)"

inductive_simps url_encodes_Nil [simp]: "url_encodes [] s"

lemma hexval_special:
  assumes "hexval a = Some v"
  shows "\<not> is_space a" "a \<noteq> CHR ''+''" "a \<noteq> CHR ''-''" "v < 16"
proof -
  have n: "48 \<le> (of_char a :: nat) \<and> (of_char a :: nat) < 58 \<and> v < 16 \<or> 65 \<le> (of_char a :: nat) \<and> v < 16"
    using assms by (auto simp: hexval_def Let_def split: if_splits)
  then show "\<not> is_space a" "v < 16" by (auto simp: is_space_def Let_def)
  show "a \<noteq> CHR ''+''" "a \<noteq> CHR ''-''" using n by auto
qed

lemma read_hex2_digits: "hexval a = Some v \<Longrightarrow> hexval b = Some w \<Longrightarrow> read_hex2 a b = Some (int (16 * v + w))"
  using hexval_special [of a v] by (simp add: read_hex2_def)

lemma char_of_int: "char_of (int n) = char_of n"
  by (simp add: char_of_def bit_of_nat_iff_bit)

lemma url_decode_encodes: "url_encodes e s \<Longrightarrow> url_decode e = Some s"
  by (induction rule: url_encodes.induct) (simp_all add: read_hex2_digits char_of_int del: of_nat_add of_nat_mult)

lemma url_decode_length: "url_decode e = Some s \<Longrightarrow> length s \<le> length e"
  by (induction e arbitrary: s rule: url_decode.induct) (fastforce split: if_splits list.splits option.splits)+

fun join :: "char \<Rightarrow> string list \<Rightarrow> string" where
  "join x [] = []"
| "join x [p] = p"
| "join x (p # q # ps) = p @ x # join x (q # ps)"

lemma split_at_plain: "x \<notin> set p \<Longrightarrow> split_at x p = [p]"
  by (induction p) auto

lemma split_at_append: "x \<notin> set p \<Longrightarrow> split_at x (p @ x # s) = p # split_at x s"
  by (induction p) auto

lemma split_at_join: "ps \<noteq> [] \<Longrightarrow> \<forall>p\<in>set ps. x \<notin> set p \<Longrightarrow> split_at x (join x ps) = ps"
  by (induction x ps rule: join.induct) (simp_all add: split_at_plain split_at_append)

definition piece :: "string \<times> string \<Rightarrow> string" where
  "piece f = fst f @ CHR ''='' # snd f"

lemma takeWhile_key: "CHR ''='' \<notin> set k \<Longrightarrow> takeWhile (\<lambda>c. c \<noteq> CHR ''='') (k @ CHR ''='' # v) = k
    \<and> dropWhile (\<lambda>c. c \<noteq> CHR ''='') (k @ CHR ''='' # v) = CHR ''='' # v"
  by (induction k) auto

lemma form_fields_pieces:
  "\<forall>(k, v)\<in>set fs. CHR ''='' \<notin> set k \<Longrightarrow> form_fields (map piece fs @ rest) m = form_fields rest (m ++ map_of (rev fs))"
  by (induction fs arbitrary: m) (auto simp: piece_def takeWhile_key simp del: fun_upd_apply)

section \<open>Properties\<close>

text \<open>Decoding gives back a text from each of its encodings and is never longer than what it decodes; the fields of
  a form whose keys have no \<open>=\<close> and \<open>&\<close> and whose values have no \<open>&\<close> are all found, the last one for a key that
  comes twice. Decoding comes before splitting: behind an encoded \<open>&\<close> in a value, the rest of that value and, unless it
  looks like a field, all later fields are lost.\<close>

theorem form_data_fields:
  assumes "\<forall>(k, v)\<in>set fs. CHR ''='' \<notin> set k \<and> CHR ''&'' \<notin> set k \<union> set v"
    and "CHR ''='' \<notin> set w" and "CHR ''&'' \<notin> set w" and "\<forall>(k, v)\<in>set gs. CHR ''&'' \<notin> set k \<union> set v"
  shows "(url_encodes e s \<longrightarrow> url_decode e = Some s \<and> length s \<le> length e)
    \<and> (url_encodes e (join (CHR ''&'') (map piece fs)) \<and> fs \<noteq> [] \<longrightarrow> parse_crow_post_data e = map_of (rev fs))
    \<and> (url_encodes e (join (CHR ''&'') (map piece fs @ w # map piece gs)) \<longrightarrow> parse_crow_post_data e = map_of (rev fs))"
proof -
  note dec = url_decode_encodes
  have decoded: "url_encodes e s \<longrightarrow> url_decode e = Some s \<and> length s \<le> length e"
    using dec url_decode_length by blast
  have keys: "\<forall>(k, v)\<in>set fs. CHR ''='' \<notin> set k" using assms(1) by auto
  have ps: "\<forall>p\<in>set (map piece fs). CHR ''&'' \<notin> set p" using assms(1) by (auto simp: piece_def)
  have "parse_crow_post_data e = map_of (rev fs)" if "url_encodes e (join (CHR ''&'') (map piece fs))" "fs \<noteq> []"
    using dec [OF that(1)] split_at_join [OF _ ps] form_fields_pieces [OF keys, of "[]" Map.empty] that(2)
    by (simp add: parse_crow_post_data_def)
  moreover have "parse_crow_post_data e = map_of (rev fs)"
    if "url_encodes e (join (CHR ''&'') (map piece fs @ w # map piece gs))"
  proof -
    have "\<forall>p\<in>set (map piece fs @ w # map piece gs). CHR ''&'' \<notin> set p" using ps assms(3,4) by (auto simp: piece_def)
    then have "split_at (CHR ''&'') (join (CHR ''&'') (map piece fs @ w # map piece gs)) = map piece fs @ w # map piece gs"
      by (intro split_at_join) simp_all
    then show ?thesis
      using dec [OF that] form_fields_pieces [OF keys, of "w # map piece gs" Map.empty] assms(2)
      by (simp add: parse_crow_post_data_def)
  qed
  ultimately show ?thesis using decoded by blast
qed

text \<open>The value \<open>b&c\<close>, with its \<open>&\<close> escaped, is cut, and the field behind it is lost.\<close>

theorem form_data_fields_witness:
  "parse_crow_post_data ''a=b%26c&d=e'' = [''a'' \<mapsto> ''b'']"
proof -
  have "hexval (CHR ''2'') = Some 2" "hexval (CHR ''6'') = Some 6" "char_of (16 * 2 + 6 :: nat) = CHR ''&''"
    by (simp_all add: hexval_def char_of_def bit_0)
  then have "url_encodes ''%26c&d=e'' ''&c&d=e''"
    using url_encodes.escape [of "CHR ''2''" 2 "CHR ''6''" 6 "''c&d=e''" "''c&d=e''"] by (auto intro!: url_encodes.intros)
  then have "url_encodes ''a=b%26c&d=e'' ''a=b&c&d=e''" by (auto intro!: url_encodes.plain)
  then have "url_encodes ''a=b%26c&d=e'' (join (CHR ''&'') (map piece [(''a'', ''b'')] @ ''c'' # map piece [(''d'', ''e'')]))"
    by (simp add: piece_def)
  then show ?thesis
    using form_data_fields [of "[(''a'', ''b'')]" "''c''" "[(''d'', ''e'')]" "''a=b%26c&d=e''"] by simp
qed

text \<open>The parts of a difference of times are in their ranges and add up to the distance of the two times, in whichever
  order they are given, without any step wrapping around.\<close>

theorem timestamp_difference_parts:
  assumes "timestamp_difference t1 t2 = (years, days, hours, minutes, seconds)"
  shows "days < 365 \<and> hours < 24 \<and> minutes < 60 \<and> seconds < 60 \<and> timestamp_difference t2 t1 = timestamp_difference t1 t2
    \<and> unat years * 31536000 + unat days * 86400 + unat hours * 3600 + unat minutes * 60 + unat seconds
        = max (unat t1) (unat t2) - min (unat t1) (unat t2)"
proof -
  define d where "d = (if t2 > t1 then t2 - t1 else t1 - t2)"
  have "timestamp_difference t1 t2 = (d div 31536000, d mod 31536000 div 86400, d mod 31536000 mod 86400 div 3600,
      d mod 31536000 mod 86400 mod 3600 div 60, d mod 31536000 mod 86400 mod 3600 mod 60)"
    unfolding timestamp_difference_def Let_def d_def [symmetric] minus_div_mult_eq_mod ..
  then have parts: "years = d div 31536000" "days = d mod 31536000 div 86400" "hours = d mod 31536000 mod 86400 div 3600"
      "minutes = d mod 31536000 mod 86400 mod 3600 div 60" "seconds = d mod 31536000 mod 86400 mod 3600 mod 60"
    unfolding assms by (simp_all only: prod.inject)
  have dist: "unat d = max (unat t1) (unat t2) - min (unat t1) (unat t2)"
    unfolding d_def by (cases "t1 < t2") (simp_all add: unat_sub word_less_nat_alt word_le_nat_alt)
  have sym: "timestamp_difference t2 t1 = timestamp_difference t1 t2"
    unfolding timestamp_difference_def Let_def by (cases t1 t2 rule: linorder_cases) (simp_all only: not_less_iff_gr_or_eq if_True if_False not_True_eq_False less_irrefl less_not_sym)
  define n where "n = unat d"
  have nats: "unat years = n div 31536000" "unat days = n mod 31536000 div 86400" "unat hours = n mod 31536000 mod 86400 div 3600"
      "unat minutes = n mod 31536000 mod 86400 mod 3600 div 60" "unat seconds = n mod 31536000 mod 86400 mod 3600 mod 60"
    unfolding parts n_def unat_div unat_mod by simp_all
  have "n div 31536000 * 31536000 + n mod 31536000 div 86400 * 86400 + n mod 31536000 mod 86400 div 3600 * 3600
      + n mod 31536000 mod 86400 mod 3600 div 60 * 60 + n mod 31536000 mod 86400 mod 3600 mod 60 = n"
    by (simp only: add.assoc div_mult_mod_eq)
  then have total: "unat years * 31536000 + unat days * 86400 + unat hours * 3600 + unat minutes * 60 + unat seconds = unat d"
    unfolding nats n_def .
  have "unat days < 365" "unat hours < 24" "unat minutes < 60" "unat seconds < 60"
    unfolding nats by (simp_all add: less_mult_imp_div_less)
  then have "days < 365" "hours < 24" "minutes < 60" "seconds < 60" by (simp_all add: word_less_nat_alt)
  then show ?thesis using sym total unfolding dist by blast
qed

theorem timestamp_difference_parts_witness:
  "timestamp_difference 100000000 10 = (3, 62, 9, 46, 30) \<and> (62 :: u64) < 365"
proof -
  have "timestamp_difference 100000000 10 = (3, 62, 9, 46, 30)" by (simp add: timestamp_difference_def)
  from this timestamp_difference_parts [OF this] show ?thesis by blast
qed

end
