(* ===== verification/TxJson.thy ===== *)
theory TxJson
  imports RequestCore TxHelpers FormData
begin

text \<open>
  The helper functions of \<open>src/src/utils.cpp\<close> that read a transaction from the JSON that the node prints:
  \<open>make_tx_from_json\<close>, and the sums and the ring size taken from the JSON itself. The parser is an argument, as is
  \<open>hex_to_pod\<close>, which gets the number of bytes of the value and the text. Parsing throws exceptions that are no
  \<open>std::invalid_argument\<close>, so the \<open>catch\<close> clauses of these functions never see one and the exception leaves them.
\<close>

section \<open>Reading JSON\<close>

text \<open>\<open>Thrown\<close> is an exception that leaves the function, \<open>Refused\<close> its return of false.\<close>

datatype json_error = Thrown | Refused

definition thrown :: "'a option \<Rightarrow> json_error + 'a" where
  "thrown r = (case r of None \<Rightarrow> Inl Thrown | Some x \<Rightarrow> Inr x)"

definition refused :: "'a option \<Rightarrow> json_error + 'a" where
  "refused r = (case r of None \<Rightarrow> Inl Refused | Some x \<Rightarrow> Inr x)"

definition andthen :: "'e + 'a \<Rightarrow> ('a \<Rightarrow> 'e + 'b) \<Rightarrow> 'e + 'b" where
  "andthen r f = (case r of Inl e \<Rightarrow> Inl e | Inr x \<Rightarrow> f x)"

fun each :: "('a \<Rightarrow> 'e + 'b) \<Rightarrow> 'a list \<Rightarrow> 'e + 'b list" where
  "each f [] = Inr []"
| "each f (x # xs) = andthen (f x) (\<lambda>y. andthen (each f xs) (\<lambda>ys. Inr (y # ys)))"

text \<open>Iterating over a value: nothing for null, the value itself when it is no container.\<close>

fun json_items :: "json \<Rightarrow> json list" where
  "json_items Null = []"
| "json_items (Arr js) = js"
| "json_items (Obj kv) = map snd kv"
| "json_items j = [j]"

text \<open>\<open>j[i]\<close> on a value that may be changed fills up with null; \<open>at\<close> throws.\<close>

fun jnth :: "nat \<Rightarrow> json \<Rightarrow> json option" where
  "jnth i (Arr js) = Some (if i < length js then js ! i else Null)"
| "jnth i Null = Some Null"
| "jnth i _ = None"

fun jat :: "nat \<Rightarrow> json \<Rightarrow> json option" where
  "jat i (Arr js) = (if i < length js then Some (js ! i) else None)"
| "jat i _ = None"

text \<open>\<open>j[k]\<close> on a value that must not be changed has no meaning without the key (\<open>None\<close>).\<close>

definition jget_const :: "string \<Rightarrow> json \<Rightarrow> json option" where
  "jget_const k j = (if jcount k j = 0 then None else jget k j)"

fun as_byte :: "json \<Rightarrow> byte option" where
  "as_byte (Number n) = Some (ucast n)"
| "as_byte (Signed n) = Some (ucast n)"
| "as_byte (Bool b) = Some (if b then 1 else 0)"
| "as_byte _ = None"

definition field :: "string \<Rightarrow> json \<Rightarrow> json_error + json" where
  "field k j = thrown (jget k j)"

definition field_items :: "string \<Rightarrow> json \<Rightarrow> json_error + json list" where
  "field_items k j = andthen (field k j) (\<lambda>v. Inr (json_items v))"

definition field_number :: "string \<Rightarrow> json \<Rightarrow> json_error + u64" where
  "field_number k j = andthen (field k j) (\<lambda>v. thrown (as_number v))"

definition read_pod :: "(nat \<Rightarrow> string \<Rightarrow> pod option) \<Rightarrow> nat \<Rightarrow> json \<Rightarrow> json_error + pod" where
  "read_pod hex n j = andthen (thrown (as_string j)) (\<lambda>s. refused (hex n s))"

definition field_pod :: "(nat \<Rightarrow> string \<Rightarrow> pod option) \<Rightarrow> nat \<Rightarrow> string \<Rightarrow> json \<Rightarrow> json_error + pod" where
  "field_pod hex n k j = andthen (field k j) (read_pod hex n)"

section \<open>A transaction from JSON\<close>

definition read_out :: "(nat \<Rightarrow> string \<Rightarrow> pod option) \<Rightarrow> json \<Rightarrow> json_error + tx_out" where
  "read_out hex vo =
     andthen (field_number ''amount'' vo) (\<lambda>amount.
     andthen (field ''target'' vo) (\<lambda>target.
     andthen (field_pod hex 32 ''key'' target) (\<lambda>out_pub_key.
       Inr \<lparr>vo_amount = amount, vo_target = Txout_To_Key out_pub_key\<rparr>)))"

definition read_in :: "(nat \<Rightarrow> string \<Rightarrow> pod option) \<Rightarrow> json \<Rightarrow> json_error + txin" where
  "read_in hex vi =
     andthen (field ''key'' vi) (\<lambda>key.
     andthen (field_number ''amount'' key) (\<lambda>amount.
     andthen (field_pod hex 32 ''k_image'' key) (\<lambda>in_key_image.
     andthen (field_items ''key_offsets'' key) (\<lambda>kos.
     andthen (each (\<lambda>ko. thrown (as_number ko)) kos) (\<lambda>key_offsets.
       Inr (Txin_To_Key \<lparr>ki_amount = amount, key_offsets = key_offsets, k_image = in_key_image\<rparr>))))))"

text \<open>
  The template \<open>chunks\<close> of \<open>utils.h\<close>: the body runs at least once, the last piece may be shorter. It is only used with
  a positive length.
\<close>

function chunks :: "nat \<Rightarrow> 'a list \<Rightarrow> 'a list list" where
  "chunks k xs = take k xs # (if drop k xs = [] \<or> k = 0 then [] else chunks k (drop k xs))"
  by pat_completeness auto

termination by (relation "measure (\<lambda>(k, xs). length xs)") auto

declare chunks.simps [simp del]

text \<open>What the piece's function returns is not looked at: a piece that is no signature is left out.\<close>

definition read_signatures :: "(nat \<Rightarrow> string \<Rightarrow> pod option) \<Rightarrow> json \<Rightarrow> json_error + pod list" where
  "read_signatures hex sigs =
     andthen (thrown (as_string sigs)) (\<lambda>concatanted_sig. Inr (List.map_filter (hex 64) (chunks 128 concatanted_sig)))"

definition read_ecdh :: "(nat \<Rightarrow> string \<Rightarrow> pod option) \<Rightarrow> json \<Rightarrow> json_error + (pod \<times> pod)" where
  "read_ecdh hex ecdhI =
     andthen (field_pod hex 32 ''amount'' ecdhI) (\<lambda>amount.
     andthen (field_pod hex 32 ''mask'' ecdhI) (\<lambda>mask. Inr (mask, amount)))"

definition zero_key :: pod where "zero_key = replicate 32 0"

definition read_rct :: "(nat \<Rightarrow> string \<Rightarrow> pod option) \<Rightarrow> json \<Rightarrow> rct_sig \<Rightarrow> json_error + rct_sig" where
  "read_rct hex j rv =
     andthen (if jcount ''pseudoOuts'' j \<noteq> 0
              then andthen (field_items ''pseudoOuts'' j) (each (read_pod hex 32)) else Inr []) (\<lambda>pseudo_outs.
     andthen (andthen (field_items ''ecdhInfo'' j) (each (read_ecdh hex))) (\<lambda>ecdh_info.
     andthen (andthen (field_items ''outPk'' j) (each (read_pod hex 32))) (\<lambda>masks.
     andthen (field_number ''txnFee'' j) (\<lambda>fee.
     andthen (andthen (field ''type'' j) (\<lambda>t. thrown (as_byte t))) (\<lambda>t.
       Inr (rv\<lparr>rv_pseudo_outs := rv_pseudo_outs rv @ pseudo_outs, rv_ecdh_info := rv_ecdh_info rv @ ecdh_info,
         rv_out_pk := rv_out_pk rv @ map (Pair zero_key) masks, rv_fee := fee, rv_type := t\<rparr>))))))"

definition read_range_sig :: "(nat \<Rightarrow> string \<Rightarrow> pod option) \<Rightarrow> json \<Rightarrow> json_error + (pod \<times> pod)" where
  "read_range_sig hex range_s =
     andthen (field_pod hex 4128 ''asig'' range_s) (\<lambda>asig.
     andthen (field_pod hex 2048 ''Ci'' range_s) (\<lambda>ci. Inr (asig, ci)))"

definition read_ss :: "(nat \<Rightarrow> string \<Rightarrow> pod option) \<Rightarrow> json \<Rightarrow> json_error + pod list" where
  "read_ss hex ss_j =
     andthen (andthen (thrown (jnth 0 ss_j)) (read_pod hex 32)) (\<lambda>a_key1.
     andthen (andthen (thrown (jnth 1 ss_j)) (read_pod hex 32)) (\<lambda>a_key2. Inr [a_key1, a_key2]))"

definition read_mg :: "(nat \<Rightarrow> string \<Rightarrow> pod option) \<Rightarrow> json \<Rightarrow> json_error + (pod list list \<times> pod)" where
  "read_mg hex a_mgs =
     andthen (andthen (field_items ''ss'' a_mgs) (each (read_ss hex))) (\<lambda>ss.
     andthen (field_pod hex 32 ''cc'' a_mgs) (\<lambda>cc. Inr (ss, cc)))"

definition read_prunable :: "(nat \<Rightarrow> string \<Rightarrow> pod option) \<Rightarrow> json \<Rightarrow> rct_sig \<Rightarrow> json_error + rct_sig" where
  "read_prunable hex j rv =
     andthen (andthen (field_items ''rangeSigs'' j) (each (read_range_sig hex))) (\<lambda>range_sigs.
     andthen (andthen (field_items ''MGs'' j) (each (read_mg hex))) (\<lambda>mgs.
       Inr (rv\<lparr>rv_range_sigs := rv_range_sigs rv @ range_sigs, rv_mgs := rv_mgs rv @ mgs\<rparr>)))"

text \<open>
  The vectors of the transaction that is passed are appended to. What is left in it when the function fails is
  not modelled.
\<close>

definition make_tx_from_json :: "(nat \<Rightarrow> string \<Rightarrow> pod option) \<Rightarrow> (string \<Rightarrow> json option) \<Rightarrow> string \<Rightarrow> transaction
    \<Rightarrow> json_error + transaction" where
  "make_tx_from_json hex parse json_str tx =
     andthen (thrown (parse json_str)) (\<lambda>j.
     andthen (field_number ''version'' j) (\<lambda>v.
     andthen (field_number ''unlock_time'' j) (\<lambda>unlock.
     andthen (andthen (field_items ''extra'' j) (each (\<lambda>x. thrown (as_byte x)))) (\<lambda>extra.
     andthen (andthen (field_items ''vout'' j) (each (read_out hex))) (\<lambda>outs.
     andthen (andthen (field_items ''vin'' j) (each (read_in hex))) (\<lambda>ins.
     andthen (if jcount ''signatures'' j \<noteq> 0
              then andthen (field_items ''signatures'' j) (each (read_signatures hex)) else Inr []) (\<lambda>sigs.
     andthen (if jcount ''rct_signatures'' j \<noteq> 0
              then andthen (field ''rct_signatures'' j) (\<lambda>rct_j. read_rct hex rct_j (t_rct tx)) else Inr (t_rct tx)) (\<lambda>rv.
     andthen (if jcount ''rctsig_prunable'' j \<noteq> 0
              then andthen (field ''rctsig_prunable'' j) (\<lambda>p. read_prunable hex p rv) else Inr rv) (\<lambda>rv.
       Inr \<lparr>t_version = v, t_unlock_time = unlock, t_extra = t_extra tx @ extra, t_vin = t_vin tx @ ins,
         t_vout = t_vout tx @ outs, t_signatures = t_signatures tx @ sigs, t_rct = rv\<rparr>)))))))))"

section \<open>Sums over JSON\<close>

fun sum_items :: "(json \<Rightarrow> u64 option) \<Rightarrow> json list \<Rightarrow> u64 \<times> u64 \<Rightarrow> (u64 \<times> u64) option" where
  "sum_items amount [] sum_xmr = Some sum_xmr"
| "sum_items amount (j # js) (sum_xmr, n) =
     (case amount j of None \<Rightarrow> None | Some a \<Rightarrow> sum_items amount js (sum_xmr + a, n + 1))"

definition sum_money_in_outputs_json :: "(string \<Rightarrow> json option) \<Rightarrow> string \<Rightarrow> (u64 \<times> u64) option" where
  "sum_money_in_outputs_json parse json_str =
     Option.bind (parse json_str) (\<lambda>j. Option.bind (jget ''vout'' j) (\<lambda>outs.
       sum_items (get_number ''amount'') (json_items outs) (0, 0)))"

definition sum_money_in_inputs_json :: "(string \<Rightarrow> json option) \<Rightarrow> string \<Rightarrow> (u64 \<times> u64) option" where
  "sum_money_in_inputs_json parse json_str =
     Option.bind (parse json_str) (\<lambda>j. Option.bind (jget ''vin'' j) (\<lambda>ins.
       sum_items (\<lambda>vin. Option.bind (jget ''key'' vin) (get_number ''amount'')) (json_items ins) (0, 0)))"

fun jsize :: "json \<Rightarrow> u64" where
  "jsize Null = 0"
| "jsize (Arr js) = size64 js"
| "jsize (Obj kv) = size64 kv"
| "jsize _ = 1"

text \<open>One number, the size of the first ring.\<close>

definition get_mixin_no_json :: "(string \<Rightarrow> json option) \<Rightarrow> string \<Rightarrow> u64 list option" where
  "get_mixin_no_json parse json_str =
     Option.bind (parse json_str) (\<lambda>j. Option.bind (jget ''vin'' j) (\<lambda>ins. Option.bind (jat 0 ins) (\<lambda>vin.
     Option.bind (jget ''key'' vin) (\<lambda>key. Option.bind (jget ''key_offsets'' key) (\<lambda>kos. Some [jsize kos])))))"

text \<open>The outputs, the inputs, their numbers, the ring size less one, and the inputs that show an amount.\<close>

fun summary_vouts :: "json list \<Rightarrow> u64 \<Rightarrow> u64 option" where
  "summary_vouts [] xmr_outputs = Some xmr_outputs"
| "summary_vouts (vout # vouts) xmr_outputs =
     (case Option.bind (jget_const ''amount'' vout) as_number of
        None \<Rightarrow> None | Some a \<Rightarrow> summary_vouts vouts (xmr_outputs + a))"

fun summary_vins :: "json list \<Rightarrow> u64 \<times> u64 \<Rightarrow> (u64 \<times> u64) option" where
  "summary_vins [] acc = Some acc"
| "summary_vins (vin # vins) (xmr_inputs, num_nonrct_inputs) =
     (case Option.bind (jget_const ''key'' vin) (\<lambda>key. Option.bind (jget_const ''amount'' key) as_number) of
        None \<Rightarrow> None
      | Some amount \<Rightarrow>
          summary_vins vins (xmr_inputs + amount, if amount \<noteq> 0 then num_nonrct_inputs + 1 else num_nonrct_inputs))"

definition summary_of_in_out_rct_json :: "json \<Rightarrow> (u64 \<times> u64 \<times> u64 \<times> u64 \<times> u64 \<times> u64) option" where
  "summary_of_in_out_rct_json j =
     Option.bind (jget_const ''vout'' j) (\<lambda>vout. Option.bind (summary_vouts (json_items vout) 0) (\<lambda>xmr_outputs.
     Option.bind (jget_const ''vin'' j) (\<lambda>vin. Option.bind (summary_vins (json_items vin) (0, 0)) (\<lambda>(xmr_inputs, num_nonrct_inputs).
     Option.bind (jat 0 vin) (\<lambda>first. Option.bind (jget_const ''key'' first) (\<lambda>key. Option.bind (jget_const ''key_offsets'' key) (\<lambda>kos.
       Some (xmr_outputs, xmr_inputs, jsize vout, jsize vin, jsize kos - 1, num_nonrct_inputs))))))))"

section \<open>The JSON of a transaction\<close>

text \<open>What the node prints for a transaction, in the fields that are read; \<open>hexs\<close> is \<open>pod_to_hex\<close>.\<close>

fun json_of_in :: "(pod \<Rightarrow> string) \<Rightarrow> txin \<Rightarrow> json" where
  "json_of_in hexs (Txin_To_Key k) = Obj [(''key'', Obj [(''amount'', Number (ki_amount k)),
     (''key_offsets'', Arr (map Number (key_offsets k))), (''k_image'', Str (hexs (k_image k)))])]"
| "json_of_in hexs (Txin_Gen h) = Obj [(''gen'', Obj [(''height'', Number h)])]"
| "json_of_in hexs Txin_Script = Obj [(''script'', Null)]"

definition json_of_out :: "(pod \<Rightarrow> string) \<Rightarrow> tx_out \<Rightarrow> json" where
  "json_of_out hexs out = Obj [(''amount'', Number (vo_amount out)),
     (''target'', case vo_target out of Txout_To_Key k \<Rightarrow> Obj [(''key'', Str (hexs k))] | Txout_Script \<Rightarrow> Obj [(''script'', Null)])]"

definition json_of_rct :: "(pod \<Rightarrow> string) \<Rightarrow> rct_sig \<Rightarrow> json" where
  "json_of_rct hexs rv = Obj [(''type'', Number (ucast (rv_type rv))), (''txnFee'', Number (rv_fee rv)),
     (''pseudoOuts'', Arr (map (\<lambda>p. Str (hexs p)) (rv_pseudo_outs rv))),
     (''ecdhInfo'', Arr (map (\<lambda>(mask, amount). Obj [(''mask'', Str (hexs mask)), (''amount'', Str (hexs amount))]) (rv_ecdh_info rv))),
     (''outPk'', Arr (map (\<lambda>(dest, mask). Str (hexs mask)) (rv_out_pk rv)))]"

definition json_of_prunable :: "(pod \<Rightarrow> string) \<Rightarrow> rct_sig \<Rightarrow> json" where
  "json_of_prunable hexs rv = Obj [
     (''rangeSigs'', Arr (map (\<lambda>(asig, ci). Obj [(''asig'', Str (hexs asig)), (''Ci'', Str (hexs ci))]) (rv_range_sigs rv))),
     (''MGs'', Arr (map (\<lambda>(ss, cc). Obj [(''ss'', Arr (map (\<lambda>row. Arr (map (\<lambda>k. Str (hexs k)) row)) ss)), (''cc'', Str (hexs cc))])
       (rv_mgs rv)))]"

definition json_of_tx :: "(pod \<Rightarrow> string) \<Rightarrow> transaction \<Rightarrow> json" where
  "json_of_tx hexs tx = Obj [(''version'', Number (t_version tx)), (''unlock_time'', Number (t_unlock_time tx)),
     (''vin'', Arr (map (json_of_in hexs) (t_vin tx))), (''vout'', Arr (map (json_of_out hexs) (t_vout tx))),
     (''extra'', Arr (map (\<lambda>b. Number (ucast b)) (t_extra tx))),
     (''signatures'', Arr (map (\<lambda>sigs. Str (concat (map hexs sigs))) (t_signatures tx))),
     (''rct_signatures'', json_of_rct hexs (t_rct tx)), (''rctsig_prunable'', json_of_prunable hexs (t_rct tx))]"

definition hex_pair :: "(nat \<Rightarrow> string \<Rightarrow> pod option) \<Rightarrow> (pod \<Rightarrow> string) \<Rightarrow> bool" where
  "hex_pair hex hexs \<longleftrightarrow> (\<forall>p. hex (length p) (hexs p) = Some p \<and> length (hexs p) = 2 * length p) \<and> hex 64 [] = None"

text \<open>The sizes of the fields, and inputs and outputs with a key.\<close>

definition rct_sized :: "rct_sig \<Rightarrow> bool" where
  "rct_sized rv \<longleftrightarrow> (\<forall>p\<in>set (rv_pseudo_outs rv). length p = 32)
     \<and> (\<forall>(mask, amount)\<in>set (rv_ecdh_info rv). length mask = 32 \<and> length amount = 32)
     \<and> (\<forall>(dest, mask)\<in>set (rv_out_pk rv). dest = zero_key \<and> length mask = 32)
     \<and> (\<forall>(asig, ci)\<in>set (rv_range_sigs rv). length asig = 4128 \<and> length ci = 2048)
     \<and> (\<forall>(ss, cc)\<in>set (rv_mgs rv). length cc = 32 \<and> (\<forall>row\<in>set ss. length row = 2 \<and> (\<forall>k\<in>set row. length k = 32)))"

definition tx_sized :: "transaction \<Rightarrow> bool" where
  "tx_sized tx \<longleftrightarrow> (\<forall>i\<in>set (t_vin tx). \<exists>k. i = Txin_To_Key k \<and> length (k_image k) = 32)
     \<and> (\<forall>out\<in>set (t_vout tx). \<exists>k. vo_target out = Txout_To_Key k \<and> length k = 32)
     \<and> (\<forall>sigs\<in>set (t_signatures tx). \<forall>p\<in>set sigs. length p = 64) \<and> rct_sized (t_rct tx)"

definition empty_rct :: rct_sig where
  "empty_rct = \<lparr>rv_type = 0, rv_fee = 0, rv_pseudo_outs = [], rv_ecdh_info = [], rv_out_pk = [], rv_range_sigs = [], rv_mgs = []\<rparr>"

definition empty_tx :: transaction where
  "empty_tx = \<lparr>t_version = 0, t_unlock_time = 0, t_extra = [], t_vin = [], t_vout = [], t_signatures = [], t_rct = empty_rct\<rparr>"

section \<open>Lemmas\<close>

lemma thrown_simps [simp]: "thrown (Some x) = Inr x" "thrown None = Inl Thrown" "refused (Some x) = Inr x" "refused None = Inl Refused"
    "andthen (Inr x) f = f x" "andthen (Inl e) f = Inl e"
  by (simp_all add: thrown_def refused_def andthen_def)

lemma each_map: "(\<And>x. x \<in> set xs \<Longrightarrow> f (g x) = Inr (h x)) \<Longrightarrow> each f (map g xs) = Inr (map h xs)"
  by (induction xs) simp_all

lemma each_same: "(\<And>x. x \<in> set xs \<Longrightarrow> f (g x) = Inr x) \<Longrightarrow> each f (map g xs) = Inr xs"
  using each_map [of xs f g "\<lambda>x. x"] by simp

lemma field_Obj [simp]:
  "field k (Obj kv) = Inr (case map_of kv k of Some v \<Rightarrow> v | None \<Rightarrow> Null)"
  "field_items k (Obj kv) = Inr (json_items (case map_of kv k of Some v \<Rightarrow> v | None \<Rightarrow> Null))"
  "field_number k (Obj kv) = thrown (as_number (case map_of kv k of Some v \<Rightarrow> v | None \<Rightarrow> Null))"
  "field_pod hex n k (Obj kv) = read_pod hex n (case map_of kv k of Some v \<Rightarrow> v | None \<Rightarrow> Null)"
  by (simp_all add: field_def field_items_def field_number_def field_pod_def)

lemma read_pod_hexs: "hex_pair hex hexs \<Longrightarrow> length p = n \<Longrightarrow> read_pod hex n (Str (hexs p)) = Inr p"
  by (auto simp: read_pod_def hex_pair_def)

lemma byte_number [simp]: "ucast (ucast b :: u64) = (b :: byte)"
  by (rule bit_word_eqI) (simp add: bit_ucast_iff)

lemma hex_hexs: "hex_pair hex hexs \<Longrightarrow> length p = n \<Longrightarrow> hex n (hexs p) = Some p"
  by (auto simp: hex_pair_def)

lemma chunks_concat:
  assumes "ss \<noteq> []" "\<forall>s\<in>set ss. length s = k" "0 < k"
  shows "chunks k (concat ss) = ss"
  using assms
proof (induction ss)
  case (Cons s ss)
  then have d: "take k (concat (s # ss)) = s" "drop k (concat (s # ss)) = concat ss" by simp_all
  have "concat ss = [] \<longleftrightarrow> ss = []" using Cons.prems by (cases ss) auto
  then show ?case using Cons by (subst chunks.simps) (simp add: d del: concat.simps)
qed simp

lemma read_signatures_hexs:
  assumes "hex_pair hex hexs" "\<forall>p\<in>set sigs. length p = 64"
  shows "read_signatures hex (Str (concat (map hexs sigs))) = Inr sigs"
proof (cases "sigs = []")
  case True
  have "hex 64 [] = None" using assms(1) by (simp add: hex_pair_def)
  then show ?thesis using True by (simp add: read_signatures_def chunks.simps map_filter_def)
next
  case False
  have "chunks 128 (concat (map hexs sigs)) = map hexs sigs"
    using False assms by (intro chunks_concat) (auto simp: hex_pair_def)
  moreover have "List.map_filter (hex 64) (map hexs sigs) = sigs"
    using assms(2) by (induction sigs) (simp_all add: hex_hexs [OF assms(1)] map_filter_def)
  ultimately show ?thesis by (simp add: read_signatures_def)
qed

lemma read_rct_json:
  assumes "hex_pair hex hexs" "rct_sized rv"
  shows "read_rct hex (json_of_rct hexs rv) empty_rct
    = Inr (rv\<lparr>rv_range_sigs := [], rv_mgs := []\<rparr>)"
proof -
  note h = read_pod_hexs [OF assms(1)]
  have "each (read_pod hex 32) (map (\<lambda>p. Str (hexs p)) (rv_pseudo_outs rv)) = Inr (rv_pseudo_outs rv)"
    using assms(2) by (intro each_same h) (simp add: rct_sized_def)
  moreover have "each (read_ecdh hex) (map (\<lambda>(mask, amount). Obj [(''mask'', Str (hexs mask)), (''amount'', Str (hexs amount))])
      (rv_ecdh_info rv)) = Inr (rv_ecdh_info rv)"
    using assms(2) by (intro each_same) (auto simp: rct_sized_def read_ecdh_def h)
  moreover have "each (read_pod hex 32) (map (\<lambda>(dest, mask). Str (hexs mask)) (rv_out_pk rv)) = Inr (map snd (rv_out_pk rv))"
    using assms(2) by (intro each_map) (auto simp: rct_sized_def h)
  moreover have "map (Pair zero_key) (map snd (rv_out_pk rv)) = rv_out_pk rv"
    using assms(2) by (auto simp: rct_sized_def intro!: map_idI)
  ultimately show ?thesis
    by (cases rv) (simp add: read_rct_def json_of_rct_def empty_rct_def)
qed

lemma read_prunable_json:
  assumes "hex_pair hex hexs" "rct_sized rv"
  shows "read_prunable hex (json_of_prunable hexs rv) (rv\<lparr>rv_range_sigs := [], rv_mgs := []\<rparr>) = Inr rv"
proof -
  note h = read_pod_hexs [OF assms(1)]
  have "each (read_range_sig hex) (map (\<lambda>(asig, ci). Obj [(''asig'', Str (hexs asig)), (''Ci'', Str (hexs ci))])
      (rv_range_sigs rv)) = Inr (rv_range_sigs rv)"
    using assms(2) by (intro each_same) (auto simp: rct_sized_def read_range_sig_def h)
  moreover have "each (read_ss hex) (map (\<lambda>row. Arr (map (\<lambda>k. Str (hexs k)) row)) ss) = Inr ss"
    if "\<forall>row\<in>set ss. length row = 2 \<and> (\<forall>k\<in>set row. length k = 32)" for ss
  proof (rule each_same)
    fix row assume "row \<in> set ss"
    then have "length row = 2" "\<forall>k\<in>set row. length k = 32" using that by blast+
    moreover then obtain a b where "row = [a, b]" by (auto simp: numeral_2_eq_2 length_Suc_conv)
    ultimately show "read_ss hex (Arr (map (\<lambda>k. Str (hexs k)) row)) = Inr row" by (simp add: read_ss_def h)
  qed
  then have "each (read_mg hex) (map (\<lambda>(ss, cc). Obj [(''ss'', Arr (map (\<lambda>row. Arr (map (\<lambda>k. Str (hexs k)) row)) ss)), (''cc'', Str (hexs cc))])
      (rv_mgs rv)) = Inr (rv_mgs rv)"
    using assms(2) by (intro each_same) (auto simp: rct_sized_def read_mg_def h)
  ultimately show ?thesis by (simp add: read_prunable_def json_of_prunable_def)
qed

section \<open>Properties\<close>


text \<open>A concrete pair of conversions: two lower-case digits per byte, and only texts of the right length.\<close>

definition nibble :: "nat \<Rightarrow> char" where
  "nibble n = char_of (if n < 10 then 48 + n else 87 + n)"

fun to_hex :: "pod \<Rightarrow> string" where
  "to_hex [] = []"
| "to_hex (b # bs) = nibble (unat b div 16) # nibble (unat b mod 16) # to_hex bs"

fun from_hex :: "string \<Rightarrow> pod option" where
  "from_hex [] = Some []"
| "from_hex (a # b # cs) = (case (hexval a, hexval b) of
     (Some v, Some w) \<Rightarrow> map_option ((#) (of_nat (16 * v + w))) (from_hex cs) | _ \<Rightarrow> None)"
| "from_hex [_] = None"

definition hex_sized :: "nat \<Rightarrow> string \<Rightarrow> pod option" where
  "hex_sized n s = (if length s = 2 * n then from_hex s else None)"

lemma hexval_nibble: "n < 16 \<Longrightarrow> hexval (nibble n) = Some n"
  by (auto simp: hexval_def nibble_def)

lemma from_to_hex: "from_hex (to_hex p) = Some p"
proof (induction p)
  case (Cons b p)
  have "unat b div 16 < 16" using unat_byte_less [of b] by (simp add: less_mult_imp_div_less)
  moreover have "of_nat (16 * (unat b div 16) + unat b mod 16) = b" by simp
  ultimately show ?case using Cons by (simp add: hexval_nibble del: of_nat_add of_nat_mult)
qed simp

lemma hex_sized_pair: "hex_pair hex_sized to_hex"
proof -
  have "length (to_hex p) = 2 * length p" for p by (induction p) simp_all
  then show ?thesis by (simp add: hex_pair_def hex_sized_def from_to_hex)
qed

definition sample_tx :: transaction where
  "sample_tx = \<lparr>t_version = 2, t_unlock_time = 60, t_extra = [1, 255],
     t_vin = [Txin_To_Key \<lparr>ki_amount = 5, key_offsets = [3, 4, 5], k_image = replicate 32 17\<rparr>],
     t_vout = [\<lparr>vo_amount = 4, vo_target = Txout_To_Key (replicate 32 34)\<rparr>],
     t_signatures = [[replicate 64 1, replicate 64 2]],
     t_rct = empty_rct\<lparr>rv_type := 3, rv_fee := 1, rv_ecdh_info := [(replicate 32 5, replicate 32 6)],
       rv_out_pk := [(zero_key, replicate 32 7)]\<rparr>\<rparr>"

lemma sample_tx_sized: "tx_sized sample_tx"
  by (simp add: tx_sized_def sample_tx_def rct_sized_def empty_rct_def)


text \<open>On the JSON of a transaction whose inputs and outputs have keys, the functions that work on the JSON give the sums and
  numbers of those that work on the transaction; the ring size in the summary is that of the first input, less one, while the
  summary of the transaction does not take one off.\<close>

theorem json_sums_agree:
  assumes "tx_sized tx" "parse str = Some (json_of_tx hexs tx)" "t_vin tx = Txin_To_Key k # ins"
    and "fst (summary_of_in_out_rct tx) = (xmr_outputs, xmr_inputs, mixin, nonrct)"
  shows "sum_money_in_outputs_json parse str = Some (sum_money_in_outputs tx, size64 (t_vout tx))
    \<and> sum_money_in_inputs_json parse str = Some (sum_money_in_inputs tx, size64 (t_vin tx))
    \<and> get_mixin_no_json parse str = Some [size64 (key_offsets k)]
    \<and> summary_of_in_out_rct_json (json_of_tx hexs tx)
      = Some (xmr_outputs, xmr_inputs, size64 (t_vout tx), size64 (t_vin tx), size64 (key_offsets k) - 1, nonrct)
    \<and> (size64 (key_offsets k) \<noteq> 0 \<longrightarrow> mixin = size64 (key_offsets k))"
proof -
  obtain pks imgs where s: "summary_of_in_out_rct tx = ((xmr_outputs, xmr_inputs, mixin, nonrct), pks, imgs)"
    using assms(4) by (metis prod.collapse)
  note agree = summary_sums(1,2,4,5) [OF s]
  have ins: "\<forall>i\<in>set (t_vin tx). \<exists>k. i = Txin_To_Key k" and outs: "\<forall>out\<in>set (t_vout tx). \<not> keyless out"
    using assms(1) by (auto simp: tx_sized_def keyless_def)
  have "sum_items (get_number ''amount'') (map (json_of_out hexs) os) (a, n) = Some (a + (\<Sum>out\<leftarrow>os. vo_amount out), n + size64 os)" for os a n
    by (induction os arbitrary: a n) (simp_all add: json_of_out_def size64_def add.assoc)
  then have out_sum: "sum_money_in_outputs_json parse str = Some (sum_money_in_outputs tx, size64 (t_vout tx))"
    using assms(2) by (simp add: sum_money_in_outputs_json_def json_of_tx_def sum_money_in_outputs_def foldl_sum)
  have "sum_items (\<lambda>vin. Option.bind (jget ''key'' vin) (get_number ''amount'')) (map (json_of_in hexs) vin) (a, n)
      = Some (a + (\<Sum>k\<leftarrow>key_inputs vin. ki_amount k), n + size64 vin)"
    if "\<forall>i\<in>set vin. \<exists>k. i = Txin_To_Key k" for vin a n
    using that by (induction vin arbitrary: a n) (auto simp: size64_def add.assoc)
  from this [OF ins] have in_sum: "sum_money_in_inputs_json parse str = Some (sum_money_in_inputs tx, size64 (t_vin tx))"
    using assms(2) by (simp add: sum_money_in_inputs_json_def json_of_tx_def sum_money_in_inputs_def foldl_sum)
  have ring: "get_mixin_no_json parse str = Some [size64 (key_offsets k)]"
    using assms(2,3) by (simp add: get_mixin_no_json_def json_of_tx_def size64_def)
  have out: "summary_vouts (map (json_of_out hexs) os) a = Some (a + (\<Sum>out\<leftarrow>os. vo_amount out))" for os a
    by (induction os arbitrary: a) (simp_all add: json_of_out_def jget_const_def add.assoc)
  have vin: "summary_vins (map (json_of_in hexs) vin) (a, n)
      = Some (a + (\<Sum>k\<leftarrow>key_inputs vin. ki_amount k), n + size64 (filter (\<lambda>k. ki_amount k \<noteq> 0) (key_inputs vin)))"
    if "\<forall>i\<in>set vin. \<exists>k. i = Txin_To_Key k" for vin a n
    using that by (induction vin arbitrary: a n) (auto simp: size64_def jget_const_def add.assoc)
  have "xmr_outputs = (\<Sum>out\<leftarrow>t_vout tx. vo_amount out)"
    using agree(4) outs by (simp add: sum_money_in_outputs_def foldl_sum filter_False)
  moreover have "jat 0 (Arr (map (json_of_in hexs) (t_vin tx))) = Some (json_of_in hexs (Txin_To_Key k))"
    using assms(3) by simp
  ultimately have "summary_of_in_out_rct_json (json_of_tx hexs tx)
      = Some (xmr_outputs, xmr_inputs, size64 (t_vout tx), size64 (t_vin tx), size64 (key_offsets k) - 1, nonrct)"
    using agree(1-3) vin [OF ins] out
    by (simp add: summary_of_in_out_rct_json_def json_of_tx_def jget_const_def sum_money_in_inputs_def foldl_sum get_key_images_def
        size64_def del: jat.simps)
  moreover have "size64 (key_offsets k) \<noteq> 0 \<longrightarrow> mixin = size64 (key_offsets k)"
    using agree(2) assms(3) by (simp add: get_mixin_no_first get_key_images_def)
  ultimately show ?thesis using out_sum in_sum ring by blast
qed

theorem json_sums_agree_witness:
  "summary_of_in_out_rct_json (json_of_tx to_hex sample_tx) = Some (4, 5, 1, 1, 2, 1) \<and> get_mixin_no sample_tx = 3"
proof -
  have "fst (summary_of_in_out_rct sample_tx) = (4, 5, 3, 1)"
    by (simp add: summary_of_in_out_rct_def sample_tx_def size64_def)
  note j = json_sums_agree [OF sample_tx_sized, of "\<lambda>_. Some (json_of_tx to_hex sample_tx)" "''j''" to_hex, OF refl _ this]
  show ?thesis using j [of "\<lparr>ki_amount = 5, key_offsets = [3, 4, 5], k_image = replicate 32 17\<rparr>" "[]"]
    by (simp add: sample_tx_def size64_def get_mixin_no_def)
qed

end
