(* ===== verification/Setup.thy ===== *)
theory Setup
  imports ServerSystem TxJson
begin

text \<open>
  The configuration (\<open>BlockchainSetup.cpp\<close>, \<open>CmdLineOptions.cpp\<close>) and the start of the program (\<open>main.cpp\<close>): which fields of the
  configuration file are read for which network, what is refused and how, and how \<open>main\<close> ends before it serves. The files, the parsers of
  addresses and keys, the default paths of the Monero core and the number parser are arguments.
\<close>

section \<open>Command line\<close>

record options =
  help_opt :: bool
  testnet :: bool
  stagenet :: bool
  do_not_relay :: bool
  port :: string
  config_file :: string
  monero_log_level :: u64
  verbose :: u64
  log_file :: string

text \<open>The values of the options that are not given.\<close>

definition default_options :: options where
  "default_options = \<lparr>help_opt = False, testnet = False, stagenet = False, do_not_relay = False, port = ''1984'',
     config_file = ''./config/config.json'', monero_log_level = 1, verbose = 0, log_file = ''./bittube.log''\<rparr>"

section \<open>Configuration\<close>

text \<open>An exception of the JSON library, or one of the program with its message.\<close>

datatype setup_error = Json_Exception | Runtime_Error string

definition conv :: "'v option \<Rightarrow> setup_error + 'v" where
  "conv r = (case r of None \<Rightarrow> Inl Json_Exception | Some x \<Rightarrow> Inr x)"

text \<open>\<open>j[k1][k2]\<dots>\<close>.\<close>

fun path_of :: "string list \<Rightarrow> json \<Rightarrow> json option" where
  "path_of [] j = Some j"
| "path_of (k # ks) j = Option.bind (jget k j) (path_of ks)"

definition number_at :: "string list \<Rightarrow> json \<Rightarrow> setup_error + u64" where
  "number_at ks j = conv (Option.bind (path_of ks j) as_number)"

definition string_at :: "string list \<Rightarrow> json \<Rightarrow> setup_error + string" where
  "string_at ks j = conv (Option.bind (path_of ks j) as_string)"

definition bool_at :: "string list \<Rightarrow> json \<Rightarrow> setup_error + bool" where
  "bool_at ks j = conv (Option.bind (path_of ks j) as_bool)"

text \<open>
  \<open>read_file\<close> is the text of a file that exists, \<open>parse_config\<close> reads it from a stream, \<open>default_path\<close> is \<open>get_blockchain_path\<close> of the core, which
  replaces an empty path and fails when there is no such directory.
\<close>

record ('a, 'k) setup_env =
  read_file :: "string \<Rightarrow> string option"
  parse_config :: "string \<Rightarrow> json option"
  default_path :: "string \<Rightarrow> network_type \<Rightarrow> string option"
  parse_str_address :: "string \<Rightarrow> network_type \<Rightarrow> 'a option"
  parse_str_secret_key :: "string \<Rightarrow> 'k option"

definition get_network_name :: "network_type \<Rightarrow> string" where
  "get_network_name n_type = (case n_type of MAINNET \<Rightarrow> ''mainnet'' | TESTNET \<Rightarrow> ''testnet'' | STAGENET \<Rightarrow> ''stagenet'')"

definition read_config :: "('a, 'k) setup_env \<Rightarrow> string \<Rightarrow> setup_error + json" where
  "read_config env config_json_path =
     (case read_file env config_json_path of
        None \<Rightarrow> Inl (Runtime_Error (''Config file '' @ config_json_path @ '' does not exist''))
      | Some str \<Rightarrow>
          (case parse_config env str of
             None \<Rightarrow> Inl (Runtime_Error ''Cant parse json string as json: '')
           | Some j \<Rightarrow> Inr j))"

record ('a, 'k) blockchain_setup =
  net_type :: network_type
  relay_off :: bool
  config_json :: json
  refresh_block_status_every :: u64
  blocks_search_lookahead :: u64
  max_blocks_to_import :: u64
  search_thread_life :: u64
  import_fee :: u64
  mysql_ping_every :: u64
  blockchain_treadpool_size :: u64
  blockchain_path :: string
  deamon_url :: string
  import_payment_address_str :: string
  import_payment_viewkey_str :: string
  import_payment_address :: 'a
  import_payment_viewkey :: 'k

text \<open>The path, the URL of the daemon, and the address and view key for payments, in one branch for each network.\<close>

definition network_fields :: "json \<Rightarrow> network_type \<Rightarrow> setup_error + string \<times> string \<times> string \<times> string" where
  "network_fields j net =
     (case net of
        MAINNET \<Rightarrow>
          andthen (string_at [''blockchain-path'', ''mainnet''] j) (\<lambda>path.
          andthen (string_at [''daemon-url'', ''mainnet''] j) (\<lambda>url.
          andthen (string_at [''wallet_import'', ''mainnet'', ''address''] j) (\<lambda>addr.
          andthen (string_at [''wallet_import'', ''mainnet'', ''viewkey''] j) (\<lambda>key. Inr (path, url, addr, key)))))
      | TESTNET \<Rightarrow>
          andthen (string_at [''blockchain-path'', ''testnet''] j) (\<lambda>path.
          andthen (string_at [''daemon-url'', ''testnet''] j) (\<lambda>url.
          andthen (string_at [''wallet_import'', ''testnet'', ''address''] j) (\<lambda>addr.
          andthen (string_at [''wallet_import'', ''testnet'', ''viewkey''] j) (\<lambda>key. Inr (path, url, addr, key)))))
      | STAGENET \<Rightarrow>
          andthen (string_at [''blockchain-path'', ''stagenet''] j) (\<lambda>path.
          andthen (string_at [''daemon-url'', ''stagenet''] j) (\<lambda>url.
          andthen (string_at [''wallet_import'', ''stagenet'', ''address''] j) (\<lambda>addr.
          andthen (string_at [''wallet_import'', ''stagenet'', ''viewkey''] j) (\<lambda>key. Inr (path, url, addr, key))))))"

definition get_blockchain_path :: "('a, 'k) setup_env \<Rightarrow> json \<Rightarrow> network_type \<Rightarrow> setup_error + string \<times> string \<times> string \<times> string" where
  "get_blockchain_path env j net =
     andthen (network_fields j net) (\<lambda>(path, url, addr, key).
       case default_path env path net of
         None \<Rightarrow> Inl (Runtime_Error ''Error getting blockchain path.'')
       | Some path \<Rightarrow> Inr (path, url, addr, key))"

text \<open>The first test of the function makes an exception object but does not throw it, so an empty text goes on to the parser.\<close>

definition parse_addr_and_viewkey :: "('a, 'k) setup_env \<Rightarrow> string \<Rightarrow> string \<Rightarrow> network_type \<Rightarrow> setup_error + 'a \<times> 'k" where
  "parse_addr_and_viewkey env addr_str key_str net =
     (case parse_str_address env addr_str net of
        None \<Rightarrow> Inl (Runtime_Error (''Cant parse config address: '' @ addr_str))
      | Some addr \<Rightarrow>
          (case parse_str_secret_key env key_str of
             None \<Rightarrow> Inl (Runtime_Error (''Cant parse config viewkey: '' @ key_str))
           | Some key \<Rightarrow> Inr (addr, key)))"

definition init_setup :: "('a, 'k) setup_env \<Rightarrow> json \<Rightarrow> network_type \<Rightarrow> bool \<Rightarrow> setup_error + ('a, 'k) blockchain_setup" where
  "init_setup env j net no_relay =
     andthen (number_at [''refresh_block_status_every_seconds''] j) (\<lambda>refresh.
     andthen (number_at [''blocks_search_lookahead''] j) (\<lambda>la.
     andthen (number_at [''max_number_of_blocks_to_import''] j) (\<lambda>blocks.
     andthen (number_at [''search_thread_life_in_seconds''] j) (\<lambda>life.
     andthen (number_at [''wallet_import'', ''fee''] j) (\<lambda>fee.
     andthen (number_at [''mysql_ping_every_seconds''] j) (\<lambda>pings.
     andthen (number_at [''blockchain_treadpool_size''] j) (\<lambda>size.
     andthen (get_blockchain_path env j net) (\<lambda>(path, url, addr_str, key_str).
     andthen (parse_addr_and_viewkey env addr_str key_str net) (\<lambda>(addr, key).
       Inr \<lparr>net_type = net, relay_off = no_relay, config_json = j, refresh_block_status_every = refresh,
         blocks_search_lookahead = la, max_blocks_to_import = blocks, search_thread_life = life, import_fee = fee,
         mysql_ping_every = pings, blockchain_treadpool_size = size, blockchain_path = path, deamon_url = url,
         import_payment_address_str = addr_str, import_payment_viewkey_str = key_str, import_payment_address = addr,
         import_payment_viewkey = key\<rparr>)))))))))"

definition blockchain_setup_of :: "('a, 'k) setup_env \<Rightarrow> network_type \<Rightarrow> bool \<Rightarrow> string \<Rightarrow> setup_error + ('a, 'k) blockchain_setup" where
  "blockchain_setup_of env net no_relay config_path =
     andthen (read_config env config_path) (\<lambda>j. init_setup env j net no_relay)"

section \<open>The start of the program\<close>

text \<open>
  \<open>Terminated\<close> is the end of the process by an exception that nobody catches, or by the destruction of a running thread. \<open>Serving\<close> has the
  set-up, the port, the details of the database, the number of threads of the pool, and the key, certificate and parameters when TLS is on.
\<close>

datatype ('a, 'k) start_end = Exit_Success | Exit_Failure | Terminated
  | Serving "('a, 'k) blockchain_setup" "16 word" "string \<times> u64 \<times> string \<times> string \<times> string" u32 "(string \<times> string \<times> string) option"

record ('a, 'k) start_env = "('a, 'k) setup_env" +
  cast_port :: "string \<Rightarrow> 16 word option"
  cores :: u32
  chain_opens :: "string \<Rightarrow> bool"
  database_ok :: "string \<times> u64 \<times> string \<times> string \<times> string \<Rightarrow> bool"
  uri_ok :: "string \<Rightarrow> bool"

definition network_of :: "options \<Rightarrow> network_type" where
  "network_of opts = (if testnet opts then TESTNET else if stagenet opts then STAGENET else MAINNET)"

definition database_details :: "json \<Rightarrow> setup_error + string \<times> u64 \<times> string \<times> string \<times> string" where
  "database_details j =
     andthen (string_at [''database'', ''url''] j) (\<lambda>url.
     andthen (number_at [''database'', ''port''] j) (\<lambda>p.
     andthen (string_at [''database'', ''user''] j) (\<lambda>user.
     andthen (string_at [''database'', ''password''] j) (\<lambda>password.
     andthen (string_at [''database'', ''dbname''] j) (\<lambda>dbname. Inr (url, p, user, password, dbname))))))"

definition uri_at :: "('a, 'k) start_env \<Rightarrow> string list \<Rightarrow> json \<Rightarrow> setup_error + string" where
  "uri_at env ks j = andthen (string_at ks j) (\<lambda>u. if uri_ok env u then Inr u else Inl (Runtime_Error u))"

definition ssl_details :: "('a, 'k) start_env \<Rightarrow> json \<Rightarrow> setup_error + (string \<times> string \<times> string) option" where
  "ssl_details env j =
     andthen (bool_at [''ssl'', ''enable''] j) (\<lambda>enable.
       if enable
       then andthen (uri_at env [''ssl'', ''ssl-key''] j) (\<lambda>key.
            andthen (uri_at env [''ssl'', ''ssl-crt''] j) (\<lambda>crt.
            andthen (uri_at env [''ssl'', ''dh-pem''] j) (\<lambda>dh. Inr (Some (key, crt, dh)))))
       else Inr None)"

text \<open>The monitoring thread runs when the database is asked for: from then on every return destroys a running thread.\<close>

definition start_up :: "('a, 'k) start_env \<Rightarrow> options \<Rightarrow> ('a, 'k) start_end" where
  "start_up env opts =
     (if help_opt opts then Exit_Success
      else if monero_log_level opts < 1 \<or> monero_log_level opts > 4 then Exit_Success
      else if verbose opts > 4 then Exit_Success
      else if testnet opts \<and> stagenet opts then Exit_Failure
      else
        case blockchain_setup_of (setup_env.truncate env) (network_of opts) (do_not_relay opts) (config_file opts) of
          Inl _ \<Rightarrow> Terminated
        | Inr cfg \<Rightarrow>
            (case cast_port env (port opts) of
               None \<Rightarrow> Terminated
             | Some app_port \<Rightarrow>
                 (case database_details (config_json cfg) of
                    Inl _ \<Rightarrow> Terminated
                  | Inr db_details \<Rightarrow>
                      let n = threads_no (cores env) (blockchain_treadpool_size cfg)
                      in if \<not> chain_opens env (blockchain_path cfg) then Exit_Failure
                         else if \<not> database_ok env db_details then Terminated
                         else (case ssl_details env (config_json cfg) of
                                 Inl _ \<Rightarrow> Terminated
                               | Inr ssl \<Rightarrow> Serving cfg app_port db_details n ssl))))"

section \<open>Lemmas\<close>

lemma andthen_Inr: "andthen r f = Inr y \<longleftrightarrow> (\<exists>x. r = Inr x \<and> f x = Inr y)"
  by (cases r) simp_all

lemma andthen_cong: "r = r' \<Longrightarrow> (\<And>x. r' = Inr x \<Longrightarrow> f x = g x) \<Longrightarrow> andthen r f = andthen r' g"
  by (cases r') simp_all

lemma map_sum_andthen: "map_sum id g (andthen r f) = andthen r (\<lambda>x. map_sum id g (f x))"
  by (cases r) simp_all

text \<open>The four fields by the name of the network.\<close>

lemma network_fields_by_name:
  "network_fields j net =
     andthen (string_at [''blockchain-path'', get_network_name net] j) (\<lambda>path.
     andthen (string_at [''daemon-url'', get_network_name net] j) (\<lambda>url.
     andthen (string_at [''wallet_import'', get_network_name net, ''address''] j) (\<lambda>addr.
     andthen (string_at [''wallet_import'', get_network_name net, ''viewkey''] j) (\<lambda>key. Inr (path, url, addr, key)))))"
  by (cases net) (simp_all add: network_fields_def get_network_name_def)

text \<open>What is read of the configuration before the program serves, for one network.\<close>

definition setup_paths :: "network_type \<Rightarrow> string list list" where
  "setup_paths net = [[''refresh_block_status_every_seconds''], [''blocks_search_lookahead''], [''max_number_of_blocks_to_import''],
     [''search_thread_life_in_seconds''], [''wallet_import'', ''fee''], [''mysql_ping_every_seconds''], [''blockchain_treadpool_size''],
     [''blockchain-path'', get_network_name net], [''daemon-url'', get_network_name net],
     [''wallet_import'', get_network_name net, ''address''], [''wallet_import'', get_network_name net, ''viewkey'']]"

lemma number_at_cong: "path_of ks j = path_of ks j' \<Longrightarrow> number_at ks j = number_at ks j'"
  by (simp add: number_at_def)

lemma string_at_cong: "path_of ks j = path_of ks j' \<Longrightarrow> string_at ks j = string_at ks j'"
  by (simp add: string_at_def)

lemma threads_no_bounds:
  "threads_no hc configured \<le> 100 \<and> (threads_no hc configured = 0 \<longleftrightarrow> configured \<noteq> 0 \<and> unat configured mod 2 ^ 32 = 0)"
proof -
  have "ucast configured = (0 :: u32) \<longleftrightarrow> unat configured mod 2 ^ 32 = 0"
    by (simp add: word_unat_eq_iff unsigned_ucast_eq take_bit_eq_mod)
  moreover have "max (hc div 2) 2 - 1 \<noteq> 0" for hc :: u32
  proof
    assume "max (hc div 2) 2 - 1 = 0"
    then have "max (hc div 2) 2 = 1" by simp
    then show False by (simp add: max_def split: if_splits)
  qed
  ultimately show ?thesis by (auto simp: threads_no_def Let_def word_gt_0 not_less)
qed

section \<open>Properties\<close>

text \<open>The set-up for a network depends only on the settings that all networks share and on the four fields under the name of that network: two
  configurations that agree on these give the same set-up, or are refused in the same way, whatever they hold for the other networks.\<close>

theorem setup_reads_one_network:
  assumes "\<forall>ks\<in>set (setup_paths net). path_of ks j = path_of ks j'"
  shows "map_sum id (\<lambda>cfg. cfg\<lparr>config_json := j'\<rparr>) (init_setup env j net no_relay) = init_setup env j' net no_relay"
proof -
  have n: "number_at ks j = number_at ks j'" "string_at ks j = string_at ks j'" if "ks \<in> set (setup_paths net)" for ks
    using assms that number_at_cong string_at_cong by blast+
  have "network_fields j net = network_fields j' net"
    unfolding network_fields_by_name by (simp add: n setup_paths_def)
  then have "get_blockchain_path env j net = get_blockchain_path env j' net" by (simp add: get_blockchain_path_def)
  then show ?thesis
    unfolding init_setup_def by (simp add: n setup_paths_def map_sum_andthen case_prod_unfold)
qed

text \<open>The configuration file of the repository, with a parser that takes all addresses and keys; its settings for the main network decide.\<close>

definition shipped_config :: json where
  "shipped_config = Obj
    [(''daemon-url'', Obj [(''mainnet'', Str ''http://127.0.0.1:18081''), (''testnet'', Str ''http://127.0.0.1:28081''),
       (''stagenet'', Str ''http://127.0.0.1:38081'')]),
     (''blockchain-path'', Obj [(''mainnet'', Str []), (''testnet'', Str []), (''stagenet'', Str [])]),
     (''database'', Obj [(''url'', Str ''127.0.0.1''), (''port'', Number 3306), (''dbname'', Str ''bittube''), (''user'', Str ''root''),
       (''password'', Str ''root'')]),
     (''wallet_import'', Obj [(''fee'', Number 0),
       (''testnet'', Obj [(''address'', Str ''9tzmPMTViHYM3z6NAgQni1Qm1Emzxy5hQFibPgWD3LVTAz91yok5Eni1pH6zKhBHzpTU15GZooPHSGHXFvFuXEdmEG2sWAZ''),
         (''viewkey'', Str ''ae6184287ca791609844f140b8502ccfa2223c04c8699cf31fcd0af1f1d0be08'')]),
       (''mainnet'', Obj [(''address'', Str ''44AFFq5kSiGBoZ4NMDwYtN18obc8AemS33DBLWs3H7otXft3XjrpDtQGv7SqSsaBYBb98uNbr2VBBEt7f2wfn3RVGQBEP3A''),
         (''viewkey'', Str ''f359631075708155cc3d92a32b75a7d02a5dcf27756707b47a2b31b21c389501'')]),
       (''stagenet'', Obj [(''address'', Str ''53mqDDKtVkib8inMa41HuNJG4tj9CcaNKGr6EVSbvhWGJdpDQCiNNYBUNF1oDb8BczU5aD68d3HNKXaEsPq8cvbQE2FBkTS''),
         (''viewkey'', Str ''53c5850e895122574c53a4f952c726be3fe22bcd2b08f4bfed8946d887cc950b'')])]),
     (''refresh_block_status_every_seconds'', Number 10), (''blocks_search_lookahead'', Number 200),
     (''search_thread_life_in_seconds'', Number 120), (''max_number_of_blocks_to_import'', Number 132000),
     (''mysql_ping_every_seconds'', Number 200), (''blockchain_treadpool_size'', Number 1),
     (''ssl'', Obj [(''enable'', Bool False), (''ssl-key'', Str ''file:///tmp/server.key''), (''ssl-crt'', Str ''file:///tmp/server.crt''),
       (''dh-pem'', Str ''file:///tmp/dh2048.pem'')])]"

definition sample_start :: "(string, string) start_env" where
  "sample_start = \<lparr>read_file = Some, parse_config = (\<lambda>_. Some shipped_config), default_path = (\<lambda>p net. Some ''/chain''),
     parse_str_address = (\<lambda>a net. Some a), parse_str_secret_key = Some, cast_port = (\<lambda>p. if p = ''1984'' then Some 1984 else None),
     cores = 8, chain_opens = (\<lambda>_. True), database_ok = (\<lambda>_. True), uri_ok = (\<lambda>_. True)\<rparr>"

theorem setup_reads_one_network_witness:
  "init_setup (setup_env.truncate sample_start) (jset ''blockchain-path'' (Obj [(''mainnet'', Str [])]) shipped_config) MAINNET False
     = map_sum id (\<lambda>cfg. cfg\<lparr>config_json := jset ''blockchain-path'' (Obj [(''mainnet'', Str [])]) shipped_config\<rparr>)
         (init_setup (setup_env.truncate sample_start) shipped_config MAINNET False)"
  by (rule setup_reads_one_network [symmetric]) (simp add: setup_paths_def get_network_name_def shipped_config_def)



end
