(* ===== verification/NodeAccess.thy ===== *)
theory NodeAccess
  imports TxRequests
begin

text \<open>
  The access to the node: the calls of \<open>CurrentBlockchainStatus\<close> (\<open>src/src/CurrentBlockchainStatus.cpp\<close>) that ask the core for blocks,
  transactions and outputs, and the RPC client (\<open>src/src/RPCCalls.cpp\<close>). Each of them waits for a task on the thread pool, which is one
  step here. The core, the HTTP client and the printing of keys are arguments.
\<close>

section \<open>The RPC client\<close>

text \<open>The answer of the daemon to a call, with a status, a reason and a height.\<close>

record rpc_answer =
  status :: string
  reason :: string
  height :: u64

text \<open>
  \<open>send_raw\<close> and \<open>ask_height\<close> invoke the daemon; without an answer (\<open>None\<close>) the call failed and the fields of the answer stay empty.
  The two texts are the constants of the core for a busy daemon and for success.
\<close>

record rpc_env =
  send_raw :: "string \<Rightarrow> bool \<Rightarrow> rpc_answer option"
  ask_height :: "rpc_answer option"
  status_busy :: string
  status_ok :: string

definition check_if_response_is_ok :: "rpc_env \<Rightarrow> rpc_answer \<Rightarrow> string \<Rightarrow> bool \<times> string" where
  "check_if_response_is_ok env res error_msg =
     (if status res = status_busy env then (False, ''Deamon is BUSY. Cant sent now. '')
      else if status res \<noteq> status_ok env then (False, ''RPC failed. '')
      else (True, error_msg))"

text \<open>The result with the message, to which the reason is appended.\<close>

definition commit_tx :: "rpc_env \<Rightarrow> string \<Rightarrow> string \<Rightarrow> bool \<Rightarrow> bool \<times> string" where
  "commit_tx env tx_blob error_msg do_not_relay =
     (let r = send_raw env tx_blob do_not_relay;
          res = (case r of Some res \<Rightarrow> res | None \<Rightarrow> \<lparr>status = [], reason = [], height = 0\<rparr>);
          (ok, error_msg) = (if r = None then (False, error_msg) else check_if_response_is_ok env res error_msg)
      in if \<not> ok
         then (False, error_msg @ (if reason res = [] then ''Reason not given by daemon.'' else reason res))
         else (True, error_msg))"

definition get_current_height :: "rpc_env \<Rightarrow> u64 option" where
  "get_current_height env =
     (case ask_height env of
        None \<Rightarrow> None
      | Some res \<Rightarrow> if fst (check_if_response_is_ok env res []) then Some (height res) else None)"

section \<open>The core\<close>

text \<open>
  \<open>None\<close> is a failure or an exception of the core. \<open>many_txs\<close> answers the transactions it has and the hashes it misses, \<open>outs_answer\<close> the
  outputs for pairs of amount and index; an output is a key with a commitment, or an error where there is none.
\<close>

record ('b, 'tx) core_env =
  block_from_height :: "u64 \<Rightarrow> 'b option"
  blocks_between :: "u64 \<Rightarrow> u64 \<Rightarrow> 'b list option"
  many_txs :: "string list \<Rightarrow> ('tx list \<times> string list) option"
  miner_tx_in :: "'b \<Rightarrow> 'tx"
  hashes_in :: "'b \<Rightarrow> string list"
  have_tx :: "string \<Rightarrow> bool"
  index_of_tx :: "string \<Rightarrow> u64 option"
  tx_and_index :: "u64 \<Rightarrow> u64 \<Rightarrow> (string \<times> u64) option"
  one_tx :: "string \<Rightarrow> 'tx option"
  output_indices :: "u64 \<Rightarrow> u64 list option"
  key_and_commitment :: "u64 \<Rightarrow> u64 \<Rightarrow> (pod \<times> pod) option"
  keys_at :: "u64 \<Rightarrow> u64 list \<Rightarrow> (pod \<times> pod) list option"
  outs_answer :: "(u64 \<times> u64) list \<Rightarrow> (pod \<times> pod) list option"
  height_of_tx :: "string \<Rightarrow> u64"
  parse_hash :: "string \<Rightarrow> string option"
  body_of :: "'tx \<Rightarrow> transaction"
  coinbase :: "'tx \<Rightarrow> bool"
  pod_to_hex :: "pod \<Rightarrow> string"
  parse_id8 :: "string \<Rightarrow> pod option"
  integrated_of :: "pod \<Rightarrow> string"

definition get_block :: "('b, 'tx) core_env \<Rightarrow> u64 \<Rightarrow> 'b option" where
  "get_block core h = block_from_height core h"

definition get_blocks_range :: "('b, 'tx) core_env \<Rightarrow> u64 \<Rightarrow> u64 \<Rightarrow> 'b list" where
  "get_blocks_range core h1 h2 = (case blocks_between core h1 h2 of Some blks \<Rightarrow> blks | None \<Rightarrow> [])"

text \<open>What the two vectors hold when the function succeeds; they are appended to.\<close>

definition get_txs :: "('b, 'tx) core_env \<Rightarrow> string list \<Rightarrow> 'tx list \<Rightarrow> string list \<Rightarrow> ('tx list \<times> string list) option" where
  "get_txs core hashes txs missed = map_option (\<lambda>(found, missing). (txs @ found, missed @ missing)) (many_txs core hashes)"

definition get_block_txs :: "('b, 'tx) core_env \<Rightarrow> 'b \<Rightarrow> 'tx list \<Rightarrow> string list \<Rightarrow> ('tx list \<times> string list) option" where
  "get_block_txs core blk blk_txs missed = get_txs core (hashes_in core blk) (blk_txs @ [miner_tx_in core blk]) missed"

definition tx_exist :: "('b, 'tx) core_env \<Rightarrow> string \<Rightarrow> bool" where
  "tx_exist core h = have_tx core h"

definition tx_exist_str :: "('b, 'tx) core_env \<Rightarrow> string \<Rightarrow> u64 option" where
  "tx_exist_str core hash_str = (case parse_hash core hash_str of Some h \<Rightarrow> index_of_tx core h | None \<Rightarrow> None)"

definition find_tx :: "('b, 'tx) core_env \<Rightarrow> string \<Rightarrow> 'tx option" where
  "find_tx core h = one_tx core h"

definition find_tx_str :: "('b, 'tx) core_env \<Rightarrow> string \<Rightarrow> 'tx option" where
  "find_tx_str core hash_str = (case parse_hash core hash_str of Some h \<Rightarrow> find_tx core h | None \<Rightarrow> None)"

definition get_tx_block_height :: "('b, 'tx) core_env \<Rightarrow> string \<Rightarrow> u64 option" where
  "get_tx_block_height core h = (if \<not> tx_exist core h then None else Some (height_of_tx core h))"

text \<open>The transaction of an output and the place of the output in it.\<close>

definition get_tx_with_output :: "('b, 'tx) core_env \<Rightarrow> u64 \<Rightarrow> u64 \<Rightarrow> ('tx \<times> u64) option" where
  "get_tx_with_output core output_idx amount =
     (case tx_and_index core amount output_idx of
        None \<Rightarrow> None
      | Some (h, i) \<Rightarrow> (case find_tx core h of None \<Rightarrow> None | Some tx \<Rightarrow> Some (tx, i)))"

definition get_output_keys :: "('b, 'tx) core_env \<Rightarrow> u64 \<Rightarrow> u64 list \<Rightarrow> (pod \<times> pod) list option" where
  "get_output_keys core amount absolute_offsets = keys_at core amount absolute_offsets"

definition get_amount_specific_indices :: "('b, 'tx) core_env \<Rightarrow> string \<Rightarrow> u64 list option" where
  "get_amount_specific_indices core h = (case index_of_tx core h of Some i \<Rightarrow> output_indices core i | None \<Rightarrow> None)"

text \<open>The answer of the core has one entry for the one request; the outer \<open>None\<close> is \<open>at\<close> on an empty answer.\<close>

definition get_output :: "('b, 'tx) core_env \<Rightarrow> u64 \<Rightarrow> u64 \<Rightarrow> (pod \<times> pod) option option" where
  "get_output core amount global_output_index =
     (case outs_answer core [(amount, global_output_index)] of
        None \<Rightarrow> Some None
      | Some outs \<Rightarrow> if outs = [] then None else Some (Some (hd outs)))"

definition get_account_integrated_address_as_str :: "('b, 'tx) core_env \<Rightarrow> string \<Rightarrow> string" where
  "get_account_integrated_address_as_str core payment_id8_str =
     (case parse_id8 core payment_id8_str of None \<Rightarrow> [] | Some payment_id8 \<Rightarrow> integrated_of core payment_id8)"

section \<open>The ring data of an output\<close>

text \<open>
  The commitment, the mask and the encrypted amount in hex. \<open>None\<close> is an access behind the end of one of the vectors of the
  transaction, which the code does not test, or an exception of the core.
\<close>

definition construct_output_rct_field :: "('b, 'tx) core_env \<Rightarrow> u64 \<Rightarrow> u64 \<Rightarrow> (string \<times> string \<times> string) option" where
  "construct_output_rct_field core idx amount =
     (case get_tx_with_output core idx amount of
        None \<Rightarrow> Some ([], [], [])
      | Some (tx, i) \<Rightarrow>
          let body = body_of core tx; rv = t_rct body
          in if t_version body > 1 \<and> \<not> coinbase core tx
             then if unat i < length (rv_out_pk rv) \<and> unat i < length (rv_ecdh_info rv)
                  then Some (pod_to_hex core (snd (rv_out_pk rv ! unat i)), pod_to_hex core (fst (rv_ecdh_info rv ! unat i)),
                         pod_to_hex core (snd (rv_ecdh_info rv ! unat i)))
                  else None
             else (case key_and_commitment core amount idx of
                     None \<Rightarrow> None
                   | Some (key, commitment) \<Rightarrow> Some (pod_to_hex core commitment, replicate 64 CHR ''0'', replicate 64 CHR ''0'')))"

section \<open>The handlers on a node\<close>

text \<open>What the handlers ask is answered by the core and the RPC client; \<open>no_relay\<close> is the setting of the program.\<close>

definition on_node :: "('b, 'tx) core_env \<Rightarrow> rpc_env \<Rightarrow> bool \<Rightarrow> ('tx, 'e) tx_env_scheme \<Rightarrow> bool" where
  "on_node core rpc no_relay env \<longleftrightarrow>
     read_hash env = parse_hash core \<and> chain_tx env = find_tx core \<and> height_of_hash env = get_tx_block_height core
     \<and> tx_body env = body_of core \<and> is_coinbase_tx env = coinbase core
     \<and> commit env = (\<lambda>blob. case commit_tx rpc blob [] no_relay of (True, _) \<Rightarrow> None | (False, msg) \<Rightarrow> Some msg)
     \<and> (\<forall>i a x y z. construct_output_rct_field core i a = Some (x, y, z) \<longrightarrow> rct_field env i a = x @ y @ z)"

section \<open>Lemmas\<close>

lemma commit_tx_ok:
  "fst (commit_tx rpc blob msg no_relay) \<longleftrightarrow>
     (\<exists>res. send_raw rpc blob no_relay = Some res \<and> status res = status_ok rpc \<and> status res \<noteq> status_busy rpc)"
  by (auto simp: commit_tx_def check_if_response_is_ok_def Let_def split: option.splits)

text \<open>What the client is told when the daemon does not take the transaction.\<close>

definition refusal :: "rpc_env \<Rightarrow> string \<Rightarrow> bool \<Rightarrow> string" where
  "refusal rpc blob no_relay =
     (case send_raw rpc blob no_relay of
        None \<Rightarrow> ''Reason not given by daemon.''
      | Some res \<Rightarrow> (if status res = status_busy rpc then ''Deamon is BUSY. Cant sent now. '' else ''RPC failed. '')
          @ (if reason res = [] then ''Reason not given by daemon.'' else reason res))"

lemma commit_tx_refusal: "\<not> fst (commit_tx rpc blob [] no_relay) \<Longrightarrow> snd (commit_tx rpc blob [] no_relay) = refusal rpc blob no_relay"
  by (auto simp: commit_tx_def check_if_response_is_ok_def refusal_def Let_def split: option.splits if_splits)

lemma commit_on_node:
  "on_node core rpc no_relay env \<Longrightarrow>
     commit env blob = (if fst (commit_tx rpc blob [] no_relay) then None else Some (refusal rpc blob no_relay))"
  using commit_tx_refusal [of rpc blob no_relay] by (auto simp: on_node_def split: prod.splits bool.splits)

text \<open>A submission that reached the node.\<close>

lemma submitted:
  "submit_raw_tx env body = Some (r, Some hex) \<Longrightarrow>
     (case commit env hex of None \<Rightarrow> code r = OK | Some msg \<Rightarrow> r = session_close UNPROCESSABLE_ENTITY msg Null)"
  by (auto simp: submit_raw_tx_def session_close_def split: option.splits if_splits)

text \<open>A ring signature with an entry of the right size for every output.\<close>

definition ring_complete :: "transaction \<Rightarrow> bool" where
  "ring_complete body \<longleftrightarrow> length (rv_out_pk (t_rct body)) = length (t_vout body) \<and> length (rv_ecdh_info (t_rct body)) = length (t_vout body)
     \<and> (\<forall>p\<in>set (rv_out_pk (t_rct body)). length (snd p) = 32)
     \<and> (\<forall>p\<in>set (rv_ecdh_info (t_rct body)). length (fst p) = 32 \<and> length (snd p) = 32)"

section \<open>Properties\<close>

text \<open>C23: what becomes of a transaction that the client hands in is what the daemon says: the reply is a success exactly when the daemon answers with its
  success status, and every other reply holds the kind of failure and the reason of the daemon, or says that it gave none.\<close>

theorem submission_reports_daemon:
  assumes "on_node core rpc no_relay env" and "submit_raw_tx env body = Some (r, Some hex)"
  shows "(code r = OK \<longleftrightarrow> (\<exists>res. send_raw rpc hex no_relay = Some res \<and> status res = status_ok rpc \<and> status res \<noteq> status_busy rpc))
    \<and> (code r \<noteq> OK \<longrightarrow> response r = Obj [(''Error'', Str (refusal rpc hex no_relay))])"
proof -
  note answer = submitted [OF assms(2), unfolded commit_on_node [OF assms(1)]]
  have "(code r = OK \<longleftrightarrow> fst (commit_tx rpc hex [] no_relay)) \<and> (code r \<noteq> OK \<longrightarrow> response r = Obj [(''Error'', Str (refusal rpc hex no_relay))])"
    using answer by (cases "fst (commit_tx rpc hex [] no_relay)") (simp_all add: session_close_def)
  then show ?thesis unfolding commit_tx_ok .
qed

definition sample_rpc :: rpc_env where
  "sample_rpc = \<lparr>send_raw = (\<lambda>blob _. Some \<lparr>status = ''BUSY'', reason = [], height = 0\<rparr>), ask_height = None, status_busy = ''BUSY'', status_ok = ''OK''\<rparr>"

text \<open>A core with two transactions, of which the first has a ring signature.\<close>

definition sample_core :: "(nat, byte) core_env" where
  "sample_core = \<lparr>block_from_height = (\<lambda>_. None), blocks_between = (\<lambda>_ _. None), many_txs = (\<lambda>_. None), miner_tx_in = (\<lambda>_. 0), hashes_in = (\<lambda>_. []),
     have_tx = (\<lambda>_. True), index_of_tx = (\<lambda>_. None), tx_and_index = (\<lambda>a i. if i < 2 then Some (if i = 0 then ''h'' else ''g'', 0) else None),
     one_tx = (\<lambda>h. Some (if h = ''h'' then 7 else 8)), output_indices = (\<lambda>_. None),
     key_and_commitment = (\<lambda>a i. Some (replicate 32 1, replicate 32 2)), keys_at = (\<lambda>_ _. None), outs_answer = (\<lambda>_. None),
     height_of_tx = (\<lambda>_. 90), parse_hash = Some,
     body_of = (\<lambda>t. (spending_tx t)\<lparr>t_vout := [\<lparr>vo_amount = 0, vo_target = Txout_To_Key (replicate 32 9)\<rparr>],
       t_rct := (t_rct mixed_tx)\<lparr>rv_out_pk := [(replicate 32 0, replicate 32 5)], rv_ecdh_info := [(replicate 32 6, replicate 32 7)]\<rparr>\<rparr>),
     coinbase = (\<lambda>t. t = 8), pod_to_hex = (\<lambda>p. concat (replicate (length p) ''ab'')), parse_id8 = (\<lambda>_. None), integrated_of = (\<lambda>_. [])\<rparr>"

definition node_env :: "byte tx_env" where
  "node_env = sample_tx_env\<lparr>read_hash := parse_hash sample_core, chain_tx := find_tx sample_core, height_of_hash := get_tx_block_height sample_core,
     tx_body := body_of sample_core, is_coinbase_tx := coinbase sample_core,
     commit := (\<lambda>blob. case commit_tx sample_rpc blob [] False of (True, _) \<Rightarrow> None | (False, msg) \<Rightarrow> Some msg),
     rct_field := (\<lambda>i a. case construct_output_rct_field sample_core i a of Some (x, y, z) \<Rightarrow> x @ y @ z | None \<Rightarrow> [])\<rparr>"

lemma node_env_on_node: "on_node sample_core sample_rpc False node_env"
  by (simp add: on_node_def node_env_def)

theorem submission_reports_daemon_witness:
  "\<exists>r. submit_raw_tx node_env ''abcd'' = Some (r, Some ''abcd'')
     \<and> response r = Obj [(''Error'', Str ''Deamon is BUSY. Cant sent now. Reason not given by daemon.'')]"
proof -
  have "Option.bind (parse_json node_env ''abcd'') (get_string ''tx'') = Some ''abcd''" "blob_of_hex node_env ''abcd'' = Some ''abcd''"
      "tx_of_blob node_env ''abcd'' = Some 4" "\<not> conflicts node_env 4"
    by (simp_all add: node_env_def sample_tx_env_def conflicts_def key_image_bytes_def get_key_images_def spending_tx_def sample_core_def)
  then have "\<exists>r. submit_raw_tx node_env ''abcd'' = Some (r, Some ''abcd'')"
    by (cases "commit node_env ''abcd''") (simp_all add: submit_raw_tx_def images_in_pool_conflicts)
  then obtain r where r: "submit_raw_tx node_env ''abcd'' = Some (r, Some ''abcd'')" by blast
  have "status_ok sample_rpc \<noteq> ''BUSY''" "send_raw sample_rpc ''abcd'' False = Some \<lparr>status = ''BUSY'', reason = [], height = 0\<rparr>"
      "refusal sample_rpc ''abcd'' False = ''Deamon is BUSY. Cant sent now. Reason not given by daemon.''"
    by (simp_all add: sample_rpc_def refusal_def)
  then show ?thesis using submission_reports_daemon [OF node_env_on_node r] r by fastforce
qed



end
