(* ===== verification/HashTable.thy ===== *)
theory HashTable
  imports Prelude "HOL-Library.Multiset"
begin

text \<open>
  The hash table of OpenSSL (\<open>crypto/lhash/lhash.c\<close>), which grows and shrinks by one bucket at a time: its invariant, that it is a map
  from keys to data, its load, and what a failed reallocation does to it. The data are the pointers that the callers hand in; the hash
  function and the comparison are fields, as in the code. The sizes are \<open>unsigned int\<close> in the code and natural numbers here: the array of buckets
  is bounded by the memory. The counters for the statistics of \<open>lh_stats\<close> are left out.
\<close>

section \<open>The table\<close>

record 'd hash_node =
  node_data :: 'd
  node_hash :: u64

record 'd lhash =
  buckets :: "'d hash_node list list"
  lh_comp :: "'d \<Rightarrow> 'd \<Rightarrow> int"
  lh_hash :: "'d \<Rightarrow> u64"
  num_nodes :: nat
  num_alloc_nodes :: nat
  split_at_p :: nat
  pmax :: nat
  up_load :: nat
  down_load :: nat
  num_items :: nat
  lh_error :: nat

definition MIN_NODES :: nat where "MIN_NODES = 16"
definition LH_LOAD_MULT :: nat where "LH_LOAD_MULT = 256"

text \<open>The flags say whether there is memory for the table and for its buckets.\<close>

definition lh_new :: "bool \<Rightarrow> bool \<Rightarrow> ('d \<Rightarrow> u64) \<Rightarrow> ('d \<Rightarrow> 'd \<Rightarrow> int) \<Rightarrow> 'd lhash option" where
  "lh_new table_mem buckets_mem h c = (if \<not> table_mem \<or> \<not> buckets_mem then None else Some \<lparr>buckets = replicate MIN_NODES [], lh_comp = c, lh_hash = h, num_nodes = MIN_NODES div 2, num_alloc_nodes = MIN_NODES,
     split_at_p = 0, pmax = MIN_NODES div 2, up_load = 2 * LH_LOAD_MULT, down_load = LH_LOAD_MULT, num_items = 0, lh_error = 0\<rparr>)"

section \<open>Growing and shrinking\<close>

text \<open>The loop over the chain of the bucket that is split: what stays, and what is put in front of the new chain.\<close>

fun split_chain :: "nat \<Rightarrow> nat \<Rightarrow> 'd hash_node list \<Rightarrow> 'd hash_node list \<Rightarrow> 'd hash_node list \<times> 'd hash_node list" where
  "split_chain nni p [] n2 = ([], n2)"
| "split_chain nni p (np # n1) n2 =
     (if unat (node_hash np) mod nni \<noteq> p then split_chain nni p n1 (np # n2)
      else let (n1, n2) = split_chain nni p n1 n2 in (np # n1, n2))"

text \<open>\<open>realloc_ok\<close> is whether the memory for twice the buckets can be had.\<close>

definition expand :: "bool \<Rightarrow> 'd lhash \<Rightarrow> 'd lhash" where
  "expand realloc_ok lh =
     (let p = split_at_p lh;
          (n1, n2) = split_chain (num_alloc_nodes lh) p (buckets lh ! p) [];
          lh = lh\<lparr>num_nodes := num_nodes lh + 1, split_at_p := p + 1, buckets := (buckets lh)[p := n1, p + pmax lh := n2]\<rparr>
      in if split_at_p lh \<ge> pmax lh
         then if \<not> realloc_ok then lh\<lparr>lh_error := lh_error lh + 1, split_at_p := 0\<rparr>
              else lh\<lparr>buckets := buckets lh @ replicate (num_alloc_nodes lh) [], pmax := num_alloc_nodes lh,
                     num_alloc_nodes := num_alloc_nodes lh * 2, split_at_p := 0\<rparr>
         else lh)"

text \<open>The last bucket is emptied before the memory is asked for; its chain goes behind the chain it was split from.\<close>

definition contract :: "bool \<Rightarrow> 'd lhash \<Rightarrow> 'd lhash" where
  "contract realloc_ok lh =
     (let l = split_at_p lh + pmax lh - 1;
          np = buckets lh ! l;
          lh = lh\<lparr>buckets := (buckets lh)[l := []]\<rparr>
      in if split_at_p lh = 0 \<and> \<not> realloc_ok then lh\<lparr>lh_error := lh_error lh + 1\<rparr>
         else
           let lh = (if split_at_p lh = 0
                 then lh\<lparr>num_alloc_nodes := num_alloc_nodes lh div 2, pmax := pmax lh div 2, split_at_p := pmax lh div 2 - 1,
                        buckets := take (pmax lh) (buckets lh)\<rparr>
                 else lh\<lparr>split_at_p := split_at_p lh - 1\<rparr>);
               p = split_at_p lh
           in lh\<lparr>num_nodes := num_nodes lh - 1, buckets := (buckets lh)[p := buckets lh ! p @ np]\<rparr>)"

section \<open>Access\<close>

text \<open>The place of a node in its chain, which is the length of the chain when there is none.\<close>

fun chain_pos :: "('d \<Rightarrow> 'd \<Rightarrow> int) \<Rightarrow> 'd \<Rightarrow> u64 \<Rightarrow> 'd hash_node list \<Rightarrow> nat" where
  "chain_pos cf d h [] = 0"
| "chain_pos cf d h (n1 # ns) =
     (if node_hash n1 \<noteq> h then Suc (chain_pos cf d h ns)
      else if cf (node_data n1) d = 0 then 0
      else Suc (chain_pos cf d h ns))"

definition bucket_of :: "'d lhash \<Rightarrow> u64 \<Rightarrow> nat" where
  "bucket_of lh h =
     (let nn = unat h mod pmax lh
      in if nn < split_at_p lh then unat h mod num_alloc_nodes lh else nn)"

definition getrn :: "'d lhash \<Rightarrow> 'd \<Rightarrow> nat \<times> nat \<times> u64" where
  "getrn lh d =
     (let h = lh_hash lh d; nn = bucket_of lh h
      in (nn, chain_pos (lh_comp lh) d h (buckets lh ! nn), h))"

text \<open>\<open>malloc_ok\<close> is whether the memory for a node can be had.\<close>

definition lh_insert :: "bool \<Rightarrow> bool \<Rightarrow> 'd lhash \<Rightarrow> 'd \<Rightarrow> 'd option \<times> 'd lhash" where
  "lh_insert realloc_ok malloc_ok lh d =
     (let lh = lh\<lparr>lh_error := 0\<rparr>;
          lh = (if up_load lh \<le> num_items lh * LH_LOAD_MULT div num_nodes lh then expand realloc_ok lh else lh);
          (nn, j, h) = getrn lh d;
          chain = buckets lh ! nn
      in if j = length chain
         then if \<not> malloc_ok then (None, lh\<lparr>lh_error := lh_error lh + 1\<rparr>)
              else (None, lh\<lparr>buckets := (buckets lh)[nn := chain @ [\<lparr>node_data = d, node_hash = h\<rparr>]], num_items := num_items lh + 1\<rparr>)
         else (Some (node_data (chain ! j)), lh\<lparr>buckets := (buckets lh)[nn := chain[j := (chain ! j)\<lparr>node_data := d\<rparr>]]\<rparr>))"

definition lh_delete :: "bool \<Rightarrow> 'd lhash \<Rightarrow> 'd \<Rightarrow> 'd option \<times> 'd lhash" where
  "lh_delete realloc_ok lh d =
     (let lh = lh\<lparr>lh_error := 0\<rparr>;
          (nn, j, h) = getrn lh d;
          chain = buckets lh ! nn
      in if j = length chain then (None, lh)
         else
           let lh = lh\<lparr>buckets := (buckets lh)[nn := take j chain @ drop (Suc j) chain], num_items := num_items lh - 1\<rparr>
           in (Some (node_data (chain ! j)),
               if num_nodes lh > MIN_NODES \<and> down_load lh \<ge> num_items lh * LH_LOAD_MULT div num_nodes lh
               then contract realloc_ok lh else lh))"

definition lh_retrieve :: "'d lhash \<Rightarrow> 'd \<Rightarrow> 'd option \<times> 'd lhash" where
  "lh_retrieve lh d =
     (let lh = lh\<lparr>lh_error := 0\<rparr>;
          (nn, j, h) = getrn lh d;
          chain = buckets lh ! nn
      in if j = length chain then (None, lh) else (Some (node_data (chain ! j)), lh))"

text \<open>The data in the order in which \<open>lh_doall\<close> and \<open>lh_doall_arg\<close> visit them, with a function that does not change the table.\<close>

definition lh_visited :: "'d lhash \<Rightarrow> 'd list" where
  "lh_visited lh = concat (map (map node_data) (rev (take (num_nodes lh) (buckets lh))))"

definition lh_doall :: "('d \<Rightarrow> 's \<Rightarrow> 's) \<Rightarrow> 'd lhash \<Rightarrow> 's \<Rightarrow> 's" where
  "lh_doall func lh s = fold func (lh_visited lh) s"

definition lh_num_items :: "'d lhash option \<Rightarrow> nat" where
  "lh_num_items lh = (case lh of Some lh \<Rightarrow> num_items lh | None \<Rightarrow> 0)"

section \<open>Strings\<close>

text \<open>
  The functions that \<open>lh_new\<close> takes when none are given. A string ends at its first null character, or at the end of the list;
  \<open>char\<close> is signed, so that a character above 127 sets the upper bits.
\<close>

fun strhash_loop :: "string \<Rightarrow> u64 \<Rightarrow> u64 \<Rightarrow> u64" where
  "strhash_loop [] n ret = ret"
| "strhash_loop (c # cs) n ret =
     (if c = CHR 0x00 then ret
      else
        let v = n OR scast (of_char c :: byte);
            n = n + 0x100;
            r = unat ((drop_bit 2 v XOR v) AND 0x0f);
            ret = push_bit r ret OR drop_bit (32 - r) ret;
            ret = ret AND 0xFFFFFFFF;
            ret = ret XOR v * v
        in strhash_loop cs n ret)"

definition lh_strhash :: "string option \<Rightarrow> u64" where
  "lh_strhash c =
     (case c of
        None \<Rightarrow> 0
      | Some c \<Rightarrow> if c = [] \<or> hd c = CHR 0x00 then 0 else let ret = strhash_loop c 0x100 0 in drop_bit 16 ret XOR ret)"

text \<open>\<open>strcmp\<close> of the C library: the difference of the first bytes that differ.\<close>

fun strcmp :: "string \<Rightarrow> string \<Rightarrow> int" where
  "strcmp [] [] = 0"
| "strcmp [] (b # bs) = - of_char b"
| "strcmp (a # as) [] = of_char a"
| "strcmp (a # as) (b # bs) = (if a \<noteq> b then of_char a - of_char b else if a = CHR 0x00 then 0 else strcmp as bs)"

section \<open>Sequences of calls\<close>

text \<open>An insertion says whether there is memory for a node; the second function is the map that the table stands for.\<close>

datatype 'd lh_op = Insert bool 'd | Delete 'd | Retrieve 'd

fun lh_call :: "'d lh_op \<Rightarrow> 'd lhash \<Rightarrow> 'd option \<times> 'd lhash" where
  "lh_call (Insert malloc_ok d) lh = lh_insert True malloc_ok lh d"
| "lh_call (Delete d) lh = lh_delete True lh d"
| "lh_call (Retrieve d) lh = lh_retrieve lh d"

fun map_call :: "('d \<Rightarrow> 'k) \<Rightarrow> 'd lh_op \<Rightarrow> ('k \<rightharpoonup> 'd) \<Rightarrow> 'd option \<times> ('k \<rightharpoonup> 'd)" where
  "map_call key (Insert malloc_ok d) m =
     (m (key d), if malloc_ok \<or> m (key d) \<noteq> None then m(key d \<mapsto> d) else m)"
| "map_call key (Delete d) m = (m (key d), m(key d := None))"
| "map_call key (Retrieve d) m = (m (key d), m)"

fun calls :: "('c \<Rightarrow> 's \<Rightarrow> 'r \<times> 's) \<Rightarrow> 'c list \<Rightarrow> 's \<Rightarrow> 'r list \<times> 's" where
  "calls call [] s = ([], s)"
| "calls call (c # cs) s = (let (r, s) = call c s; (rs, s) = calls call cs s in (r # rs, s))"

section \<open>A table is a map\<close>

text \<open>What the callers have to keep: the comparison decides the equality of keys, and equal keys have equal hashes.\<close>

locale keyed_table =
  fixes hash :: "'d \<Rightarrow> u64" and cmp :: "'d \<Rightarrow> 'd \<Rightarrow> int" and key :: "'d \<Rightarrow> 'k"
  assumes cmp_key: "cmp x y = 0 \<longleftrightarrow> key x = key y"
    and hash_key: "key x = key y \<Longrightarrow> hash x = hash y"
begin

text \<open>The bucket of a hash in a table with \<open>m\<close> full buckets of which \<open>q\<close> are split.\<close>

definition place :: "nat \<Rightarrow> nat \<Rightarrow> nat \<Rightarrow> nat" where
  "place m q h = (if h mod m < q then h mod (2 * m) else h mod m)"

definition placed :: "nat \<Rightarrow> nat \<Rightarrow> 'd hash_node list list \<Rightarrow> bool" where
  "placed m q bs \<longleftrightarrow> (\<forall>i<length bs. \<forall>n\<in>set (bs ! i). node_hash n = hash (node_data n) \<and> place m q (unat (hash (node_data n))) = i)"

definition keys_in :: "'d hash_node list list \<Rightarrow> 'k list" where
  "keys_in bs = map (\<lambda>n. key (node_data n)) (concat bs)"

definition table_ok :: "'d lhash \<Rightarrow> bool" where
  "table_ok lh \<longleftrightarrow> lh_hash lh = hash \<and> lh_comp lh = cmp \<and> up_load lh = 512 \<and> down_load lh = 256
     \<and> length (buckets lh) = 2 * pmax lh \<and> num_alloc_nodes lh = 2 * pmax lh \<and> split_at_p lh < pmax lh
     \<and> num_nodes lh = pmax lh + split_at_p lh \<and> (\<exists>k. pmax lh = 8 * 2 ^ k)
     \<and> placed (pmax lh) (split_at_p lh) (buckets lh) \<and> distinct (keys_in (buckets lh))
     \<and> num_items lh = length (concat (buckets lh)) \<and> num_items lh \<le> 2 * num_nodes lh"

definition contents :: "'d lhash \<Rightarrow> ('k \<rightharpoonup> 'd)" where
  "contents lh = map_of (map (\<lambda>n. (key (node_data n), node_data n)) (concat (buckets lh)))"

subsection \<open>Places\<close>

lemma mod_double: "0 < m \<Longrightarrow> h mod (2 * m) = h mod m \<or> h mod (2 * m) = h mod m + m" for h m :: nat
proof -
  assume "0 < m"
  have "h mod (m * 2) = m * (h div m mod 2) + h mod m" by (rule mod_mult2_eq)
  moreover have "h div m mod 2 = 0 \<or> h div m mod 2 = 1" by auto
  ultimately show ?thesis by (auto simp: mult.commute)
qed

lemma place_bound: "0 < m \<Longrightarrow> q \<le> m \<Longrightarrow> place m q h < m + q"
  using mod_double [of m h] mod_less_divisor [of m h] by (cases "h mod m < q") (auto simp: place_def simp del: mod_less_divisor)

lemma place_next: "q < m \<Longrightarrow> place m (Suc q) h = (if place m q h = q then h mod (2 * m) else place m q h)"
  using mod_double [of m h] mod_less_divisor [of m h] by (auto simp: place_def split: if_splits)

lemma place_back:
  assumes "q < m"
  shows "place m q h = (if place m (Suc q) h = q + m then q else place m (Suc q) h)"
proof -
  define r where "r = h mod m"
  have "r < m" "h mod (2 * m) = r \<or> h mod (2 * m) = r + m" using assms mod_double [of m h] by (simp_all add: r_def)
  then show ?thesis using assms unfolding place_def r_def [symmetric] by (auto split: if_splits)
qed

lemma place_full: "0 < m \<Longrightarrow> place m m h = place (2 * m) 0 h"
  by (simp add: place_def)

lemma placed_full: "0 < m \<Longrightarrow> placed m m bs \<longleftrightarrow> placed (2 * m) 0 bs"
  by (simp add: placed_def place_full)

lemma placed_update:
  assumes "placed m q bs" "\<And>n. n \<in> set c \<Longrightarrow> node_hash n = hash (node_data n) \<and> place m q (unat (hash (node_data n))) = i"
  shows "placed m q (bs[i := c])"
  unfolding placed_def
proof (intro allI impI ballI)
  fix j n assume "j < length (bs[i := c])" "n \<in> set (bs[i := c] ! j)"
  then show "node_hash n = hash (node_data n) \<and> place m q (unat (hash (node_data n))) = j"
    using assms by (cases "j = i") (auto simp: placed_def)
qed

lemma placed_append_empty: "placed m q bs \<Longrightarrow> placed m q (bs @ replicate k [])"
  by (auto simp: placed_def nth_append)

lemma placed_take: "placed m q bs \<Longrightarrow> placed m q (take k bs)"
  by (auto simp: placed_def)

lemma placed_empty:
  assumes "placed m q bs" "0 < m" "q \<le> m" "m + q \<le> i" "i < length bs"
  shows "bs ! i = []"
proof (rule ccontr)
  assume "bs ! i \<noteq> []"
  then have "hd (bs ! i) \<in> set (bs ! i)" by simp
  then have "place m q (unat (hash (node_data (hd (bs ! i))))) = i" using assms(1,5) by (auto simp: placed_def)
  then show False using place_bound [OF assms(2,3)] assms(4) by (metis not_le)
qed

lemma placed_node:
  "placed m q bs \<Longrightarrow> i < length bs \<Longrightarrow> n \<in> set (bs ! i) \<Longrightarrow> node_hash n = hash (node_data n) \<and> place m q (unat (hash (node_data n))) = i"
  by (auto simp: placed_def)

subsection \<open>Growing\<close>

lemma split_chain_eq:
  "split_chain nni p c n2 = (filter (\<lambda>n. unat (node_hash n) mod nni = p) c, rev (filter (\<lambda>n. unat (node_hash n) mod nni \<noteq> p) c) @ n2)"
  by (induction nni p c n2 rule: split_chain.induct) auto

lemma concat_at:
  assumes "i < length bs"
  obtains A B where "concat bs = A @ bs ! i @ B" "\<And>c. concat (bs[i := c]) = A @ c @ B"
proof
  show "concat bs = concat (take i bs) @ bs ! i @ concat (drop (Suc i) bs)"
    using id_take_nth_drop [OF assms] by (metis concat.simps(2) concat_append)
  show "concat (bs[i := c]) = concat (take i bs) @ c @ concat (drop (Suc i) bs)" for c
    using assms by (simp add: upd_conv_take_nth_drop)
qed

lemma mset_concat_update: "i < length bs \<Longrightarrow> mset (concat (bs[i := c])) + mset (bs ! i) = mset (concat bs) + mset c"
  by (rule concat_at [of i bs]) (auto simp: ac_simps)

lemma placed_split:
  assumes "placed m q bs" "q < m" "length bs = 2 * m" "split_chain (2 * m) q (bs ! q) [] = (n1, n2)"
  shows "placed m (Suc q) (bs[q := n1, q + m := n2])" "mset (concat (bs[q := n1, q + m := n2])) = mset (concat bs)"
proof -
  have n: "n1 = filter (\<lambda>n. unat (node_hash n) mod (2 * m) = q) (bs ! q)" "n2 = rev (filter (\<lambda>n. unat (node_hash n) mod (2 * m) \<noteq> q) (bs ! q))"
    using assms(4) by (simp_all add: split_chain_eq)
  have q: "q < length bs" "q + m < length bs" using assms(2,3) by simp_all
  have node: "node_hash n = hash (node_data n)" "place m q (unat (hash (node_data n))) = i" if "i < length bs" "n \<in> set (bs ! i)" for i n
    using placed_node [OF assms(1) that] by simp_all
  show "placed m (Suc q) (bs[q := n1, q + m := n2])"
    unfolding placed_def
  proof (intro allI impI ballI)
    fix i n assume i: "i < length (bs[q := n1, q + m := n2])" "n \<in> set (bs[q := n1, q + m := n2] ! i)"
    consider "i = q + m" "n \<in> set n2" | "i = q" "n \<in> set n1" | "i \<noteq> q" "i \<noteq> q + m" "n \<in> set (bs ! i)"
      using i q by (auto simp: nth_list_update split: if_splits)
    then show "node_hash n = hash (node_data n) \<and> place m (Suc q) (unat (hash (node_data n))) = i"
    proof cases
      case 1
      then have m: "n \<in> set (bs ! q)" "unat (node_hash n) mod (2 * m) \<noteq> q" by (auto simp: n)
      let ?h = "unat (hash (node_data n))"
      have h: "node_hash n = hash (node_data n)" "place m q ?h = q" using node [OF q(1) m(1)] by simp_all
      then have "?h mod m = q" using mod_double [of m ?h] assms(2) by (auto simp: place_def split: if_splits)
      then have "?h mod (2 * m) = q + m" using mod_double [of m ?h] m(2) h(1) assms(2) by auto
      then show ?thesis using h 1(1) assms(2) by (simp add: place_next)
    next
      case 2
      then show ?thesis using node [OF q(1), of n] assms(2) by (auto simp: n place_next)
    next
      case 3
      then show ?thesis using node [of i n] i(1) assms(2) by (auto simp: place_next)
    qed
  qed
  have "bs ! (q + m) = []" using placed_empty [OF assms(1)] assms(2,3) by simp
  then have "mset (concat (bs[q := n1, q + m := n2])) = mset (concat (bs[q := n1])) + mset n2"
    using mset_concat_update [of "q + m" "bs[q := n1]" n2] q assms(2) by simp
  moreover have "mset (concat (bs[q := n1])) + mset (bs ! q) = mset (concat bs) + mset n1"
    by (rule mset_concat_update [OF q(1)])
  moreover have "mset (bs ! q) = mset n1 + mset n2" by (simp add: n)
  ultimately show "mset (concat (bs[q := n1, q + m := n2])) = mset (concat bs)" by (simp add: ac_simps)
qed

subsection \<open>Shrinking\<close>

lemma placed_join:
  assumes "placed m (Suc q) bs" "q < m" "length bs = 2 * m"
  shows "placed m q (bs[q + m := [], q := bs ! q @ bs ! (q + m)])"
    "mset (concat (bs[q + m := [], q := bs ! q @ bs ! (q + m)])) = mset (concat bs)"
proof -
  have q: "q < length bs" "q + m < length bs" "q \<noteq> q + m" using assms(2,3) by simp_all
  have node: "node_hash n = hash (node_data n)" "place m (Suc q) (unat (hash (node_data n))) = i"
    if "i < length bs" "n \<in> set (bs ! i)" for i n
    using placed_node [OF assms(1) that] by simp_all
  show "placed m q (bs[q + m := [], q := bs ! q @ bs ! (q + m)])"
    unfolding placed_def
  proof (intro allI impI ballI)
    fix i n assume i: "i < length (bs[q + m := [], q := bs ! q @ bs ! (q + m)])" "n \<in> set (bs[q + m := [], q := bs ! q @ bs ! (q + m)] ! i)"
    consider "i = q" "n \<in> set (bs ! q)" | "i = q" "n \<in> set (bs ! (q + m))" | "i \<noteq> q" "i \<noteq> q + m" "n \<in> set (bs ! i)"
      using i q by (auto simp: nth_list_update split: if_splits)
    then show "node_hash n = hash (node_data n) \<and> place m q (unat (hash (node_data n))) = i"
    proof cases
      case 1
      then show ?thesis using node [OF q(1)] q(3) assms(2) by (simp add: place_back)
    next
      case 2
      then show ?thesis using node [OF q(2)] assms(2) by (simp add: place_back)
    next
      case 3
      then show ?thesis using node [of i n] i(1) assms(2) by (simp add: place_back)
    qed
  qed
  have "mset (concat (bs[q + m := [], q := bs ! q @ bs ! (q + m)])) + mset (bs ! q) = mset (concat (bs[q + m := []])) + mset (bs ! q @ bs ! (q + m))"
    using mset_concat_update [of q "bs[q + m := []]" "bs ! q @ bs ! (q + m)"] q by simp
  moreover have "mset (concat (bs[q + m := []])) + mset (bs ! (q + m)) = mset (concat bs)"
    using mset_concat_update [OF q(2), of "[]"] by simp
  ultimately show "mset (concat (bs[q + m := [], q := bs ! q @ bs ! (q + m)])) = mset (concat bs)"
    by (simp add: ac_simps)
qed

lemma concat_take: "placed m q bs \<Longrightarrow> 0 < m \<Longrightarrow> q \<le> m \<Longrightarrow> m + q \<le> k \<Longrightarrow> concat (take k bs) = concat bs"
proof -
  assume a: "placed m q bs" "0 < m" "q \<le> m" "m + q \<le> k"
  have "concat (drop k bs) = []"
  proof (subst concat_eq_Nil_conv, intro ballI)
    fix c assume "c \<in> set (drop k bs)"
    then obtain j where "j < length bs - k" "c = bs ! (k + j)" by (auto simp: in_set_conv_nth)
    then show "c = []" using placed_empty [OF a(1-3), of "k + j"] a(4) by simp
  qed
  then show ?thesis by (metis append_Nil2 append_take_drop_id concat_append)
qed

subsection \<open>What growing and shrinking keep\<close>

lemma keys_mset: "mset (concat bs) = mset (concat bs') \<Longrightarrow> distinct (keys_in bs) \<longleftrightarrow> distinct (keys_in bs')"
  unfolding keys_in_def by (metis mset_eq_imp_distinct_iff mset_map)

lemma contents_iff:
  "distinct (keys_in (buckets lh)) \<Longrightarrow> contents lh k = Some d \<longleftrightarrow> (\<exists>n\<in>set (concat (buckets lh)). node_data n = d \<and> key d = k)"
  unfolding contents_def keys_in_def by (subst map_of_eq_Some_iff) (auto simp: comp_def)

lemma contents_mset:
  assumes "mset (concat (buckets lh)) = mset (concat (buckets lh'))" "distinct (keys_in (buckets lh))"
  shows "contents lh = contents lh'"
proof
  fix k
  have "set (concat (buckets lh)) = set (concat (buckets lh'))" using assms(1) by (rule mset_eq_setD)
  then have "contents lh k = Some d \<longleftrightarrow> contents lh' k = Some d" for d
    using contents_iff [of lh] contents_iff [of lh'] assms keys_mset [OF assms(1)] by simp
  then show "contents lh k = contents lh' k" by (metis not_None_eq)
qed

lemma expand_ok:
  assumes "table_ok lh"
  shows "table_ok (expand True lh)" "contents (expand True lh) = contents lh" "num_nodes (expand True lh) = num_nodes lh + 1"
    "num_items (expand True lh) = num_items lh"
proof -
  let ?m = "pmax lh" and ?q = "split_at_p lh"
  obtain n1 n2 where n: "split_chain (2 * ?m) ?q (buckets lh ! ?q) [] = (n1, n2)" by fastforce
  let ?bs = "(buckets lh)[?q := n1, ?q + ?m := n2]"
  have ok: "placed ?m ?q (buckets lh)" "?q < ?m" "length (buckets lh) = 2 * ?m" "num_alloc_nodes lh = 2 * ?m" "distinct (keys_in (buckets lh))"
    using assms by (simp_all add: table_ok_def)
  note split = placed_split [OF ok(1-3) n]
  have keys: "distinct (keys_in ?bs)" using keys_mset [OF split(2)] ok(5) by simp
  have len: "length (concat ?bs) = length (concat (buckets lh))" using split(2) by (metis size_mset)
  have all: "table_ok (expand True lh) \<and> contents (expand True lh) = contents lh \<and> num_nodes (expand True lh) = num_nodes lh + 1
      \<and> num_items (expand True lh) = num_items lh"
  proof (cases "Suc ?q = ?m")
    case True
    let ?lh = "lh\<lparr>num_nodes := num_nodes lh + 1, split_at_p := 0, pmax := 2 * ?m, num_alloc_nodes := 2 * ?m * 2,
        buckets := ?bs @ replicate (2 * ?m) []\<rparr>"
    have e: "expand True lh = ?lh" using True ok(4) n by (simp add: expand_def Let_def)
    have cat: "concat (?bs @ replicate (2 * ?m) []) = concat ?bs" by simp
    have "placed (2 * ?m) 0 (?bs @ replicate (2 * ?m) [])"
      using split(1) True ok(2) placed_full [of ?m] by (intro placed_append_empty) simp
    moreover obtain k where "?m = 8 * 2 ^ k" using assms by (auto simp: table_ok_def)
    then have "\<exists>k. 2 * ?m = 8 * 2 ^ k" by (intro exI [of _ "Suc k"]) simp
    ultimately have "table_ok ?lh"
      using assms True keys len ok(3) cat unfolding table_ok_def keys_in_def by (simp del: concat_append)
    moreover have "contents ?lh = contents lh"
      using split(2) keys cat by (intro contents_mset) (simp_all add: keys_in_def del: concat_append)
    ultimately show ?thesis unfolding e by simp
  next
    case False
    let ?lh = "lh\<lparr>num_nodes := num_nodes lh + 1, split_at_p := ?q + 1, buckets := ?bs\<rparr>"
    have e: "expand True lh = ?lh" using False ok(2,4) n by (simp add: expand_def Let_def)
    have "table_ok ?lh" using assms False ok(2) keys len split(1) by (simp add: table_ok_def)
    moreover have "contents ?lh = contents lh" using split(2) keys by (intro contents_mset) simp_all
    ultimately show ?thesis unfolding e by simp
  qed
  then show "table_ok (expand True lh)" "contents (expand True lh) = contents lh" "num_nodes (expand True lh) = num_nodes lh + 1"
    "num_items (expand True lh) = num_items lh"
    by blast+
qed

lemma contract_ok:
  assumes "table_ok lh" "16 < num_nodes lh" "num_items lh \<le> 2 * (num_nodes lh - 1)"
  shows "table_ok (contract True lh) \<and> contents (contract True lh) = contents lh"
proof -
  let ?m = "pmax lh" and ?q = "split_at_p lh"
  have ok: "placed ?m ?q (buckets lh)" "?q < ?m" "length (buckets lh) = 2 * ?m" "num_alloc_nodes lh = 2 * ?m" "distinct (keys_in (buckets lh))"
    using assms(1) by (simp_all add: table_ok_def)
  show ?thesis
  proof (cases "?q = 0")
    case False
    then obtain q where q: "?q = Suc q" by (cases ?q) simp_all
    let ?bs = "(buckets lh)[q + ?m := [], q := buckets lh ! q @ buckets lh ! (q + ?m)]"
    have join: "placed ?m q ?bs" "mset (concat ?bs) = mset (concat (buckets lh))"
      using placed_join [of ?m q "buckets lh"] ok(1-3) q by simp_all
    have c: "contract True lh = lh\<lparr>num_nodes := num_nodes lh - 1, split_at_p := q, buckets := ?bs\<rparr>" (is "_ = ?lh")
      using q ok(2) by (simp add: contract_def Let_def)
    have "length (concat ?bs) = length (concat (buckets lh))" using join(2) by (metis size_mset)
    then have "table_ok ?lh"
      using assms q join(1) keys_mset [OF join(2)] unfolding table_ok_def by simp
    moreover have "contents ?lh = contents lh" using join(2) ok(5) keys_mset [OF join(2)] by (intro contents_mset) simp_all
    ultimately show ?thesis unfolding c by simp
  next
    case True
    obtain k where k: "?m = 8 * 2 ^ k" using assms(1) by (auto simp: table_ok_def)
    have "16 < ?m" using assms(1,2) True by (simp add: table_ok_def)
    then obtain k' where k': "k = Suc k'" using k by (cases k) simp_all
    define m :: nat where "m = 8 * 2 ^ k'"
    have m: "?m = 2 * m" "0 < m" using k k' by (simp_all add: m_def)
    define q where "q = m - 1"
    have q: "Suc q = m" "q < m" using m(2) by (simp_all add: q_def)
    let ?chains = "take ?m (buckets lh)"
    let ?bs = "?chains[q + m := [], q := ?chains ! q @ ?chains ! (q + m)]"
    have "placed (2 * m) 0 ?chains" using placed_take [OF ok(1)] True m(1) by simp
    then have p0: "placed m (Suc q) ?chains" using placed_full [OF m(2)] q(1) by simp
    have l0: "length ?chains = 2 * m" using ok(3) m(1) by simp
    have cat: "concat ?chains = concat (buckets lh)" using concat_take [OF ok(1)] True ok(2) by simp
    have join: "placed m q ?bs" "mset (concat ?bs) = mset (concat (buckets lh))"
      using placed_join [OF p0 q(2) l0] unfolding cat by blast+
    have l: "?m - Suc 0 = q + m" "?m div 2 - Suc 0 = q" using m q by simp_all
    have at: "buckets lh ! (q + m) = ?chains ! (q + m)" "buckets lh ! q = ?chains ! q" "q \<noteq> q + m"
      using m q by simp_all
    have c: "contract True lh = lh\<lparr>num_nodes := num_nodes lh - 1, num_alloc_nodes := num_alloc_nodes lh div 2, pmax := ?m div 2, split_at_p := q,
        buckets := ?bs\<rparr>" (is "_ = ?lh")
      using True at(3) by (simp add: contract_def Let_def l at(1,2) take_update_swap del: nth_take)
    have "length (concat ?bs) = length (concat (buckets lh))" using join(2) by (metis size_mset)
    moreover have "\<exists>k. m = 8 * 2 ^ k" by (auto simp: m_def)
    ultimately have "table_ok ?lh"
      using assms True m q join(1) l0 ok(4) keys_mset [OF join(2)] unfolding table_ok_def by simp
    moreover have "contents ?lh = contents lh" using join(2) ok(5) keys_mset [OF join(2)] by (intro contents_mset) simp_all
    ultimately show ?thesis unfolding c by simp
  qed
qed

subsection \<open>Access\<close>

lemma chain_pos_eq:
  "\<forall>n\<in>set ns. node_hash n = hash (node_data n) \<Longrightarrow> chain_pos cmp d (hash d) ns = length (takeWhile (\<lambda>n. key (node_data n) \<noteq> key d) ns)"
proof (induction ns)
  case (Cons n ns)
  then show ?case using hash_key [of "node_data n" d] by (cases "key (node_data n) = key d") (simp_all add: cmp_key)
qed simp

text \<open>What \<open>getrn\<close> finds: the chain around the place, and the entry of the map.\<close>

lemma getrn_found:
  assumes "table_ok lh" "getrn lh d = (i, j, h)"
  obtains A B where "i < length (buckets lh)" "h = hash d" "concat (buckets lh) = A @ buckets lh ! i @ B"
    "\<And>c. concat ((buckets lh)[i := c]) = A @ c @ B" "key d \<notin> (\<lambda>n. key (node_data n)) ` set (A @ B)"
    "place (pmax lh) (split_at_p lh) (unat (hash d)) = i" "j = length (takeWhile (\<lambda>n. key (node_data n) \<noteq> key d) (buckets lh ! i))"
proof -
  have ok: "placed (pmax lh) (split_at_p lh) (buckets lh)" "split_at_p lh < pmax lh" "length (buckets lh) = 2 * pmax lh"
      "num_alloc_nodes lh = 2 * pmax lh" "lh_hash lh = hash" "lh_comp lh = cmp" "distinct (keys_in (buckets lh))"
    using assms(1) by (simp_all add: table_ok_def)
  have "getrn lh d = (place (pmax lh) (split_at_p lh) (unat (hash d)),
      chain_pos cmp d (hash d) (buckets lh ! place (pmax lh) (split_at_p lh) (unat (hash d))), hash d)"
    by (simp add: getrn_def bucket_of_def place_def Let_def ok(4-6))
  then have h: "h = hash d" and i: "i = place (pmax lh) (split_at_p lh) (unat (hash d))" and j: "j = chain_pos cmp d (hash d) (buckets lh ! i)"
    using assms(2) by simp_all
  have il: "i < length (buckets lh)" using place_bound [of "pmax lh" "split_at_p lh" "unat (hash d)"] ok(2,3) i by simp
  obtain A B where AB: "concat (buckets lh) = A @ buckets lh ! i @ B" "\<And>c. concat ((buckets lh)[i := c]) = A @ c @ B"
    using concat_at [OF il] by blast
  have "key (node_data n) \<noteq> key d" if "n \<in> set (A @ B)" for n
  proof
    assume k: "key (node_data n) = key d"
    have "concat ((buckets lh)[i := []]) = A @ B" using AB(2) by simp
    then have "n \<in> set (concat ((buckets lh)[i := []]))" using that by simp
    then obtain c where c: "c \<in> set ((buckets lh)[i := []])" "n \<in> set c" by auto
    then obtain i' where i': "i' < length (buckets lh)" "n \<in> set ((buckets lh)[i := []] ! i')"
      using in_set_conv_nth [of c "(buckets lh)[i := []]"] by auto
    then have i': "i' < length (buckets lh)" "i' \<noteq> i" "n \<in> set (buckets lh ! i')" by (cases "i' = i"; simp)+
    then show False using placed_node [OF ok(1) i'(1,3)] hash_key [OF k] i by simp
  qed
  then have out: "key d \<notin> (\<lambda>n. key (node_data n)) ` set (A @ B)" by (metis (no_types, lifting) imageE)
  have pos: "j = length (takeWhile (\<lambda>n. key (node_data n) \<noteq> key d) (buckets lh ! i))"
    using chain_pos_eq [of "buckets lh ! i" d] placed_node [OF ok(1) il] j by simp
  show thesis by (rule that [OF il h AB out i [symmetric] pos])
qed

lemma table_ok_error [simp]: "table_ok (lh\<lparr>lh_error := e\<rparr>) = table_ok lh" "contents (lh\<lparr>lh_error := e\<rparr>) = contents lh"
    "getrn (lh\<lparr>lh_error := e\<rparr>) d = getrn lh d"
  by (simp_all add: table_ok_def contents_def getrn_def bucket_of_def Let_def)

lemma map_of_notin: "k \<notin> (\<lambda>n. key (node_data n)) ` set ns \<Longrightarrow> map_of (map (\<lambda>n. (key (node_data n), node_data n)) ns) k = None"
  by (induction ns) auto

text \<open>The place that \<open>getrn\<close> finds, as a decomposition of all nodes: the node with the key and what is around it.\<close>

lemma getrn_cases:
  assumes "table_ok lh" "getrn lh d = (i, j, h)"
  obtains (absent) A B where "i < length (buckets lh)" "h = hash d" "j = length (buckets lh ! i)"
      "concat (buckets lh) = A @ buckets lh ! i @ B" "\<And>c. concat ((buckets lh)[i := c]) = A @ c @ B"
      "key d \<notin> (\<lambda>n. key (node_data n)) ` set (A @ buckets lh ! i @ B)"
      "place (pmax lh) (split_at_p lh) (unat (hash d)) = i"
  | (present) A C n D B where "i < length (buckets lh)" "j < length (buckets lh ! i)" "buckets lh ! i = C @ n # D" "j = length C"
      "concat (buckets lh) = A @ buckets lh ! i @ B" "\<And>c. concat ((buckets lh)[i := c]) = A @ c @ B"
      "key (node_data n) = key d" "key d \<notin> (\<lambda>n. key (node_data n)) ` set (A @ C @ D @ B)"
proof -
  obtain A B where f: "i < length (buckets lh)" "h = hash d" "concat (buckets lh) = A @ buckets lh ! i @ B"
      "\<And>c. concat ((buckets lh)[i := c]) = A @ c @ B" "key d \<notin> (\<lambda>n. key (node_data n)) ` set (A @ B)"
      "place (pmax lh) (split_at_p lh) (unat (hash d)) = i" "j = length (takeWhile (\<lambda>n. key (node_data n) \<noteq> key d) (buckets lh ! i))"
    using getrn_found [OF assms] by metis
  let ?P = "\<lambda>n. key (node_data n) \<noteq> key d"
  show thesis
  proof (cases "\<forall>n\<in>set (buckets lh ! i). ?P n")
    case True
    then have all: "takeWhile ?P (buckets lh ! i) = buckets lh ! i" by (simp add: takeWhile_eq_all_conv)
    have "j = length (buckets lh ! i)" using f(7) unfolding all .
    moreover have "key d \<notin> (\<lambda>n. key (node_data n)) ` set (A @ buckets lh ! i @ B)" using True f(5) by auto
    ultimately show thesis by (rule absent [OF f(1,2) _ f(3,4) _ f(6)])
  next
    case False
    define C where "C = takeWhile ?P (buckets lh ! i)"
    have "dropWhile ?P (buckets lh ! i) \<noteq> []" using False by (simp add: dropWhile_eq_Nil_conv)
    then obtain n D where nD: "dropWhile ?P (buckets lh ! i) = n # D" by (cases "dropWhile ?P (buckets lh ! i)") simp_all
    have chain: "buckets lh ! i = C @ n # D" using nD takeWhile_dropWhile_id [of ?P "buckets lh ! i"] by (simp add: C_def)
    have n: "key (node_data n) = key d" using hd_dropWhile [of ?P "buckets lh ! i"] nD by simp
    have C: "key d \<notin> (\<lambda>n. key (node_data n)) ` set C" unfolding C_def by (auto dest: set_takeWhileD)
    have "distinct (map (\<lambda>n. key (node_data n)) (A @ (C @ n # D) @ B))"
      using assms(1) f(3) chain by (simp add: table_ok_def keys_in_def)
    then have "key d \<notin> (\<lambda>n. key (node_data n)) ` set D" using n by simp
    then have "key d \<notin> (\<lambda>n. key (node_data n)) ` set (A @ C @ D @ B)" using C f(5) by auto
    moreover have "j = length C" using f(7) by (simp add: C_def)
    ultimately show thesis using present [OF f(1) _ chain _ f(3,4) n] chain by simp
  qed
qed

text \<open>A new node at the end of the chain of its hash.\<close>

lemma add_node:
  assumes "table_ok lh" "getrn lh d = (i, j, h)" "j = length (buckets lh ! i)" "num_items lh < 2 * num_nodes lh"
    and "lh' = lh\<lparr>buckets := (buckets lh)[i := buckets lh ! i @ [\<lparr>node_data = d, node_hash = h\<rparr>]], num_items := num_items lh + 1\<rparr>"
  shows "table_ok lh'" "contents lh (key d) = None" "contents lh' = (contents lh)(key d \<mapsto> d)"
  using assms(1,2)
proof (atomize (full), cases rule: getrn_cases)
  case (absent A B)
  let ?node = "\<lparr>node_data = d, node_hash = h\<rparr>" and ?f = "\<lambda>n. (key (node_data n), node_data n)"
  have new: "concat (buckets lh') = A @ (buckets lh ! i @ [?node]) @ B" using absent(5) assms(5) by simp
  have "placed (pmax lh) (split_at_p lh) (buckets lh)" using assms(1) by (simp add: table_ok_def)
  then have "placed (pmax lh) (split_at_p lh) (buckets lh')"
    using placed_node [of "pmax lh" "split_at_p lh" "buckets lh" i] absent(1,2,7) assms(5)
    by (auto intro!: placed_update)
  moreover have "distinct (keys_in (buckets lh'))"
    using assms(1) absent(4,6) unfolding table_ok_def keys_in_def new by auto
  moreover have "length (concat (buckets lh')) = length (concat (buckets lh)) + 1" unfolding new absent(4) by simp
  ultimately have "table_ok lh'" using assms(1,4,5) by (simp add: table_ok_def)
  moreover have none: "contents lh (key d) = None" using map_of_notin [OF absent(6)] absent(4) by (simp add: contents_def)
  moreover have "contents lh' = (contents lh)(key d \<mapsto> d)"
  proof
    fix k
    have "map_of (map ?f A) (key d) = None" "map_of (map ?f (buckets lh ! i)) (key d) = None" "map_of (map ?f B) (key d) = None"
      using absent(6) by (auto intro!: map_of_notin)
    then show "contents lh' k = ((contents lh)(key d \<mapsto> d)) k"
      unfolding contents_def new absent(4) by (cases "k = key d") (auto simp: map_add_def split: option.split)
  qed
  ultimately show "table_ok lh' \<and> contents lh (key d) = None \<and> contents lh' = (contents lh)(key d \<mapsto> d)" by blast
qed (use assms(3) in simp)

text \<open>A node with the key gets other data, or is taken out.\<close>

lemma replace_node:
  assumes "table_ok lh" "getrn lh d = (i, j, h)" "j \<noteq> length (buckets lh ! i)"
    and "lh' = lh\<lparr>buckets := (buckets lh)[i := (buckets lh ! i)[j := (buckets lh ! i ! j)\<lparr>node_data := d\<rparr>]]\<rparr>"
  shows "table_ok lh'" "contents lh (key d) = Some (node_data (buckets lh ! i ! j))" "contents lh' = (contents lh)(key d \<mapsto> d)"
  using assms(1,2)
proof (atomize (full), cases rule: getrn_cases)
  case (present A C n D B)
  let ?node = "n\<lparr>node_data := d\<rparr>" and ?f = "\<lambda>n. (key (node_data n), node_data n)"
  have at: "buckets lh ! i ! j = n" "(buckets lh ! i)[j := ?node] = C @ ?node # D" using present(3,4) by simp_all
  have new: "concat (buckets lh') = A @ (C @ ?node # D) @ B" using present(6) assms(4) at by simp
  have "placed (pmax lh) (split_at_p lh) (buckets lh)" using assms(1) by (simp add: table_ok_def)
  moreover have "hash d = hash (node_data n)" using present(7) hash_key by metis
  ultimately have "placed (pmax lh) (split_at_p lh) (buckets lh')"
    using placed_node [of "pmax lh" "split_at_p lh" "buckets lh" i] present(1,3) assms(4) at
    by (auto intro!: placed_update)
  moreover have "keys_in (buckets lh') = keys_in (buckets lh)" unfolding keys_in_def new present(3,5) using present(7) by simp
  moreover have "length (concat (buckets lh')) = length (concat (buckets lh))" unfolding new present(3,5) by simp
  ultimately have "table_ok lh'" using assms(1,4) by (simp add: table_ok_def)
  moreover have none: "map_of (map ?f A) (key d) = None" "map_of (map ?f C) (key d) = None" "map_of (map ?f D) (key d) = None"
      "map_of (map ?f B) (key d) = None"
    using present(8) by (auto intro!: map_of_notin)
  then have "contents lh (key d) = Some (node_data n)"
    unfolding contents_def present(5) present(3) using present(7) by (simp add: map_add_def)
  moreover have "contents lh' = (contents lh)(key d \<mapsto> d)"
  proof
    fix k
    show "contents lh' k = ((contents lh)(key d \<mapsto> d)) k"
      unfolding contents_def new present(5) present(3) using none present(7)
      by (cases "k = key d") (auto simp: map_add_def split: option.split)
  qed
  ultimately show "table_ok lh' \<and> contents lh (key d) = Some (node_data (buckets lh ! i ! j)) \<and> contents lh' = (contents lh)(key d \<mapsto> d)"
    using at by simp
qed (use assms(3) in simp)

lemma remove_node:
  assumes "table_ok lh" "getrn lh d = (i, j, h)" "j \<noteq> length (buckets lh ! i)"
    and "lh' = lh\<lparr>buckets := (buckets lh)[i := take j (buckets lh ! i) @ drop (Suc j) (buckets lh ! i)], num_items := num_items lh - 1\<rparr>"
  shows "table_ok lh'" "contents lh (key d) = Some (node_data (buckets lh ! i ! j))" "contents lh' = (contents lh)(key d := None)"
  using assms(1,2)
proof (atomize (full), cases rule: getrn_cases)
  case (present A C n D B)
  let ?f = "\<lambda>n. (key (node_data n), node_data n)"
  have at: "buckets lh ! i ! j = n" "take j (buckets lh ! i) @ drop (Suc j) (buckets lh ! i) = C @ D" using present(3,4) by simp_all
  have new: "concat (buckets lh') = A @ (C @ D) @ B" using present(6) assms(4) at by simp
  have "placed (pmax lh) (split_at_p lh) (buckets lh)" using assms(1) by (simp add: table_ok_def)
  then have "placed (pmax lh) (split_at_p lh) (buckets lh')"
    using placed_node [of "pmax lh" "split_at_p lh" "buckets lh" i] present(1,3) assms(4) at
    by (auto intro!: placed_update)
  moreover have "distinct (keys_in (buckets lh'))"
    using assms(1) unfolding table_ok_def keys_in_def new present(5) present(3) by auto
  moreover have "length (concat (buckets lh)) = Suc (length (concat (buckets lh')))" unfolding new present(3,5) by simp
  ultimately have "table_ok lh'" using assms(1,4) by (simp add: table_ok_def)
  moreover have none: "map_of (map ?f A) (key d) = None" "map_of (map ?f C) (key d) = None" "map_of (map ?f D) (key d) = None"
      "map_of (map ?f B) (key d) = None"
    using present(8) by (auto intro!: map_of_notin)
  then have "contents lh (key d) = Some (node_data n)"
    unfolding contents_def present(5) present(3) using present(7) by (simp add: map_add_def)
  moreover have "contents lh' = (contents lh)(key d := None)"
  proof
    fix k
    show "contents lh' k = ((contents lh)(key d := None)) k"
      unfolding contents_def new present(5) present(3) using none present(7)
      by (cases "k = key d") (auto simp: map_add_def split: option.split)
  qed
  ultimately show "table_ok lh' \<and> contents lh (key d) = Some (node_data (buckets lh ! i ! j)) \<and> contents lh' = (contents lh)(key d := None)"
    using at by simp
qed (use assms(3) in simp)

subsection \<open>Insertion, deletion and retrieval\<close>

lemma table_ok_load: "table_ok lh \<Longrightarrow> num_items lh \<le> 2 * num_nodes lh" "table_ok lh \<Longrightarrow> 8 \<le> num_nodes lh"
    "table_ok lh \<Longrightarrow> up_load lh = 512" "table_ok lh \<Longrightarrow> down_load lh = 256"
  by (simp_all add: table_ok_def) (metis mult_le_mono2 nat_mult_1_right one_le_numeral one_le_power trans_le_add1)

lemma up_load_room: "0 < n \<Longrightarrow> \<not> 512 \<le> items * 256 div n \<Longrightarrow> items < 2 * n" for items n :: nat
  by (simp add: less_eq_div_iff_mult_less_eq not_le)

lemma down_load_room: "2 < n \<Longrightarrow> items * 256 div n \<le> 256 \<Longrightarrow> items \<le> 2 * (n - 1)" for items n :: nat
proof -
  assume n: "2 < n" "items * 256 div n \<le> 256"
  have "items * 256 < 257 * n"
    using n div_less_iff_less_mult [of n "items * 256" 257] by simp
  then show "items \<le> 2 * (n - 1)" using n(1) by simp
qed

lemma table_ok_new: "lh_new True True hash cmp = Some lh \<Longrightarrow> table_ok lh \<and> contents lh = Map.empty"
  by (auto simp: lh_new_def table_ok_def MIN_NODES_def LH_LOAD_MULT_def placed_def keys_in_def contents_def intro!: exI [of _ 0])

lemma insert_ok:
  assumes "table_ok lh" "lh_insert True malloc_ok lh d = (r, lh')"
  shows "table_ok lh' \<and> (r, contents lh') = map_call key (Insert malloc_ok d) (contents lh)"
proof -
  define lh1 where "lh1 = (if up_load lh \<le> num_items lh * LH_LOAD_MULT div num_nodes lh
      then expand True (lh\<lparr>lh_error := 0\<rparr>) else lh\<lparr>lh_error := 0\<rparr>)"
  have e: "table_ok (lh\<lparr>lh_error := 0\<rparr>)" "contents (lh\<lparr>lh_error := 0\<rparr>) = contents lh" using assms(1) by simp_all
  have load: "num_items lh \<le> 2 * num_nodes lh" "0 < num_nodes lh" "up_load lh = 512" using table_ok_load [OF assms(1)] by simp_all
  have lh1: "table_ok lh1" "contents lh1 = contents lh" "num_items lh1 < 2 * num_nodes lh1"
    using expand_ok [OF e(1)] e load up_load_room [OF load(2), of "num_items lh"] by (auto simp: lh1_def LH_LOAD_MULT_def)
  obtain i j h where g: "getrn lh1 d = (i, j, h)" by (metis prod_cases3)
  have ins: "lh_insert True malloc_ok lh d =
      (if j = length (buckets lh1 ! i)
       then if \<not> malloc_ok then (None, lh1\<lparr>lh_error := lh_error lh1 + 1\<rparr>)
            else (None, lh1\<lparr>buckets := (buckets lh1)[i := buckets lh1 ! i @ [\<lparr>node_data = d, node_hash = h\<rparr>]], num_items := num_items lh1 + 1\<rparr>)
       else (Some (node_data (buckets lh1 ! i ! j)),
             lh1\<lparr>buckets := (buckets lh1)[i := (buckets lh1 ! i)[j := (buckets lh1 ! i ! j)\<lparr>node_data := d\<rparr>]]\<rparr>))"
    using g by (simp add: lh_insert_def Let_def lh1_def)
  show ?thesis
  proof (cases "j = length (buckets lh1 ! i)")
    case True
    note add = add_node [OF lh1(1) g True lh1(3) refl]
    show ?thesis using ins True assms(2) lh1(1,2) add by (cases malloc_ok) auto
  next
    case False
    then show ?thesis using ins assms(2) lh1(1,2) replace_node [OF lh1(1) g False refl] by auto
  qed
qed

lemma retrieve_eq:
  assumes "table_ok lh"
  shows "lh_retrieve lh d = (contents lh (key d), lh\<lparr>lh_error := 0\<rparr>)"
proof -
  obtain i j h where g: "getrn lh d = (i, j, h)" by (metis prod_cases3)
  have r: "lh_retrieve lh d = (if j = length (buckets lh ! i) then None else Some (node_data (buckets lh ! i ! j)), lh\<lparr>lh_error := 0\<rparr>)"
    using g by (simp add: lh_retrieve_def Let_def)
  show ?thesis
  proof (cases "j = length (buckets lh ! i)")
    case True
    show ?thesis using assms g
    proof (cases rule: getrn_cases)
      case (absent A B)
      have "contents lh (key d) = None" using map_of_notin [OF absent(6)] absent(4) by (simp add: contents_def)
      then show ?thesis using r True by simp
    qed (use True in simp)
  next
    case False
    then show ?thesis using r replace_node(2) [OF assms g False refl] by simp
  qed
qed

lemma delete_ok:
  assumes "table_ok lh" "lh_delete True lh d = (r, lh')"
  shows "table_ok lh' \<and> (r, contents lh') = map_call key (Delete d) (contents lh)"
proof -
  obtain i j h where g: "getrn lh d = (i, j, h)" by (metis prod_cases3)
  let ?e = "lh\<lparr>lh_error := 0\<rparr>"
  have e: "table_ok ?e" "contents ?e = contents lh" "getrn ?e d = (i, j, h)" using assms(1) g by simp_all
  show ?thesis
  proof (cases "j = length (buckets lh ! i)")
    case True
    have "contents lh (key d) = None" using retrieve_eq [OF assms(1), of d] g True by (simp add: lh_retrieve_def Let_def)
    then show ?thesis using assms g True by (auto simp: lh_delete_def Let_def fun_upd_idem)
  next
    case False
    define lh1 where "lh1 = ?e\<lparr>buckets := (buckets lh)[i := take j (buckets lh ! i) @ drop (Suc j) (buckets lh ! i)], num_items := num_items lh - 1\<rparr>"
    have lh1: "table_ok lh1" "contents lh (key d) = Some (node_data (buckets lh ! i ! j))" "contents lh1 = (contents lh)(key d := None)"
      using remove_node [OF e(1,3), of lh1] False e(2) by (simp_all add: lh1_def)
    have "lh_delete True lh d = (Some (node_data (buckets lh ! i ! j)),
        if num_nodes lh1 > MIN_NODES \<and> down_load lh1 \<ge> num_items lh1 * LH_LOAD_MULT div num_nodes lh1 then contract True lh1 else lh1)"
      using g False by (simp add: lh_delete_def Let_def lh1_def)
    then have d: "r = Some (node_data (buckets lh ! i ! j))"
      "lh' = (if num_nodes lh1 > MIN_NODES \<and> down_load lh1 \<ge> num_items lh1 * LH_LOAD_MULT div num_nodes lh1 then contract True lh1 else lh1)"
      unfolding assms(2) prod.inject by blast+
    have load: "2 < num_nodes lh1" "down_load lh1 = 256" using table_ok_load [OF lh1(1)] by simp_all
    have "table_ok lh' \<and> contents lh' = contents lh1"
    proof (cases "num_nodes lh1 > MIN_NODES \<and> down_load lh1 \<ge> num_items lh1 * LH_LOAD_MULT div num_nodes lh1")
      case True
      then have "num_items lh1 \<le> 2 * (num_nodes lh1 - 1)" "16 < num_nodes lh1"
        using down_load_room [OF load(1), of "num_items lh1"] load(2) by (simp_all add: LH_LOAD_MULT_def MIN_NODES_def)
      then show ?thesis using contract_ok [OF lh1(1)] d(2) True by simp
    qed (use d(2) lh1 in auto)
    then show ?thesis using d(1) lh1(2,3) by simp
  qed
qed

lemma call_ok:
  "table_ok lh \<Longrightarrow> lh_call c lh = (r, lh') \<Longrightarrow> table_ok lh' \<and> (r, contents lh') = map_call key c (contents lh)"
proof (cases c)
  case (Insert b d)
  then show "table_ok lh \<Longrightarrow> lh_call c lh = (r, lh') \<Longrightarrow> ?thesis" using insert_ok by simp
next
  case (Delete d)
  then show "table_ok lh \<Longrightarrow> lh_call c lh = (r, lh') \<Longrightarrow> ?thesis" using delete_ok by simp
next
  case (Retrieve d)
  then show "table_ok lh \<Longrightarrow> lh_call c lh = (r, lh') \<Longrightarrow> ?thesis" using retrieve_eq [of lh d] by auto
qed

lemma calls_ok:
  "table_ok lh \<Longrightarrow> calls lh_call cs lh = (rs, lh') \<Longrightarrow> table_ok lh' \<and> (rs, contents lh') = calls (map_call key) cs (contents lh)"
proof (induction cs arbitrary: lh rs lh')
  case (Cons c cs)
  obtain r lh1 where c: "lh_call c lh = (r, lh1)" by fastforce
  obtain rs' where cs: "calls lh_call cs lh1 = (rs', lh')" "rs = r # rs'" using Cons.prems(2) c by (auto split: prod.splits)
  have "table_ok lh1" "map_call key c (contents lh) = (r, contents lh1)" using call_ok [OF Cons.prems(1) c] by simp_all
  then show ?case using Cons.IH [OF _ cs(1)] cs(2) by (auto split: prod.splits)
qed simp

subsection \<open>Visits\<close>

lemma visited_eq: "table_ok lh \<Longrightarrow> mset (lh_visited lh) = mset (map node_data (concat (buckets lh)))"
proof -
  assume ok: "table_ok lh"
  have "concat (take (num_nodes lh) (buckets lh)) = concat (buckets lh)"
    using ok concat_take [of "pmax lh" "split_at_p lh" "buckets lh" "num_nodes lh"] by (simp add: table_ok_def)
  then show ?thesis unfolding lh_visited_def by (metis map_concat mset_concat mset_rev rev_map sum_list_rev)
qed

lemma visited_ok:
  assumes "table_ok lh"
  shows "set (lh_visited lh) = ran (contents lh) \<and> distinct (map key (lh_visited lh)) \<and> length (lh_visited lh) = num_items lh
    \<and> num_items lh = card (dom (contents lh))"
proof -
  have k: "distinct (keys_in (buckets lh))" "num_items lh = length (concat (buckets lh))" using assms by (simp_all add: table_ok_def)
  note v = visited_eq [OF assms]
  have "set (lh_visited lh) = node_data ` set (concat (buckets lh))" using mset_eq_setD [OF v] by simp
  moreover have "ran (contents lh) = node_data ` set (concat (buckets lh))"
    by (auto simp: contents_iff [OF k(1)] ran_def)
  moreover have "mset (map key (lh_visited lh)) = mset (keys_in (buckets lh))"
    using v by (simp add: keys_in_def multiset.map_comp o_def)
  then have "distinct (map key (lh_visited lh))" using k(1) mset_eq_imp_distinct_iff by blast
  moreover have "length (lh_visited lh) = num_items lh" using mset_eq_length [OF v] k(2) by simp
  moreover have "dom (contents lh) = set (keys_in (buckets lh))" by (simp add: contents_def keys_in_def dom_map_of_conv_image_fst image_image)
  then have "card (dom (contents lh)) = num_items lh" using distinct_card [OF k(1)] k(2) by (simp add: keys_in_def)
  ultimately show ?thesis by simp
qed

subsection \<open>Failed reallocations\<close>

definition find_in :: "'d hash_node list \<Rightarrow> 'd \<Rightarrow> 'd option" where
  "find_in c d = (let j = chain_pos cmp d (hash d) c in if j = length c then None else Some (node_data (c ! j)))"

lemma retrieve_chain:
  "lh_hash lh = hash \<Longrightarrow> lh_comp lh = cmp \<Longrightarrow> fst (lh_retrieve lh d) = find_in (buckets lh ! bucket_of lh (hash d)) d"
  by (simp add: lh_retrieve_def getrn_def find_in_def bucket_of_def Let_def)

lemma find_in_none:
  assumes "\<And>n. n \<in> set c \<Longrightarrow> node_hash n = hash (node_data n) \<and> key (node_data n) \<noteq> key d"
  shows "find_in c d = None"
proof -
  have all: "takeWhile (\<lambda>n. key (node_data n) \<noteq> key d) c = c" using assms by (simp add: takeWhile_eq_all_conv)
  have "chain_pos cmp d (hash d) c = length c" using chain_pos_eq [of c d] assms unfolding all by simp
  then show ?thesis by (simp add: find_in_def)
qed

lemma failed_contract:
  assumes "table_ok lh" "split_at_p lh = 0"
  shows "fst (lh_retrieve (contract False lh) d) = (if unat (hash d) mod pmax lh = pmax lh - 1 then None else contents lh (key d))"
proof -
  let ?i = "unat (hash d) mod pmax lh"
  have ok: "lh_hash lh = hash" "lh_comp lh = cmp" "0 < pmax lh" "length (buckets lh) = 2 * pmax lh"
    using assms by (auto simp: table_ok_def)
  have c: "contract False lh = lh\<lparr>buckets := (buckets lh)[pmax lh - 1 := []], lh_error := lh_error lh + 1\<rparr>"
    using assms(2) by (simp add: contract_def Let_def)
  have b: "bucket_of lh (hash d) = ?i" "bucket_of (contract False lh) (hash d) = ?i" using assms(2) by (simp_all add: bucket_of_def c)
  have "fst (lh_retrieve (contract False lh) d) = find_in ((buckets lh)[pmax lh - 1 := []] ! ?i) d"
    using retrieve_chain [of "contract False lh" d] ok(1,2) b(2) by (simp add: c)
  moreover have "contents lh (key d) = find_in (buckets lh ! ?i) d"
    using retrieve_chain [OF ok(1,2), of d] retrieve_eq [OF assms(1), of d] b(1) by simp
  ultimately show ?thesis using ok(3,4) find_in_none [of "[]" d] by auto
qed

lemma failed_expand:
  assumes "table_ok lh" "split_at_p lh + 1 = pmax lh"
  shows "fst (lh_retrieve (expand False lh) d) = (if pmax lh \<le> unat (hash d) mod num_alloc_nodes lh then None else contents lh (key d))"
proof -
  let ?m = "pmax lh" and ?q = "split_at_p lh" and ?h = "unat (hash d)"
  obtain n1 n2 where n: "split_chain (2 * ?m) ?q (buckets lh ! ?q) [] = (n1, n2)" by fastforce
  let ?bs = "(buckets lh)[?q := n1, ?q + ?m := n2]"
  have ok: "lh_hash lh = hash" "lh_comp lh = cmp" "placed ?m ?q (buckets lh)" "?q < ?m" "length (buckets lh) = 2 * ?m"
      "num_alloc_nodes lh = 2 * ?m"
    using assms(1) by (simp_all add: table_ok_def)
  have T: "expand True lh = lh\<lparr>num_nodes := num_nodes lh + 1, split_at_p := 0, pmax := 2 * ?m, num_alloc_nodes := 2 * ?m * 2,
        buckets := ?bs @ replicate (2 * ?m) []\<rparr>"
    using assms(2) ok(6) n by (simp add: expand_def Let_def)
  have F: "expand False lh = lh\<lparr>num_nodes := num_nodes lh + 1, split_at_p := 0, buckets := ?bs, lh_error := lh_error lh + 1\<rparr>"
    using assms(2) ok(6) n by (simp add: expand_def Let_def)
  have bF: "bucket_of (expand False lh) (hash d) = ?h mod ?m" by (simp add: bucket_of_def F)
  have bT: "bucket_of (expand True lh) (hash d) = ?h mod (2 * ?m)" by (simp add: bucket_of_def T)
  have rF: "fst (lh_retrieve (expand False lh) d) = find_in (?bs ! (?h mod ?m)) d"
    using retrieve_chain [of "expand False lh" d] ok(1,2) bF by (simp add: F)
  have "contents lh (key d) = fst (lh_retrieve (expand True lh) d)"
    using retrieve_eq [OF expand_ok(1) [OF assms(1)], of d] expand_ok(2) [OF assms(1)] by simp
  also have "\<dots> = find_in ((?bs @ replicate (2 * ?m) []) ! (?h mod (2 * ?m))) d"
    using retrieve_chain [of "expand True lh" d] ok(1,2) bT by (simp add: T)
  also have "\<dots> = find_in (?bs ! (?h mod (2 * ?m))) d" using ok(4,5) by (simp add: nth_append)
  finally have rT: "contents lh (key d) = find_in (?bs ! (?h mod (2 * ?m))) d" .
  have m: "0 < ?m" using ok(4) by simp
  show ?thesis
  proof (cases "?m \<le> ?h mod (2 * ?m)")
    case True
    have P: "placed (2 * ?m) 0 ?bs" using placed_split(1) [OF ok(3-5) n] assms(2) placed_full [OF m] by simp
    have i: "?h mod ?m < length ?bs" "?h mod ?m < ?m" using m ok(5) by (simp_all add: less_trans [OF mod_less_divisor])
    have "find_in (?bs ! (?h mod ?m)) d = None"
    proof (rule find_in_none)
      fix n assume "n \<in> set (?bs ! (?h mod ?m))"
      then have h: "node_hash n = hash (node_data n)" "unat (hash (node_data n)) mod (2 * ?m) = ?h mod ?m"
        using placed_node [OF P i(1), of n] by (simp_all add: place_def)
      then have "unat (hash (node_data n)) mod (2 * ?m) \<noteq> ?h mod (2 * ?m)" using True i(2) by simp
      then show "node_hash n = hash (node_data n) \<and> key (node_data n) \<noteq> key d" using h(1) hash_key [of "node_data n" d] by auto
    qed
    then show ?thesis using rF True ok(6) by simp
  next
    case False
    then have "?h mod (2 * ?m) = ?h mod ?m" using mod_double [OF m, of ?h] by auto
    then show ?thesis using rF rT False ok(6) by simp
  qed
qed

end

section \<open>The functions for strings keep the contract\<close>

definition c_string :: "string \<Rightarrow> string" where
  "c_string s = takeWhile (\<lambda>c. c \<noteq> CHR 0x00) s"

lemma of_char_eq_0: "of_char c = (0 :: int) \<longleftrightarrow> c = CHR 0x00"
  using of_char_eq_iff [of c "CHR 0x00", where ?'a = int] by simp

lemma strcmp_eq_0: "strcmp a b = 0 \<longleftrightarrow> c_string a = c_string b"
  by (induction a b rule: strcmp.induct) (auto simp: c_string_def of_char_eq_0)

lemma strhash_c_string: "strhash_loop (c_string s) n ret = strhash_loop s n ret"
  by (induction s n ret rule: strhash_loop.induct) (auto simp: c_string_def Let_def)

lemma lh_strhash_c_string: "lh_strhash (Some s) = lh_strhash (Some (c_string s))"
proof (cases "s = [] \<or> hd s = CHR 0x00")
  case True
  then have "c_string s = []" by (cases s) (auto simp: c_string_def)
  then show ?thesis using True by (simp add: lh_strhash_def)
next
  case False
  then have "c_string s \<noteq> []" "hd (c_string s) = hd s" by (cases s; auto simp: c_string_def)+
  then show ?thesis using False strhash_c_string [of s] by (simp add: lh_strhash_def)
qed

interpretation strings: keyed_table "\<lambda>s. lh_strhash (Some s)" strcmp c_string
  using lh_strhash_c_string by unfold_locales (metis strcmp_eq_0)+

section \<open>The table over its calls\<close>

text \<open>C30: 
  Over every sequence of insertions, deletions and retrievals, with memory for the buckets, a table answers as a map from keys to
  data: a refused node changes nothing. The number of items is the number of keys, the load is at most two per bucket, and a visit
  meets every entry once.
\<close>

theorem lh_refines_map:
  assumes "keyed_table hash cmp key" "lh_new True True hash cmp = Some lh"
    and "calls lh_call cs lh = (answers, lh')" "calls (map_call key) cs Map.empty = (answers', m)"
  shows "answers = answers' \<and> lh_num_items (Some lh') = card (dom m) \<and> lh_num_items (Some lh') \<le> 2 * num_nodes lh'
    \<and> set (lh_visited lh') = ran m \<and> distinct (map key (lh_visited lh')) \<and> length (lh_visited lh') = card (dom m)"
proof -
  note new = keyed_table.table_ok_new [OF assms(1,2)]
  have "keyed_table.table_ok hash cmp key lh'" "(answers, keyed_table.contents key lh') = (answers', m)"
    using keyed_table.calls_ok [OF assms(1) _ assms(3)] new assms(4) by simp_all
  then show ?thesis
    using keyed_table.visited_ok [OF assms(1), of lh'] keyed_table.table_ok_load(1) [OF assms(1), of lh'] by (simp add: lh_num_items_def)
qed

lemma lh_refines_map_witness:
  "let lh = the (lh_new True True (\<lambda>s. lh_strhash (Some s)) strcmp);
       cs = [Insert True ''tube'', Insert False ''coin'', Insert True ''tube'', Delete ''tube'', Retrieve ''tube'']
   in fst (calls lh_call cs lh) = [None, None, Some ''tube'', Some ''tube'', None] \<and> lh_visited (snd (calls lh_call cs lh)) = []"
proof -
  define lh where "lh = the (lh_new True True (\<lambda>s. lh_strhash (Some s)) strcmp)"
  let ?cs = "[Insert True ''tube'', Insert False ''coin'', Insert True ''tube'', Delete ''tube'', Retrieve ''tube'']"
  obtain answers lh' where run: "calls lh_call ?cs lh = (answers, lh')" by fastforce
  have map: "calls (map_call c_string) ?cs Map.empty = ([None, None, Some ''tube'', Some ''tube'', None], Map.empty)"
    by (simp add: c_string_def)
  have "answers = [None, None, Some ''tube'', Some ''tube'', None] \<and> length (lh_visited lh') = card (dom (Map.empty :: string \<rightharpoonup> string))"
    using lh_refines_map [OF strings.keyed_table_axioms _ run map] by (simp add: lh_def lh_new_def)
  then show ?thesis using run by (simp add: lh_def)
qed

text \<open>A table of the numbers below 30, each its own hash, which is filled in steps.\<close>

definition numbers_table :: "nat \<Rightarrow> nat \<Rightarrow> nat \<Rightarrow> nat list list \<Rightarrow> nat lhash" where
  "numbers_table nodes p items css = \<lparr>buckets = map (map (\<lambda>d. \<lparr>node_data = d, node_hash = of_nat d\<rparr>)) css, lh_comp = \<lambda>x y. int x - int y,
     lh_hash = of_nat, num_nodes = nodes, num_alloc_nodes = 16, split_at_p = p, pmax = 8, up_load = 512, down_load = 256, num_items = items, lh_error = 0\<rparr>"

lemma replicate_16: "replicate 16 x = [x, x, x, x, x, x, x, x, x, x, x, x, x, x, x, x]"
  by (simp add: numeral_eq_Suc)

lemma calls_append: "snd (calls c (as @ bs) s) = snd (calls c bs (snd (calls c as s)))"
  by (induction as arbitrary: s) (simp_all add: Let_def case_prod_beta)

lemmas numbers_eval = lh_insert_def getrn_def bucket_of_def Let_def LH_LOAD_MULT_def expand_def numbers_table_def

lemma numbers_new: "lh_new True True (of_nat :: nat \<Rightarrow> u64) (\<lambda>x y. int x - int y) = Some (numbers_table 8 0 0 [[], [], [], [], [], [], [], [], [], [], [], [], [], [], [], []])"
  by (simp add: lh_new_def MIN_NODES_def LH_LOAD_MULT_def replicate_16 numbers_table_def)

lemma numbers_8: "snd (calls lh_call (map (Insert True) [0, 1, 2, 3, 4, 5, 6, 7]) (numbers_table 8 0 0 [[], [], [], [], [], [], [], [], [], [], [], [], [], [], [], []]))
    = (numbers_table 8 0 8 [[0], [1], [2], [3], [4], [5], [6], [7], [], [], [], [], [], [], [], []])"
  by (simp add: numbers_eval)

lemma numbers_16: "snd (calls lh_call (map (Insert True) [8, 9, 10, 11, 12, 13, 14, 15]) (numbers_table 8 0 8 [[0], [1], [2], [3], [4], [5], [6], [7], [], [], [], [], [], [], [], []]))
    = (numbers_table 8 0 16 [[0, 8], [1, 9], [2, 10], [3, 11], [4, 12], [5, 13], [6, 14], [7, 15], [], [], [], [], [], [], [], []])"
  by (simp add: numbers_eval)

lemma numbers_20: "snd (calls lh_call (map (Insert True) [16, 17, 18, 19]) (numbers_table 8 0 16 [[0, 8], [1, 9], [2, 10], [3, 11], [4, 12], [5, 13], [6, 14], [7, 15], [], [], [], [], [], [], [], []]))
    = (numbers_table 10 2 20 [[0, 16], [1, 17], [2, 10, 18], [3, 11, 19], [4, 12], [5, 13], [6, 14], [7, 15], [8], [9], [], [], [], [], [], []])"
  by (simp add: numbers_eval)

lemma numbers_24: "snd (calls lh_call (map (Insert True) [20, 21, 22, 23]) (numbers_table 10 2 20 [[0, 16], [1, 17], [2, 10, 18], [3, 11, 19], [4, 12], [5, 13], [6, 14], [7, 15], [8], [9], [], [], [], [], [], []]))
    = (numbers_table 12 4 24 [[0, 16], [1, 17], [2, 18], [3, 19], [4, 12, 20], [5, 13, 21], [6, 14, 22], [7, 15, 23], [8], [9], [10], [11], [], [], [], []])"
  by (simp add: numbers_eval)

lemma numbers_27: "snd (calls lh_call (map (Insert True) [24, 25, 26]) (numbers_table 12 4 24 [[0, 16], [1, 17], [2, 18], [3, 19], [4, 12, 20], [5, 13, 21], [6, 14, 22], [7, 15, 23], [8], [9], [10], [11], [], [], [], []]))
    = (numbers_table 14 6 27 [[0, 16], [1, 17], [2, 18], [3, 19], [4, 20], [5, 21], [6, 14, 22], [7, 15, 23], [8, 24], [9, 25], [10, 26], [11], [12], [13], [], []])"
  by (simp add: numbers_eval)

lemma numbers_30: "snd (calls lh_call (map (Insert True) [27, 28, 29]) (numbers_table 14 6 27 [[0, 16], [1, 17], [2, 18], [3, 19], [4, 20], [5, 21], [6, 14, 22], [7, 15, 23], [8, 24], [9, 25], [10, 26], [11], [12], [13], [], []]))
    = (numbers_table 15 7 30 [[0, 16], [1, 17], [2, 18], [3, 19], [4, 20], [5, 21], [6, 22], [7, 15, 23], [8, 24], [9, 25], [10, 26], [11, 27], [12, 28], [13, 29], [14], []])"
  by (simp add: numbers_eval)

lemma numbers_all: "snd (calls lh_call (map (Insert True) [0..<30]) (numbers_table 8 0 0 [[], [], [], [], [], [], [], [], [], [], [], [], [], [], [], []]))
    = (numbers_table 15 7 30 [[0, 16], [1, 17], [2, 18], [3, 19], [4, 20], [5, 21], [6, 22], [7, 15, 23], [8, 24], [9, 25], [10, 26], [11, 27], [12, 28], [13, 29], [14], []])"
proof -
  have "map (Insert True) [0..<30] = map (Insert True) [0, 1, 2, 3, 4, 5, 6, 7] @ map (Insert True) [8, 9, 10, 11, 12, 13, 14, 15] @ map (Insert True) [16, 17, 18, 19] @ map (Insert True) [20, 21, 22, 23] @ map (Insert True) [24, 25, 26] @ map (Insert True) [27, 28, 29]"
    by code_simp
  then show ?thesis by (simp only: calls_append numbers_8 numbers_16 numbers_20 numbers_24 numbers_27 numbers_30)
qed

lemma numbers_map: "snd (calls (map_call (\<lambda>d. d)) (map (Insert True) ds) m) = (\<lambda>d. if d \<in> set ds then Some d else m d)"
  by (induction ds arbitrary: m) (auto simp: Let_def case_prod_beta)

text \<open>C31: 
  When the memory for more buckets cannot be had, the split that has just been made is forgotten (\<open>p\<close> goes back to 0), and no
  datum whose hash lies in the upper half is found again; when the memory for fewer buckets cannot be had, the chain of the last
  bucket is lost. All other data are found as before.
\<close>

theorem failed_realloc_loses:
  assumes "keyed_table hash cmp key" "lh_new True True hash cmp = Some lh"
    and "calls lh_call cs lh = (answers, lh')" "calls (map_call key) cs Map.empty = (answers', m)"
  shows "(split_at_p lh' + 1 = pmax lh' \<longrightarrow>
      fst (lh_retrieve (expand False lh') d) = (if pmax lh' \<le> unat (hash d) mod num_alloc_nodes lh' then None else m (key d)))
    \<and> (split_at_p lh' = 0 \<longrightarrow>
      fst (lh_retrieve (contract False lh') d) = (if unat (hash d) mod pmax lh' = pmax lh' - 1 then None else m (key d)))"
proof -
  have "keyed_table.table_ok hash cmp key lh'" "keyed_table.contents key lh' = m"
    using keyed_table.calls_ok [OF assms(1) _ assms(3)] keyed_table.table_ok_new [OF assms(1,2)] assms(4) by simp_all
  then show ?thesis
    using keyed_table.failed_expand [OF assms(1), of lh' d] keyed_table.failed_contract [OF assms(1), of lh' d] by simp
qed

text \<open>Thirty numbers: the next insertion splits the last of the eight buckets.\<close>

lemma failed_realloc_loses_witness:
  "let lh = the (lh_new True True (of_nat :: nat \<Rightarrow> u64) (\<lambda>x y. int x - int y));
       lh' = snd (calls lh_call (map (Insert True) [0..<30]) lh)
   in fst (lh_retrieve lh' 12) = Some 12 \<and> fst (lh_retrieve (expand False lh') 12) = None \<and> fst (lh_retrieve (expand False lh') 3) = Some 3"
proof -
  define lh :: "nat lhash" where "lh = (numbers_table 8 0 0 [[], [], [], [], [], [], [], [], [], [], [], [], [], [], [], []])"
  let ?cs = "map (Insert True) [0..<30]"
  obtain answers lh' where run: "calls lh_call ?cs lh = (answers, lh')" by fastforce
  obtain answers' m where map: "calls (map_call (\<lambda>d. d)) ?cs Map.empty = (answers', m)" by fastforce
  have k: "keyed_table (of_nat :: nat \<Rightarrow> u64) (\<lambda>x y. int x - int y) (\<lambda>d. d)" by unfold_locales simp_all
  have new: "lh_new True True (of_nat :: nat \<Rightarrow> u64) (\<lambda>x y. int x - int y) = Some lh" by (simp only: lh_def numbers_new)
  have lh': "lh' = (numbers_table 15 7 30 [[0, 16], [1, 17], [2, 18], [3, 19], [4, 20], [5, 21], [6, 22], [7, 15, 23], [8, 24], [9, 25], [10, 26], [11, 27], [12, 28], [13, 29], [14], []])"
    using numbers_all run unfolding lh_def by simp
  have at: "split_at_p lh' = 7" "pmax lh' = 8" "num_alloc_nodes lh' = 16" "fst (lh_retrieve lh' 12) = Some 12"
    by (simp_all add: lh' numbers_table_def lh_retrieve_def getrn_def bucket_of_def)
  have m: "m 3 = Some 3" using numbers_map [of "[0..<30]" Map.empty] map by simp
  show ?thesis
    using failed_realloc_loses [OF k new run map, of 12] failed_realloc_loses [OF k new run map, of 3] run m at new
    by (simp add: Let_def)
qed

end
