(* ===== verification/PointerStack.thy ===== *)
theory PointerStack
  imports HashTable
begin

text \<open>
  The stacks of OpenSSL (\<open>crypto/stack/stack.c\<close>), arrays of pointers that grow, with the binary search of
  \<open>crypto/objects/obj_dat.c\<close>: that they are lists, that their searches find the first match, what the mark for a sorted stack promises, and copies.
  Pointers are options, \<open>None\<close> is the null pointer. A comparison function is the name under which the pointer to it is known, and
  \<open>cmps\<close> gives its results; \<open>qsort\<close> is that of the C library. Sizes are natural numbers: the array is bounded by the memory.
\<close>

section \<open>The stack\<close>

type_synonym 'd ptr = "'d option"

record ('d, 'f) stack =
  s_num :: nat
  s_data :: "'d ptr list"
  s_sorted :: bool
  s_num_alloc :: nat
  s_comp :: "'f option"

definition STACK_MIN_NODES :: nat where "STACK_MIN_NODES = 4"

text \<open>The array after a reallocation: \<open>cells\<close> is what the new cells hold, \<open>None\<close> that there is no memory.\<close>

definition reallocate :: "(nat \<Rightarrow> 'd ptr) option \<Rightarrow> nat \<Rightarrow> 'd ptr list \<Rightarrow> 'd ptr list option" where
  "reallocate cells n xs = map_option (\<lambda>cells. take n xs @ map cells [length xs..<n]) cells"

definition sk_new :: "bool \<Rightarrow> bool \<Rightarrow> 'f option \<Rightarrow> ('d, 'f) stack option" where
  "sk_new stack_mem data_mem c =
     (if \<not> stack_mem \<or> \<not> data_mem then None
      else Some \<lparr>s_num = 0, s_data = replicate STACK_MIN_NODES None, s_sorted = False, s_num_alloc = STACK_MIN_NODES, s_comp = c\<rparr>)"

definition sk_set_cmp_func :: "('d, 'f) stack \<Rightarrow> 'f option \<Rightarrow> 'f option \<times> ('d, 'f) stack" where
  "sk_set_cmp_func sk c =
     (let old = s_comp sk;
          sk = (if s_comp sk \<noteq> c then sk\<lparr>s_sorted := False\<rparr> else sk)
      in (old, sk\<lparr>s_comp := c\<rparr>))"

section \<open>Insertion and deletion\<close>

text \<open>The loop that makes room: from \<open>i\<close> down to \<open>loc\<close>, every cell goes one up.\<close>

fun shift_up :: "nat \<Rightarrow> nat \<Rightarrow> 'a list \<Rightarrow> 'a list" where
  "shift_up loc 0 f = (if loc \<le> 0 then f[1 := f ! 0] else f)"
| "shift_up loc (Suc i) f = (if loc \<le> Suc i then shift_up loc i (f[Suc (Suc i) := f ! Suc i]) else f)"

definition sk_insert :: "(nat \<Rightarrow> 'd ptr) option \<Rightarrow> ('d, 'f) stack \<Rightarrow> 'd ptr \<Rightarrow> int \<Rightarrow> int \<times> ('d, 'f) stack" where
  "sk_insert cells st d loc =
     (case (if s_num_alloc st \<le> s_num st + 1
            then map_option (\<lambda>s. st\<lparr>s_data := s, s_num_alloc := s_num_alloc st * 2\<rparr>) (reallocate cells (s_num_alloc st * 2) (s_data st))
            else Some st) of
        None \<Rightarrow> (0, st)
      | Some st \<Rightarrow>
          let xs = (if loc \<ge> int (s_num st) \<or> loc < 0 then (s_data st)[s_num st := d]
                    else (shift_up (nat loc) (s_num st) (s_data st))[nat loc := d])
          in (int (s_num st + 1), st\<lparr>s_data := xs, s_num := s_num st + 1, s_sorted := False\<rparr>))"

text \<open>The loop that closes the gap: from \<open>i\<close> up to \<open>j\<close>, every cell takes the next.\<close>

function shift_down :: "nat \<Rightarrow> nat \<Rightarrow> 'a list \<Rightarrow> 'a list" where
  "shift_down i j f = (if i < j then shift_down (i + 1) j (f[i := f ! (i + 1)]) else f)"
  by auto
termination by (relation "measure (\<lambda>(i, j, f). j - i)") auto

definition sk_delete :: "('d, 'f) stack \<Rightarrow> int \<Rightarrow> 'd ptr \<times> ('d, 'f) stack" where
  "sk_delete st loc =
     (if loc < 0 \<or> loc \<ge> int (s_num st) then (None, st)
      else
        let ret = s_data st ! nat loc;
            xs = (if nat loc \<noteq> s_num st - 1 then shift_down (nat loc) (s_num st - 1) (s_data st) else s_data st)
        in (ret, st\<lparr>s_data := xs, s_num := s_num st - 1\<rparr>))"

text \<open>The loops that look for a pointer, over the cells in use.\<close>

fun first_ptr :: "'d ptr \<Rightarrow> nat \<Rightarrow> 'd ptr list \<Rightarrow> nat option" where
  "first_ptr p i [] = None"
| "first_ptr p i (x # xs) = (if x = p then Some i else first_ptr p (i + 1) xs)"

definition sk_delete_ptr :: "('d, 'f) stack \<Rightarrow> 'd ptr \<Rightarrow> 'd ptr \<times> ('d, 'f) stack" where
  "sk_delete_ptr st p =
     (case first_ptr p 0 (take (s_num st) (s_data st)) of
        Some i \<Rightarrow> sk_delete st (int i)
      | None \<Rightarrow> (None, st))"

definition sk_push :: "(nat \<Rightarrow> 'd ptr) option \<Rightarrow> ('d, 'f) stack \<Rightarrow> 'd ptr \<Rightarrow> int \<times> ('d, 'f) stack" where
  "sk_push cells st d = sk_insert cells st d (int (s_num st))"

definition sk_unshift :: "(nat \<Rightarrow> 'd ptr) option \<Rightarrow> ('d, 'f) stack \<Rightarrow> 'd ptr \<Rightarrow> int \<times> ('d, 'f) stack" where
  "sk_unshift cells st d = sk_insert cells st d 0"

definition sk_shift :: "('d, 'f) stack \<Rightarrow> 'd ptr \<times> ('d, 'f) stack" where
  "sk_shift st = (if s_num st \<le> 0 then (None, st) else sk_delete st 0)"

definition sk_pop :: "('d, 'f) stack \<Rightarrow> 'd ptr \<times> ('d, 'f) stack" where
  "sk_pop st = (if s_num st \<le> 0 then (None, st) else sk_delete st (int (s_num st) - 1))"

definition sk_zero :: "('d, 'f) stack \<Rightarrow> ('d, 'f) stack" where
  "sk_zero st =
     (if s_num st \<le> 0 then st
      else st\<lparr>s_data := replicate (s_num st) None @ drop (s_num st) (s_data st), s_num := 0\<rparr>)"

definition sk_num :: "('d, 'f) stack option \<Rightarrow> int" where
  "sk_num st = (case st of None \<Rightarrow> - 1 | Some st \<Rightarrow> int (s_num st))"

definition sk_value :: "('d, 'f) stack option \<Rightarrow> int \<Rightarrow> 'd ptr" where
  "sk_value st i =
     (case st of
        None \<Rightarrow> None
      | Some st \<Rightarrow> if i < 0 \<or> i \<ge> int (s_num st) then None else s_data st ! nat i)"

definition sk_set :: "('d, 'f) stack \<Rightarrow> int \<Rightarrow> 'd ptr \<Rightarrow> 'd ptr \<times> ('d, 'f) stack" where
  "sk_set st i d =
     (if i < 0 \<or> i \<ge> int (s_num st) then (None, st)
      else (d, st\<lparr>s_data := (s_data st)[nat i := d]\<rparr>))"

text \<open>The pointers that \<open>sk_pop_free\<close> hands to its function, in order, before the stack is given back.\<close>

definition sk_pop_free :: "('d, 'f) stack option \<Rightarrow> 'd list" where
  "sk_pop_free st =
     (case st of
        None \<Rightarrow> []
      | Some st \<Rightarrow> map the (filter (\<lambda>p. p \<noteq> None) (take (s_num st) (s_data st))))"

section \<open>Searching\<close>

definition OBJ_BSEARCH_VALUE_ON_NOMATCH :: int where "OBJ_BSEARCH_VALUE_ON_NOMATCH = 1"
definition OBJ_BSEARCH_FIRST_VALUE_ON_MATCH :: int where "OBJ_BSEARCH_FIRST_VALUE_ON_MATCH = 2"

function bsearch_loop :: "('a \<Rightarrow> 'a \<Rightarrow> int) \<Rightarrow> 'a \<Rightarrow> 'a list \<Rightarrow> nat \<Rightarrow> nat \<Rightarrow> nat \<Rightarrow> int \<Rightarrow> nat \<times> int" where
  "bsearch_loop cmp key base l h i c =
     (if l < h
      then let i = (l + h) div 2; c = cmp key (base ! i)
           in if c < 0 then bsearch_loop cmp key base l i i c
              else if c > 0 then bsearch_loop cmp key base (i + 1) h i c
              else (i, c)
      else (i, c))"
  by auto
termination by (relation "measure (\<lambda>(cmp, key, base, l, h, i, c). h - l)") auto

declare bsearch_loop.simps [simp del] shift_down.simps [simp del]

fun first_match :: "('a \<Rightarrow> 'a \<Rightarrow> int) \<Rightarrow> 'a \<Rightarrow> 'a list \<Rightarrow> nat \<Rightarrow> nat" where
  "first_match cmp key base 0 = 0"
| "first_match cmp key base (Suc i) = (if cmp key (base ! i) = 0 then first_match cmp key base i else Suc i)"

definition OBJ_bsearch_ex :: "'a \<Rightarrow> 'a list \<Rightarrow> nat \<Rightarrow> ('a \<Rightarrow> 'a \<Rightarrow> int) \<Rightarrow> int \<Rightarrow> nat option" where
  "OBJ_bsearch_ex key base n cmp flags =
     (if n = 0 then None
      else
        let (i, c) = bsearch_loop cmp key base 0 n 0 0
        in if c \<noteq> 0 \<and> flags AND OBJ_BSEARCH_VALUE_ON_NOMATCH = 0 then None
           else if c = 0 \<and> flags AND OBJ_BSEARCH_FIRST_VALUE_ON_MATCH \<noteq> 0 then Some (first_match cmp key base i)
           else Some i)"

definition sk_sort ::
  "('f \<Rightarrow> 'd ptr \<Rightarrow> 'd ptr \<Rightarrow> int) \<Rightarrow> (('d ptr \<Rightarrow> 'd ptr \<Rightarrow> int) \<Rightarrow> 'd ptr list \<Rightarrow> 'd ptr list) \<Rightarrow> ('d, 'f) stack \<Rightarrow> ('d, 'f) stack"
where
  "sk_sort cmps qsort st =
     (case s_comp st of
        Some f \<Rightarrow>
          if \<not> s_sorted st
          then st\<lparr>s_data := qsort (cmps f) (take (s_num st) (s_data st)) @ drop (s_num st) (s_data st), s_sorted := True\<rparr>
          else st
      | None \<Rightarrow> st)"

definition internal_find ::
  "('f \<Rightarrow> 'd ptr \<Rightarrow> 'd ptr \<Rightarrow> int) \<Rightarrow> (('d ptr \<Rightarrow> 'd ptr \<Rightarrow> int) \<Rightarrow> 'd ptr list \<Rightarrow> 'd ptr list)
     \<Rightarrow> ('d, 'f) stack \<Rightarrow> 'd ptr \<Rightarrow> int \<Rightarrow> int \<times> ('d, 'f) stack"
where
  "internal_find cmps qsort st d ret_val_options =
     (case s_comp st of
        None \<Rightarrow> ((case first_ptr d 0 (take (s_num st) (s_data st)) of Some i \<Rightarrow> int i | None \<Rightarrow> - 1), st)
      | Some f \<Rightarrow>
          let st = sk_sort cmps qsort st
          in if d = None then (- 1, st)
             else (case OBJ_bsearch_ex d (s_data st) (s_num st) (cmps f) ret_val_options of
                     None \<Rightarrow> (- 1, st)
                   | Some r \<Rightarrow> (int r, st)))"

definition sk_find where
  "sk_find cmps qsort st d = internal_find cmps qsort st d OBJ_BSEARCH_FIRST_VALUE_ON_MATCH"

definition sk_find_ex where
  "sk_find_ex cmps qsort st d = internal_find cmps qsort st d OBJ_BSEARCH_VALUE_ON_NOMATCH"

definition sk_is_sorted :: "('d, 'f) stack option \<Rightarrow> bool" where
  "sk_is_sorted st = (case st of None \<Rightarrow> True | Some st \<Rightarrow> s_sorted st)"

section \<open>Copies\<close>

definition sk_dup :: "bool \<Rightarrow> bool \<Rightarrow> (nat \<Rightarrow> 'd ptr) option \<Rightarrow> ('d, 'f) stack \<Rightarrow> ('d, 'f) stack option" where
  "sk_dup stack_mem data_mem cells sk =
     (case sk_new stack_mem data_mem (s_comp sk) of
        None \<Rightarrow> None
      | Some ret \<Rightarrow>
          case reallocate cells (s_num_alloc sk) (s_data ret) of
            None \<Rightarrow> None
          | Some s \<Rightarrow>
              Some (ret\<lparr>s_data := take (s_num sk) (s_data sk) @ drop (s_num sk) s, s_num := s_num sk, s_sorted := s_sorted sk,
                       s_num_alloc := s_num_alloc sk, s_comp := s_comp sk\<rparr>))"

text \<open>What is handed to \<open>free_func\<close> after the copy of cell \<open>i\<close> has failed.\<close>

fun freed_copies :: "nat \<Rightarrow> 'd ptr list \<Rightarrow> 'd list" where
  "freed_copies 0 xs = []"
| "freed_copies (Suc i) xs = (case xs ! i of None \<Rightarrow> freed_copies i xs | Some y \<Rightarrow> y # freed_copies i xs)"

text \<open>The loop over the cells from \<open>i\<close>: the copies, or what is freed when there is none of one.\<close>

function copy_cells :: "('d \<Rightarrow> 'd ptr) \<Rightarrow> nat \<Rightarrow> nat \<Rightarrow> 'd ptr list \<Rightarrow> 'd ptr list \<Rightarrow> 'd list + 'd ptr list" where
  "copy_cells copy_func n i src dst =
     (if i < n
      then case src ! i of
             None \<Rightarrow> copy_cells copy_func n (i + 1) src dst
           | Some x \<Rightarrow>
               let dst = dst[i := copy_func x]
               in if dst ! i = None then Inl (freed_copies i dst)
                  else copy_cells copy_func n (i + 1) src dst
      else Inr dst)"
  by pat_completeness auto
termination by (relation "measure (\<lambda>(c, n, i, src, dst). n - i)") auto

declare copy_cells.simps [simp del]

definition sk_deep_copy :: "bool \<Rightarrow> bool \<Rightarrow> ('d \<Rightarrow> 'd ptr) \<Rightarrow> ('d, 'f) stack \<Rightarrow> ('d, 'f) stack option \<times> 'd list" where
  "sk_deep_copy stack_mem data_mem copy_func sk =
     (if \<not> stack_mem \<or> \<not> data_mem then (None, [])
      else
        let n = (if s_num sk > STACK_MIN_NODES then s_num sk else STACK_MIN_NODES)
        in case copy_cells copy_func (s_num sk) 0 (s_data sk) (replicate n None) of
             Inl freed \<Rightarrow> (None, freed)
           | Inr xs \<Rightarrow> (Some \<lparr>s_num = s_num sk, s_data = xs, s_sorted = s_sorted sk, s_num_alloc = n, s_comp = s_comp sk\<rparr>, []))"

section \<open>Sequences of calls\<close>

datatype ('d, 'f) sk_op =
    Sk_insert "(nat \<Rightarrow> 'd ptr) option" "'d ptr" int | Sk_push "(nat \<Rightarrow> 'd ptr) option" "'d ptr" | Sk_unshift "(nat \<Rightarrow> 'd ptr) option" "'d ptr"
  | Sk_delete int | Sk_delete_ptr "'d ptr" | Sk_shift | Sk_pop | Sk_zero | Sk_num | Sk_value int | Sk_set int "'d ptr"
  | Sk_find "'d ptr" | Sk_find_ex "'d ptr" | Sk_sort | Sk_is_sorted | Sk_set_cmp "'f option"

datatype ('d, 'f) sk_answer = Number int | Pointer "'d ptr" | Comparison "'f option" | Flag bool | Nothing

fun sk_call where
  "sk_call cmps qsort (Sk_insert cells d loc) st = map_prod Number id (sk_insert cells st d loc)"
| "sk_call cmps qsort (Sk_push cells d) st = map_prod Number id (sk_push cells st d)"
| "sk_call cmps qsort (Sk_unshift cells d) st = map_prod Number id (sk_unshift cells st d)"
| "sk_call cmps qsort (Sk_delete loc) st = map_prod Pointer id (sk_delete st loc)"
| "sk_call cmps qsort (Sk_delete_ptr p) st = map_prod Pointer id (sk_delete_ptr st p)"
| "sk_call cmps qsort Sk_shift st = map_prod Pointer id (sk_shift st)"
| "sk_call cmps qsort Sk_pop st = map_prod Pointer id (sk_pop st)"
| "sk_call cmps qsort Sk_zero st = (Nothing, sk_zero st)"
| "sk_call cmps qsort Sk_num st = (Number (sk_num (Some st)), st)"
| "sk_call cmps qsort (Sk_value i) st = (Pointer (sk_value (Some st) i), st)"
| "sk_call cmps qsort (Sk_set i d) st = map_prod Pointer id (sk_set st i d)"
| "sk_call cmps qsort (Sk_find d) st = map_prod Number id (sk_find cmps qsort st d)"
| "sk_call cmps qsort (Sk_find_ex d) st = map_prod Number id (sk_find_ex cmps qsort st d)"
| "sk_call cmps qsort Sk_sort st = (Nothing, sk_sort cmps qsort st)"
| "sk_call cmps qsort Sk_is_sorted st = (Flag (sk_is_sorted (Some st)), st)"
| "sk_call cmps qsort (Sk_set_cmp c) st = map_prod Comparison id (sk_set_cmp_func st c)"

text \<open>The answers when the stack is a null pointer; \<open>None\<close> where the code reads through it.\<close>

fun sk_null :: "('d, 'f) sk_op \<Rightarrow> ('d, 'f) sk_answer option" where
  "sk_null (Sk_insert cells d loc) = Some (Number 0)"
| "sk_null (Sk_push cells d) = None"
| "sk_null (Sk_unshift cells d) = Some (Number 0)"
| "sk_null (Sk_delete loc) = Some (Pointer None)"
| "sk_null (Sk_delete_ptr p) = None"
| "sk_null Sk_shift = Some (Pointer None)"
| "sk_null Sk_pop = Some (Pointer None)"
| "sk_null Sk_zero = Some Nothing"
| "sk_null Sk_num = Some (Number (- 1))"
| "sk_null (Sk_value i) = Some (Pointer None)"
| "sk_null (Sk_set i d) = Some (Pointer None)"
| "sk_null (Sk_find d) = Some (Number (- 1))"
| "sk_null (Sk_find_ex d) = Some (Number (- 1))"
| "sk_null Sk_sort = Some Nothing"
| "sk_null Sk_is_sorted = Some (Flag True)"
| "sk_null (Sk_set_cmp c) = None"

text \<open>The list that a stack stands for, with the room that it has been given.\<close>

record ('d, 'f) pointer_list =
  l_items :: "'d ptr list"
  l_room :: nat
  l_sorted :: bool
  l_comp :: "'f option"

definition list_insert :: "(nat \<Rightarrow> 'd ptr) option \<Rightarrow> ('d ptr list \<Rightarrow> 'd ptr list) \<Rightarrow> ('d, 'f) pointer_list \<Rightarrow> int \<times> ('d, 'f) pointer_list" where
  "list_insert cells ins l =
     (let full = l_room l \<le> length (l_items l) + 1
      in if full \<and> cells = None then (0, l)
         else (int (length (l_items l)) + 1,
               l\<lparr>l_items := ins (l_items l), l_room := (if full then 2 * l_room l else l_room l), l_sorted := False\<rparr>))"

definition list_take :: "bool \<Rightarrow> nat \<Rightarrow> ('d, 'f) pointer_list \<Rightarrow> 'd ptr \<times> ('d, 'f) pointer_list" where
  "list_take here i l =
     (if here \<and> i < length (l_items l) then (l_items l ! i, l\<lparr>l_items := take i (l_items l) @ drop (i + 1) (l_items l)\<rparr>) else (None, l))"

definition list_sort where
  "list_sort cmps qsort l =
     (case l_comp l of
        Some f \<Rightarrow> if l_sorted l then l else l\<lparr>l_items := qsort (cmps f) (l_items l), l_sorted := True\<rparr>
      | None \<Rightarrow> l)"

definition list_find where
  "list_find cmps qsort l d flags =
     (case l_comp l of
        None \<Rightarrow> ((case first_ptr d 0 (l_items l) of Some i \<Rightarrow> int i | None \<Rightarrow> - 1), l)
      | Some f \<Rightarrow>
          let l = list_sort cmps qsort l
          in ((case OBJ_bsearch_ex d (l_items l) (length (l_items l)) (cmps f) flags of
                 Some r \<Rightarrow> if d = None then - 1 else int r
               | None \<Rightarrow> - 1), l))"

fun list_call where
  "list_call cmps qsort (Sk_insert cells d loc) l =
     map_prod Number id (list_insert cells
       (\<lambda>xs. if 0 \<le> loc \<and> loc < int (length xs) then take (nat loc) xs @ d # drop (nat loc) xs else xs @ [d]) l)"
| "list_call cmps qsort (Sk_push cells d) l = map_prod Number id (list_insert cells (\<lambda>xs. xs @ [d]) l)"
| "list_call cmps qsort (Sk_unshift cells d) l = map_prod Number id (list_insert cells (\<lambda>xs. d # xs) l)"
| "list_call cmps qsort (Sk_delete loc) l = map_prod Pointer id (list_take (0 \<le> loc) (nat loc) l)"
| "list_call cmps qsort (Sk_delete_ptr p) l =
     (if p \<in> set (l_items l) then (Pointer p, l\<lparr>l_items := remove1 p (l_items l)\<rparr>) else (Pointer None, l))"
| "list_call cmps qsort Sk_shift l = map_prod Pointer id (list_take True 0 l)"
| "list_call cmps qsort Sk_pop l =
     (if l_items l = [] then (Pointer None, l) else (Pointer (last (l_items l)), l\<lparr>l_items := butlast (l_items l)\<rparr>))"
| "list_call cmps qsort Sk_zero l = (Nothing, l\<lparr>l_items := []\<rparr>)"
| "list_call cmps qsort Sk_num l = (Number (int (length (l_items l))), l)"
| "list_call cmps qsort (Sk_value i) l = (Pointer (if 0 \<le> i \<and> i < int (length (l_items l)) then l_items l ! nat i else None), l)"
| "list_call cmps qsort (Sk_set i d) l =
     (if 0 \<le> i \<and> i < int (length (l_items l)) then (Pointer d, l\<lparr>l_items := (l_items l)[nat i := d]\<rparr>) else (Pointer None, l))"
| "list_call cmps qsort (Sk_find d) l = map_prod Number id (list_find cmps qsort l d OBJ_BSEARCH_FIRST_VALUE_ON_MATCH)"
| "list_call cmps qsort (Sk_find_ex d) l = map_prod Number id (list_find cmps qsort l d OBJ_BSEARCH_VALUE_ON_NOMATCH)"
| "list_call cmps qsort Sk_sort l = (Nothing, list_sort cmps qsort l)"
| "list_call cmps qsort Sk_is_sorted l = (Flag (l_sorted l), l)"
| "list_call cmps qsort (Sk_set_cmp c) l = (Comparison (l_comp l), l\<lparr>l_sorted := (l_sorted l \<and> l_comp l = c), l_comp := c\<rparr>)"

section \<open>A stack is a list\<close>

definition stack_ok :: "('d, 'f) stack \<Rightarrow> bool" where
  "stack_ok st \<longleftrightarrow> s_num st \<le> s_num_alloc st \<and> length (s_data st) = s_num_alloc st \<and> STACK_MIN_NODES \<le> s_num_alloc st"

definition list_of :: "('d, 'f) stack \<Rightarrow> ('d, 'f) pointer_list" where
  "list_of st = \<lparr>l_items = take (s_num st) (s_data st), l_room = s_num_alloc st, l_sorted = s_sorted st, l_comp = s_comp st\<rparr>"

lemma list_of_sel [simp]: "l_items (list_of st) = take (s_num st) (s_data st)" "l_room (list_of st) = s_num_alloc st"
    "l_sorted (list_of st) = s_sorted st" "l_comp (list_of st) = s_comp st"
  by (simp_all add: list_of_def)

lemma stack_ok_dest: "stack_ok st \<Longrightarrow> s_num st \<le> length (s_data st)" "stack_ok st \<Longrightarrow> length (s_data st) = s_num_alloc st"
    "stack_ok st \<Longrightarrow> 4 \<le> s_num_alloc st"
  by (simp_all add: stack_ok_def STACK_MIN_NODES_def)

lemma shift_up_nth:
  "loc \<le> i \<Longrightarrow> i + 1 < length f \<Longrightarrow> length (shift_up loc i f) = length f
     \<and> (\<forall>k<length f. shift_up loc i f ! k = (if loc < k \<and> k \<le> i + 1 then f ! (k - 1) else f ! k))"
proof (induction loc i f rule: shift_up.induct)
  case (2 loc i f)
  show ?case
  proof (cases "loc = Suc i")
    case True
    then have "shift_up loc (Suc i) f = f[Suc (Suc i) := f ! Suc i]" by (cases i) simp_all
    then show ?thesis using 2 True by (auto simp: nth_list_update)
  next
    case False
    have "k \<le> Suc (Suc i) \<longleftrightarrow> k \<le> Suc i \<or> k = Suc (Suc i)" for k by auto
    then show ?thesis using 2 False by (auto simp: nth_list_update)
  qed
qed (auto simp: nth_list_update)

lemma shift_down_nth:
  "j < length f \<Longrightarrow> length (shift_down i j f) = length f
     \<and> (\<forall>k<length f. shift_down i j f ! k = (if i \<le> k \<and> k < j then f ! (k + 1) else f ! k))"
proof (induction i j f rule: shift_down.induct)
  case (1 i j f)
  have "i \<le> k \<longleftrightarrow> Suc i \<le> k \<or> k = i" for k by auto
  then show ?case using 1 by (subst (1 2) shift_down.simps) (auto simp: nth_list_update)
qed

lemma reallocate_Some:
  "length xs \<le> n \<Longrightarrow> reallocate (Some cells) n xs = Some (xs @ map cells [length xs..<n])" "reallocate None n xs = None"
  by (simp_all add: reallocate_def)

text \<open>The insertion, with room for the loop to write one cell beyond the last.\<close>

lemma insert_place:
  assumes "n + 1 < length f" "loc \<le> n"
  shows "take (n + 1) ((shift_up loc n f)[loc := d]) = take loc f @ d # drop loc (take n f)"
proof (rule nth_equalityI)
  note up = shift_up_nth [OF assms(2,1)]
  show "length (take (n + 1) ((shift_up loc n f)[loc := d])) = length (take loc f @ d # drop loc (take n f))" using up assms by simp
  fix k assume "k < length (take (n + 1) ((shift_up loc n f)[loc := d]))"
  then have k: "k < n + 1" by simp
  consider "k < loc" | "k = loc" | k' where "k = Suc k'" "loc \<le> k'" by (cases "k < loc"; cases k) force+
  then show "take (n + 1) ((shift_up loc n f)[loc := d]) ! k = (take loc f @ d # drop loc (take n f)) ! k"
    using up assms k by cases (simp_all add: nth_append Suc_diff_le)
qed

lemma insert_list:
  assumes "stack_ok st" "sk_insert cells st d loc = (r, st')"
  shows "stack_ok st' \<and> list_insert cells
      (\<lambda>xs. if 0 \<le> loc \<and> loc < int (length xs) then take (nat loc) xs @ d # drop (nat loc) xs else xs @ [d]) (list_of st) = (r, list_of st')"
proof -
  note ok = stack_ok_dest [OF assms(1)]
  define st1 where "st1 = (case cells of None \<Rightarrow> None | Some cells \<Rightarrow>
      Some (st\<lparr>s_data := s_data st @ map cells [length (s_data st)..<2 * s_num_alloc st], s_num_alloc := 2 * s_num_alloc st\<rparr>))"
  define st2 where "st2 = (if s_num_alloc st \<le> s_num st + 1 then st1 else Some st)"
  have place: "take (n + 1) (if loc \<ge> int n \<or> loc < 0 then f[n := d] else (shift_up (nat loc) n f)[nat loc := d])
      = (if 0 \<le> loc \<and> loc < int n then take (nat loc) (take n f) @ d # drop (nat loc) (take n f) else take n f @ [d])"
    if "n + 1 < length f" for n f
    using that insert_place [OF that, of "nat loc" d] by (auto simp: take_Suc_conv_app_nth min_def)
  have len: "length (if loc \<ge> int n \<or> loc < 0 then f[n := d] else (shift_up (nat loc) n f)[nat loc := d]) = length f"
    if "n + 1 < length f" for n f
    using that shift_up_nth [of "nat loc" n f] by (cases "loc \<ge> int n \<or> loc < 0") auto
  have "map_option (\<lambda>s. st\<lparr>s_data := s, s_num_alloc := s_num_alloc st * 2\<rparr>) (reallocate cells (s_num_alloc st * 2) (s_data st)) = st1"
    using ok by (cases cells) (simp_all add: st1_def reallocate_def mult.commute)
  then have ins: "sk_insert cells st d loc = (case st2 of
        None \<Rightarrow> (0, st)
      | Some st \<Rightarrow>
          let xs = (if loc \<ge> int (s_num st) \<or> loc < 0 then (s_data st)[s_num st := d]
                    else (shift_up (nat loc) (s_num st) (s_data st))[nat loc := d])
          in (int (s_num st + 1), st\<lparr>s_data := xs, s_num := s_num st + 1, s_sorted := False\<rparr>))"
    by (simp only: sk_insert_def st2_def)
  show ?thesis
  proof (cases st2)
    case None
    then have "s_num_alloc st \<le> s_num st + 1 \<and> cells = None" by (auto simp: st2_def st1_def split: if_splits option.splits)
    then show ?thesis using None ins assms ok by (simp add: list_insert_def)
  next
    case (Some st2')
    then have st2': "s_num st2' = s_num st" "s_num st + 1 < length (s_data st2')" "length (s_data st2') = s_num_alloc st2'"
        "take (s_num st) (s_data st2') = take (s_num st) (s_data st)" "s_comp st2' = s_comp st"
        "s_num_alloc st2' = (if s_num_alloc st \<le> s_num st + 1 then 2 * s_num_alloc st else s_num_alloc st)"
        "\<not> (s_num_alloc st \<le> s_num st + 1 \<and> cells = None)"
      using ok by (auto simp: st2_def st1_def split: if_splits option.splits)
    show ?thesis
      using ins Some assms(2) place [OF st2'(2)] len [OF st2'(2)] st2' ok assms(1)
      by (auto simp: list_insert_def list_of_def stack_ok_def Let_def)
  qed
qed

lemma delete_place:
  assumes "i < n" "n \<le> length f"
  shows "length (if i \<noteq> n - 1 then shift_down i (n - 1) f else f) = length f"
    "take (n - 1) (if i \<noteq> n - 1 then shift_down i (n - 1) f else f) = take i (take n f) @ drop (i + 1) (take n f)"
proof -
  have down: "length (shift_down i (n - 1) f) = length f"
      "k < length f \<Longrightarrow> shift_down i (n - 1) f ! k = (if i \<le> k \<and> k < n - 1 then f ! (k + 1) else f ! k)" for k
    using shift_down_nth [of "n - 1" f i] assms by auto
  then show "length (if i \<noteq> n - 1 then shift_down i (n - 1) f else f) = length f" by simp
  show "take (n - 1) (if i \<noteq> n - 1 then shift_down i (n - 1) f else f) = take i (take n f) @ drop (i + 1) (take n f)"
  proof (cases "i = n - 1")
    case False
    then show ?thesis using down assms by (intro nth_equalityI) (auto simp: nth_append)
  qed (use assms in simp)
qed

lemma delete_list:
  assumes "stack_ok st" "sk_delete st loc = (r, st')"
  shows "stack_ok st' \<and> list_take (0 \<le> loc) (nat loc) (list_of st) = (r, list_of st')"
proof (cases "0 \<le> loc \<and> loc < int (s_num st)")
  case True
  then have "nat loc < s_num st" by auto
  note place = delete_place [OF this stack_ok_dest(1) [OF assms(1)]]
  show ?thesis
    using assms place True stack_ok_dest [OF assms(1)]
    by (auto simp: sk_delete_def list_take_def stack_ok_def list_of_def Let_def)
next
  case False
  then show ?thesis using assms by (auto simp: sk_delete_def list_take_def)
qed

lemma first_ptr_Some:
  "first_ptr p i xs = Some j \<Longrightarrow> i \<le> j \<and> j - i < length xs \<and> xs ! (j - i) = p \<and> remove1 p xs = take (j - i) xs @ drop (j - i + 1) xs
     \<and> (\<forall>k<j - i. xs ! k \<noteq> p)"
proof (induction p i xs rule: first_ptr.induct)
  case (2 p i x xs)
  show ?case
  proof (cases "x = p")
    case False
    then have ih: "i + 1 \<le> j \<and> j - (i + 1) < length xs \<and> xs ! (j - (i + 1)) = p
        \<and> remove1 p xs = take (j - (i + 1)) xs @ drop (j - (i + 1) + 1) xs \<and> (\<forall>k<j - (i + 1). xs ! k \<noteq> p)"
      using 2 by simp
    have "i + 1 \<le> j" using ih by blast
    then have "j - i = Suc (j - (i + 1))" by simp
    then show ?thesis using ih False by (auto simp: less_Suc_eq_0_disj)
  qed (use 2 in auto)
qed simp

lemma first_ptr_None: "first_ptr p i xs = None \<longleftrightarrow> p \<notin> set xs"
  by (induction p i xs rule: first_ptr.induct) auto

lemma delete_ptr_list:
  assumes "stack_ok st" "sk_delete_ptr st p = (r, st')"
  shows "stack_ok st' \<and> list_call cmps qsort (Sk_delete_ptr p) (list_of st) = (Pointer r, list_of st')"
proof (cases "first_ptr p 0 (take (s_num st) (s_data st))")
  case None
  then have "p \<notin> set (take (s_num st) (s_data st))" by (simp add: first_ptr_None)
  then show ?thesis using assms None by (auto simp: sk_delete_ptr_def)
next
  case (Some i)
  then have "p \<in> set (take (s_num st) (s_data st))" using first_ptr_None [of p 0] by (metis option.distinct(1))
  then show ?thesis
    using delete_list [OF assms(1), of "int i" r st'] Some assms(2) first_ptr_Some [OF Some]
    by (auto simp: sk_delete_ptr_def list_take_def list_of_def)
qed

lemma pop_list:
  assumes "stack_ok st" "sk_pop st = (r, st')"
  shows "stack_ok st' \<and> list_call cmps qsort Sk_pop (list_of st) = (Pointer r, list_of st')"
proof (cases "s_num st = 0")
  case False
  then obtain n where n: "s_num st = Suc n" by (cases "s_num st") auto
  have "n < length (s_data st)" using stack_ok_dest(1) [OF assms(1)] n by simp
  then have "take (s_num st) (s_data st) = take n (s_data st) @ [s_data st ! n]" by (simp only: n take_Suc_conv_app_nth)
  moreover have "sk_delete st (int n) = (r, st')" using assms(2) n by (simp add: sk_pop_def)
  ultimately show ?thesis
    using delete_list [OF assms(1), of "int n" r st'] n \<open>n < length (s_data st)\<close>
    by (auto simp: list_take_def list_of_def nth_append min_def)
qed (use assms in \<open>auto simp: sk_pop_def\<close>)

lemma shift_list:
  assumes "stack_ok st" "sk_shift st = (r, st')"
  shows "stack_ok st' \<and> list_call cmps qsort Sk_shift (list_of st) = (Pointer r, list_of st')"
  using delete_list [OF assms(1), of 0 r st'] assms by (cases "s_num st = 0") (auto simp: sk_shift_def list_take_def)

text \<open>The search reads the cells in use only.\<close>

lemma bsearch_loop_take:
  "h \<le> n \<Longrightarrow> n \<le> length f \<Longrightarrow> bsearch_loop cmp key (take n f) l h i c = bsearch_loop cmp key f l h i c"
proof (induction cmp key f l h i c rule: bsearch_loop.induct)
  case (1 cmp key f l h i c)
  then show ?case by (subst (1 2) bsearch_loop.simps) (simp add: Let_def)
qed

lemma bsearch_loop_bound: "i < n \<Longrightarrow> h \<le> n \<Longrightarrow> fst (bsearch_loop cmp key f l h i c) < n"
proof (induction cmp key f l h i c rule: bsearch_loop.induct)
  case (1 cmp key f l h i c)
  have "(l + h) div 2 < n" if "l < h" using that 1(4) by linarith
  then show ?case using 1 by (subst bsearch_loop.simps) (simp add: Let_def)
qed

lemma first_match_take: "i \<le> n \<Longrightarrow> first_match cmp key (take n f) i = first_match cmp key f i"
  by (induction i) simp_all

lemma bsearch_take: "n \<le> length f \<Longrightarrow> OBJ_bsearch_ex key (take n f) n cmp flags = OBJ_bsearch_ex key f n cmp flags"
  using bsearch_loop_bound [of 0 n n cmp key f 0 0]
  by (auto simp: OBJ_bsearch_ex_def bsearch_loop_take first_match_take Let_def split: prod.splits)

text \<open>What is asked of \<open>qsort\<close> here: the number of cells stays.\<close>

definition keeps_length :: "('f \<Rightarrow> 'd ptr \<Rightarrow> 'd ptr \<Rightarrow> int) \<Rightarrow> (('d ptr \<Rightarrow> 'd ptr \<Rightarrow> int) \<Rightarrow> 'd ptr list \<Rightarrow> 'd ptr list) \<Rightarrow> bool" where
  "keeps_length cmps qsort \<longleftrightarrow> (\<forall>f xs. length (qsort (cmps f) xs) = length xs)"

lemma sort_list:
  assumes "stack_ok st" "keeps_length cmps qsort"
  shows "stack_ok (sk_sort cmps qsort st)" "list_of (sk_sort cmps qsort st) = list_sort cmps qsort (list_of st)"
    "s_num (sk_sort cmps qsort st) = s_num st"
  using assms stack_ok_dest [OF assms(1)]
  by (auto simp: sk_sort_def list_sort_def list_of_def stack_ok_def keeps_length_def split: option.splits)

lemma find_list:
  assumes "stack_ok st" "keeps_length cmps qsort" "internal_find cmps qsort st d flags = (r, st')"
  shows "stack_ok st' \<and> list_find cmps qsort (list_of st) d flags = (r, list_of st')"
proof (cases "s_comp st")
  case None
  then show ?thesis using assms(1,3) by (auto simp: internal_find_def list_find_def)
next
  case (Some f)
  define st1 where "st1 = sk_sort cmps qsort st"
  have st1: "stack_ok st1" "list_sort cmps qsort (list_of st) = list_of st1" using sort_list [OF assms(1,2)] by (simp_all add: st1_def)
  have n: "s_num st1 \<le> length (s_data st1)" using stack_ok_dest(1) [OF st1(1)] .
  have "(r, st') = (if d = None then (- 1, st1) else
      (case OBJ_bsearch_ex d (s_data st1) (s_num st1) (cmps f) flags of None \<Rightarrow> (- 1, st1) | Some r \<Rightarrow> (int r, st1)))"
    using assms(3) Some by (simp add: internal_find_def st1_def [symmetric] Let_def)
  moreover have "list_find cmps qsort (list_of st) d flags =
      ((case OBJ_bsearch_ex d (s_data st1) (s_num st1) (cmps f) flags of Some r \<Rightarrow> if d = None then - 1 else int r | None \<Rightarrow> - 1), list_of st1)"
    using Some n st1(2) by (simp add: list_find_def Let_def bsearch_take min_def)
  ultimately show ?thesis using st1(1) by (auto split: option.splits if_splits)
qed

lemma zero_list: "stack_ok st \<Longrightarrow> stack_ok (sk_zero st) \<and> list_of (sk_zero st) = list_of st\<lparr>l_items := []\<rparr>"
  by (auto simp: sk_zero_def stack_ok_def list_of_def)

lemma set_list:
  "stack_ok st \<Longrightarrow> sk_set st i d = (r, st') \<Longrightarrow> stack_ok st' \<and> list_call cmps qsort (Sk_set i d) (list_of st) = (Pointer r, list_of st')"
  by (auto simp: sk_set_def stack_ok_def list_of_def take_update_swap)

lemma call_list:
  assumes "stack_ok st" "keeps_length cmps qsort" "sk_call cmps qsort op st = (r, st')"
  shows "stack_ok st' \<and> list_call cmps qsort op (list_of st) = (r, list_of st')"
proof -
  note ok = stack_ok_dest [OF assms(1)]
  show ?thesis
  proof (cases op)
    case (Sk_insert cells d loc)
    then show ?thesis using assms(3) insert_list [OF assms(1), of cells d loc] by (auto simp: map_prod_def split: prod.splits)
  next
    case (Sk_push cells d)
    have "list_insert cells (\<lambda>xs. if 0 \<le> int (s_num st) \<and> int (s_num st) < int (length xs)
          then take (nat (int (s_num st))) xs @ d # drop (nat (int (s_num st))) xs else xs @ [d]) (list_of st)
        = list_insert cells (\<lambda>xs. xs @ [d]) (list_of st)"
      using ok by (simp add: list_insert_def Let_def)
    then show ?thesis
      using assms(3) insert_list [OF assms(1), of cells d "int (s_num st)"] Sk_push
      by (auto simp: sk_push_def map_prod_def split: prod.splits)
  next
    case (Sk_unshift cells d)
    have "list_insert cells (\<lambda>xs. if 0 \<le> (0 :: int) \<and> 0 < int (length xs) then take (nat 0) xs @ d # drop (nat 0) xs else xs @ [d]) (list_of st)
        = list_insert cells (\<lambda>xs. d # xs) (list_of st)"
      by (auto simp: list_insert_def Let_def)
    then show ?thesis
      using assms(3) insert_list [OF assms(1), of cells d 0] Sk_unshift
      by (auto simp: sk_unshift_def map_prod_def split: prod.splits)
  next
    case (Sk_delete loc)
    then show ?thesis using assms(3) delete_list [OF assms(1), of loc] by (auto simp: map_prod_def split: prod.splits)
  next
    case (Sk_delete_ptr p)
    then show ?thesis using assms(3) delete_ptr_list [OF assms(1), of p] by (auto simp: map_prod_def split: prod.splits)
  next
    case Sk_shift
    then show ?thesis using assms(3) shift_list [OF assms(1)] by (auto simp: map_prod_def split: prod.splits)
  next
    case Sk_pop
    then show ?thesis using assms(3) pop_list [OF assms(1)] by (auto simp: map_prod_def split: prod.splits)
  next
    case Sk_zero
    then show ?thesis using assms(3) zero_list [OF assms(1)] by auto
  next
    case (Sk_value i)
    then show ?thesis using assms(1,3) ok by (auto simp: sk_value_def)
  next
    case (Sk_set i d)
    then show ?thesis using assms(3) set_list [OF assms(1), of i d] by (auto simp: map_prod_def split: prod.splits)
  next
    case (Sk_find d)
    then show ?thesis using assms(3) find_list [OF assms(1,2), of d OBJ_BSEARCH_FIRST_VALUE_ON_MATCH]
      by (auto simp: sk_find_def map_prod_def split: prod.splits)
  next
    case (Sk_find_ex d)
    then show ?thesis using assms(3) find_list [OF assms(1,2), of d OBJ_BSEARCH_VALUE_ON_NOMATCH]
      by (auto simp: sk_find_ex_def map_prod_def split: prod.splits)
  next
    case Sk_sort
    then show ?thesis using assms(3) sort_list [OF assms(1,2)] by auto
  next
    case (Sk_set_cmp c)
    then show ?thesis using assms(1,3) by (cases "s_comp st = c") (auto simp: sk_set_cmp_func_def stack_ok_def list_of_def)
  qed (use assms ok in \<open>auto simp: sk_num_def sk_is_sorted_def min_def\<close>)
qed

lemma calls_list:
  "stack_ok st \<Longrightarrow> keeps_length cmps qsort \<Longrightarrow> calls (sk_call cmps qsort) ops st = (answers, st')
    \<Longrightarrow> stack_ok st' \<and> calls (list_call cmps qsort) ops (list_of st) = (answers, list_of st')"
proof (induction ops arbitrary: st answers)
  case (Cons op ops)
  obtain r st1 where c: "sk_call cmps qsort op st = (r, st1)" by fastforce
  obtain rs where cs: "calls (sk_call cmps qsort) ops st1 = (rs, st')" "answers = r # rs" using Cons.prems(3) c by (auto split: prod.splits)
  note call = call_list [OF Cons.prems(1,2) c]
  then show ?case using Cons.IH [OF _ Cons.prems(2) cs(1)] cs(2) by (auto split: prod.splits)
qed simp

text \<open>C32: 
  A stack answers over every sequence of calls as a list does that has been given its room, whatever the comparison functions say and whatever the
  new cells hold; the cells in use lie within the array.
\<close>

theorem stack_refines_list:
  assumes "keeps_length cmps qsort" "sk_new True True c = Some st" "calls (sk_call cmps qsort) ops st = (answers, st')"
  shows "calls (list_call cmps qsort) ops (list_of st) = (answers, list_of st') \<and> list_of st = \<lparr>l_items = [], l_room = 4, l_sorted = False, l_comp = c\<rparr>
    \<and> s_num st' \<le> length (s_data st') \<and> length (s_data st') = s_num_alloc st'"
proof -
  have new: "stack_ok st" "list_of st = \<lparr>l_items = [], l_room = 4, l_sorted = False, l_comp = c\<rparr>"
    using assms(2) by (auto simp: sk_new_def stack_ok_def list_of_def STACK_MIN_NODES_def)
  then show ?thesis using calls_list [OF new(1) assms(1,3)] stack_ok_dest(1,2) by metis
qed

section \<open>Searches find the first match\<close>

text \<open>Against a key, a sorted list falls from positive over zero to negative.\<close>

definition falls :: "('a \<Rightarrow> int) \<Rightarrow> 'a list \<Rightarrow> bool" where
  "falls g xs \<longleftrightarrow> (\<forall>i j. i < j \<and> j < length xs \<longrightarrow> (g (xs ! j) > 0 \<longrightarrow> g (xs ! i) > 0) \<and> (g (xs ! i) < 0 \<longrightarrow> g (xs ! j) < 0))"

lemma fallsD: "falls g xs \<Longrightarrow> i < j \<Longrightarrow> j < length xs \<Longrightarrow> g (xs ! j) > 0 \<Longrightarrow> g (xs ! i) > 0"
  by (auto simp: falls_def)

lemma bsearch_loop_falls:
  assumes "falls (cmp key) xs"
  shows "h \<le> length xs \<Longrightarrow> \<forall>k<l. cmp key (xs ! k) > 0 \<Longrightarrow> \<forall>k<length xs. h \<le> k \<longrightarrow> cmp key (xs ! k) < 0
    \<Longrightarrow> l < h \<or> c \<noteq> 0 \<Longrightarrow> bsearch_loop cmp key xs l h i c = (i', c')
    \<Longrightarrow> if c' = 0 then i' < length xs \<and> cmp key (xs ! i') = 0 else \<forall>k<length xs. cmp key (xs ! k) \<noteq> 0"
  using assms
proof (induction cmp key xs l h i c rule: bsearch_loop.induct)
  case (1 cmp key xs l h i c)
  let ?i = "(l + h) div 2"
  show ?case
  proof (cases "l < h")
    case True
    then have i: "l \<le> ?i" "?i < h" by auto
    consider "cmp key (xs ! ?i) < 0" | "cmp key (xs ! ?i) > 0" | "cmp key (xs ! ?i) = 0" by linarith
    then show ?thesis
    proof cases
      case 1
      then have "\<forall>k<length xs. ?i \<le> k \<longrightarrow> cmp key (xs ! k) < 0" using "1.prems"(6) by (auto simp: falls_def le_less)
      then show ?thesis
        using "1.IH"(1) [OF True refl refl 1] "1.prems" 1 True i by (simp add: bsearch_loop.simps [of cmp key xs l h] Let_def)
    next
      case 2
      then have "\<forall>k<?i + 1. cmp key (xs ! k) > 0" using fallsD [OF "1.prems"(6), of _ ?i] "1.prems"(1) i by (auto simp: less_Suc_eq)
      then show ?thesis
        using "1.IH"(2) [OF True refl refl _ 2] "1.prems" 2 True i by (simp add: bsearch_loop.simps [of cmp key xs l h] Let_def)
    next
      case 3
      then show ?thesis using "1.prems" True i by (auto simp: bsearch_loop.simps [of cmp key xs l h] Let_def)
    qed
  next
    case False
    then have "c' = c" "c \<noteq> 0" using "1.prems"(4,5) by (simp_all add: bsearch_loop.simps [of cmp key xs l h])
    moreover have "cmp key (xs ! k) \<noteq> 0" if "k < length xs" for k
      using "1.prems"(2,3) False that by (cases "k < l") fastforce+
    ultimately show ?thesis by simp
  qed
qed

lemma first_match_falls:
  assumes "falls (cmp key) xs"
  shows "i < length xs \<Longrightarrow> cmp key (xs ! i) = 0 \<Longrightarrow> first_match cmp key xs i \<le> i \<and> cmp key (xs ! first_match cmp key xs i) = 0
    \<and> (\<forall>k<first_match cmp key xs i. cmp key (xs ! k) > 0)"
proof (induction i)
  case (Suc i)
  show ?case
  proof (cases "cmp key (xs ! i) = 0")
    case True
    then show ?thesis using Suc by auto
  next
    case False
    have "cmp key (xs ! i) > 0" using assms Suc.prems False by (force simp: falls_def)
    then have "\<forall>k<Suc i. cmp key (xs ! k) > 0" using fallsD [OF assms, of _ i] Suc.prems by (auto simp: less_Suc_eq)
    then show ?thesis using Suc.prems False by simp
  qed
qed simp

lemma bsearch_first:
  assumes "falls (cmp key) xs"
  shows "case OBJ_bsearch_ex key xs (length xs) cmp OBJ_BSEARCH_FIRST_VALUE_ON_MATCH of
      None \<Rightarrow> \<forall>x\<in>set xs. cmp key x \<noteq> 0
    | Some i \<Rightarrow> i < length xs \<and> cmp key (xs ! i) = 0 \<and> (\<forall>k<i. cmp key (xs ! k) > 0)"
proof (cases "xs = []")
  case False
  obtain i c where l: "bsearch_loop cmp key xs 0 (length xs) 0 0 = (i, c)" by fastforce
  have r: "if c = 0 then i < length xs \<and> cmp key (xs ! i) = 0 else \<forall>k<length xs. cmp key (xs ! k) \<noteq> 0"
    using bsearch_loop_falls [of cmp key xs, OF assms _ _ _ _ l] False by simp
  show ?thesis
  proof (cases "c = 0")
    case True
    then show ?thesis using r l first_match_falls [of cmp key xs i, OF assms] False
      by (auto simp: OBJ_bsearch_ex_def OBJ_BSEARCH_FIRST_VALUE_ON_MATCH_def)
  next
    case False
    then show ?thesis using r l \<open>xs \<noteq> []\<close>
      by (auto simp: OBJ_bsearch_ex_def OBJ_BSEARCH_FIRST_VALUE_ON_MATCH_def OBJ_BSEARCH_VALUE_ON_NOMATCH_def in_set_conv_nth)
  qed
qed (simp add: OBJ_bsearch_ex_def)

text \<open>The calls that keep the promise of the mark: no null pointer is put in, and no cell is set.\<close>

fun plain_op :: "('d, 'f) sk_op \<Rightarrow> bool" where
  "plain_op (Sk_insert cells d loc) \<longleftrightarrow> d \<noteq> None"
| "plain_op (Sk_push cells d) \<longleftrightarrow> d \<noteq> None"
| "plain_op (Sk_unshift cells d) \<longleftrightarrow> d \<noteq> None"
| "plain_op (Sk_set i d) \<longleftrightarrow> False"
| "plain_op op \<longleftrightarrow> True"

lemma sorted_drop_one: "sorted_wrt R xs \<Longrightarrow> sorted_wrt R (take i xs @ drop (Suc i) xs)"
proof (cases "i < length xs")
  case True
  assume "sorted_wrt R xs"
  then have "sorted_wrt R (take i xs @ xs ! i # drop (Suc i) xs)" using id_take_nth_drop [OF True] by metis
  then show ?thesis by (simp add: sorted_wrt_append)
qed simp

lemma set_drop_one: "set (take i xs @ drop (Suc i) xs) \<subseteq> set xs"
  by (auto dest: in_set_takeD in_set_dropD)

lemma remove1_drop_one: "\<exists>i. remove1 p xs = take i xs @ drop (Suc i) xs" for p :: "'d ptr"
proof (cases "first_ptr p 0 xs")
  case None
  then have "remove1 p xs = xs" by (simp add: first_ptr_None remove1_idem)
  then show ?thesis by (intro exI [of _ "length xs"]) simp
next
  case (Some i)
  then show ?thesis using first_ptr_Some [OF Some] by auto
qed

text \<open>
  What the callers and the C library have to keep: the comparison is a preorder of the pointers that are not null, and \<open>qsort\<close> sorts.
\<close>

locale stack_order =
  fixes cmps :: "'f \<Rightarrow> 'd ptr \<Rightarrow> 'd ptr \<Rightarrow> int" and qsort :: "('d ptr \<Rightarrow> 'd ptr \<Rightarrow> int) \<Rightarrow> 'd ptr list \<Rightarrow> 'd ptr list"
  assumes cmp_swap: "cmps f (Some x) (Some y) < 0 \<longleftrightarrow> cmps f (Some y) (Some x) > 0"
    and cmp_trans: "cmps f (Some x) (Some y) \<le> 0 \<Longrightarrow> cmps f (Some y) (Some z) \<le> 0 \<Longrightarrow> cmps f (Some x) (Some z) \<le> 0"
    and qsort_mset: "mset (qsort (cmps f) xs) = mset xs"
    and qsort_sorted: "None \<notin> set xs \<Longrightarrow> sorted_wrt (\<lambda>x y. cmps f x y \<le> 0) (qsort (cmps f) xs)"
begin

definition order_ok :: "('d, 'f) pointer_list \<Rightarrow> bool" where
  "order_ok l \<longleftrightarrow> None \<notin> set (l_items l) \<and> (l_sorted l \<longrightarrow> (\<forall>f. l_comp l = Some f \<longrightarrow> sorted_wrt (\<lambda>x y. cmps f x y \<le> 0) (l_items l)))"

lemma sorted_falls:
  assumes "sorted_wrt (\<lambda>x y. cmps f x y \<le> 0) xs" "None \<notin> set xs"
  shows "falls (cmps f (Some k)) xs"
  unfolding falls_def
proof (intro allI impI)
  fix i j assume ij: "i < j \<and> j < length xs"
  then have "xs ! i \<in> set xs" "xs ! j \<in> set xs" by simp_all
  then obtain x y where xy: "xs ! i = Some x" "xs ! j = Some y" using assms(2) by (metis not_None_eq)
  have le: "cmps f (Some x) (Some y) \<le> 0" using assms(1) ij xy sorted_wrt_nth_less by fastforce
  show "(cmps f (Some k) (xs ! j) > 0 \<longrightarrow> cmps f (Some k) (xs ! i) > 0) \<and> (cmps f (Some k) (xs ! i) < 0 \<longrightarrow> cmps f (Some k) (xs ! j) < 0)"
    using cmp_trans [of f k x y] cmp_trans [of f x y k] le cmp_swap [of f k x] cmp_swap [of f k y] unfolding xy by linarith
qed

lemma order_ok_drop: "order_ok l \<Longrightarrow> order_ok (l\<lparr>l_items := take i (l_items l) @ drop (Suc i) (l_items l)\<rparr>)"
  unfolding order_ok_def using set_drop_one [of i "l_items l"] by (auto simp del: set_append sorted_wrt_append intro: sorted_drop_one)

lemma order_ok_insert:
  "order_ok l \<Longrightarrow> None \<notin> set (ins (l_items l)) \<Longrightarrow> order_ok (snd (list_insert cells ins l))"
  by (auto simp: order_ok_def list_insert_def Let_def)

lemma order_ok_sort: "order_ok l \<Longrightarrow> order_ok (list_sort cmps qsort l)"
proof -
  assume "order_ok l"
  moreover have "set (qsort (cmps f) xs) = set xs" for f xs using qsort_mset mset_eq_setD by blast
  ultimately show ?thesis by (auto simp: order_ok_def list_sort_def qsort_sorted split: option.splits)
qed

lemma order_ok_call: "order_ok l \<Longrightarrow> plain_op op \<Longrightarrow> order_ok (snd (list_call cmps qsort op l))"
proof (cases op)
  case (Sk_insert cells d loc)
  assume "order_ok l" "plain_op op"
  then have "None \<notin> set (l_items l)" "d \<noteq> None" using Sk_insert by (simp_all add: order_ok_def)
  let ?ins = "\<lambda>xs. if 0 \<le> loc \<and> loc < int (length xs) then take (nat loc) xs @ d # drop (nat loc) xs else xs @ [d]"
  have "None \<notin> set (?ins (l_items l))" if "None \<notin> set (l_items l)" "d \<noteq> None"
    using that by (auto dest: in_set_takeD in_set_dropD)
  with \<open>None \<notin> set (l_items l)\<close> \<open>d \<noteq> None\<close> show ?thesis
    using order_ok_insert [OF \<open>order_ok l\<close>, of ?ins cells] Sk_insert by simp
next
  case (Sk_push cells d)
  assume "order_ok l" "plain_op op"
  then show ?thesis using order_ok_insert [OF \<open>order_ok l\<close>] Sk_push by (auto simp: order_ok_def)
next
  case (Sk_unshift cells d)
  assume "order_ok l" "plain_op op"
  then show ?thesis using order_ok_insert [OF \<open>order_ok l\<close>] Sk_unshift by (auto simp: order_ok_def)
next
  case (Sk_delete loc)
  assume "order_ok l"
  then show ?thesis using order_ok_drop Sk_delete by (simp add: list_take_def)
next
  case (Sk_delete_ptr p)
  assume "order_ok l"
  then show ?thesis using order_ok_drop [of l] remove1_drop_one [of p "l_items l"] Sk_delete_ptr by auto
next
  case Sk_shift
  assume "order_ok l"
  then show ?thesis using order_ok_drop [of l 0] Sk_shift by (simp add: list_take_def)
next
  case Sk_pop
  assume "order_ok l"
  then show ?thesis using order_ok_drop [of l "length (l_items l) - 1"] Sk_pop by (simp add: butlast_conv_take)
qed (use order_ok_sort in \<open>auto simp: order_ok_def list_find_def Let_def split: option.splits\<close>)

lemma order_ok_calls: "order_ok l \<Longrightarrow> \<forall>op\<in>set ops. plain_op op \<Longrightarrow> order_ok (snd (calls (list_call cmps qsort) ops l))"
proof (induction ops arbitrary: l)
  case (Cons op ops)
  then have "order_ok (snd (list_call cmps qsort op l))" using order_ok_call by simp
  then show ?case using Cons by (simp add: Let_def case_prod_beta)
qed simp

text \<open>The answer of a search on a list that keeps the promise.\<close>

lemma list_find_first:
  assumes "order_ok l" "list_find cmps qsort l (Some x) OBJ_BSEARCH_FIRST_VALUE_ON_MATCH = (r, l')"
  defines "hit \<equiv> \<lambda>y. (case l_comp l of Some f \<Rightarrow> cmps f (Some x) y = 0 | None \<Rightarrow> y = Some x)"
  shows "mset (l_items l') = mset (l_items l) \<and> (\<forall>f. l_comp l = Some f \<longrightarrow> sorted_wrt (\<lambda>x y. cmps f x y \<le> 0) (l_items l'))
    \<and> (if r < 0 then r = - 1 \<and> (\<forall>y\<in>set (l_items l'). \<not> hit y)
       else nat r < length (l_items l') \<and> hit (l_items l' ! nat r) \<and> (\<forall>k<nat r. \<not> hit (l_items l' ! k)))"
proof (cases "l_comp l")
  case None
  then have "l' = l" "r = (case first_ptr (Some x) 0 (l_items l) of Some i \<Rightarrow> int i | None \<Rightarrow> - 1)"
    using assms(2) by (auto simp: list_find_def)
  then show ?thesis using None first_ptr_None [of "Some x" 0 "l_items l"] first_ptr_Some [of "Some x" 0 "l_items l"]
    by (auto simp: hit_def split: option.splits)
next
  case (Some f)
  define xs where "xs = l_items (list_sort cmps qsort l)"
  have ok: "order_ok (list_sort cmps qsort l)" using order_ok_sort [OF assms(1)] .
  then have xs: "sorted_wrt (\<lambda>x y. cmps f x y \<le> 0) xs" "None \<notin> set xs"
    using Some by (auto simp: xs_def order_ok_def list_sort_def)
  have res: "l' = list_sort cmps qsort l"
      "r = (case OBJ_bsearch_ex (Some x) xs (length xs) (cmps f) OBJ_BSEARCH_FIRST_VALUE_ON_MATCH of Some r \<Rightarrow> int r | None \<Rightarrow> - 1)"
    using assms(2) Some by (auto simp: list_find_def xs_def Let_def split: option.splits)
  have "mset xs = mset (l_items l)" using Some qsort_mset by (simp add: xs_def list_sort_def)
  then show ?thesis
    using bsearch_first [of "cmps f" "Some x" xs, OF sorted_falls [OF xs]] xs(1) Some res
    by (auto simp: hit_def xs_def [symmetric] split: option.splits)
qed

end

section \<open>Stacks of strings\<close>

text \<open>
  The comparison of \<open>crypto/x509v3/v3_utl.c\<close>, which reads through a null pointer where there is one: no theorem is about its answer there. For the
  witnesses and the interpretation, \<open>qsort\<close> is a sorting by insertion.
\<close>

fun sk_strcmp :: "string ptr \<Rightarrow> string ptr \<Rightarrow> int" where
  "sk_strcmp (Some a) (Some b) = strcmp a b"
| "sk_strcmp a b = 0"

fun put_in :: "('a \<Rightarrow> 'a \<Rightarrow> int) \<Rightarrow> 'a \<Rightarrow> 'a list \<Rightarrow> 'a list" where
  "put_in cmp x [] = [x]"
| "put_in cmp x (y # ys) = (if cmp x y \<le> 0 then x # y # ys else y # put_in cmp x ys)"

definition insertion_sort :: "('a \<Rightarrow> 'a \<Rightarrow> int) \<Rightarrow> 'a list \<Rightarrow> 'a list" where
  "insertion_sort cmp xs = foldr (put_in cmp) xs []"

lemma mset_insertion_sort: "mset (insertion_sort cmp xs) = mset xs"
proof -
  have "mset (put_in cmp x ys) = add_mset x (mset ys)" for x ys by (induction ys) auto
  then show ?thesis by (induction xs) (simp_all add: insertion_sort_def)
qed

lemma of_char_nonneg [simp]: "0 \<le> (of_char c :: int)"
  by (metis of_nat_of_char of_nat_0_le_iff)

lemma strcmp_swap: "strcmp a b = - strcmp b a"
  by (induction a b rule: strcmp.induct) auto

lemma strcmp_Nil: "strcmp [] c \<le> 0" "0 \<le> strcmp c []"
  by (cases c; simp)+

lemma strcmp_trans: "strcmp a b \<le> 0 \<Longrightarrow> strcmp b c \<le> 0 \<Longrightarrow> strcmp a c \<le> 0"
proof (induction a b arbitrary: c rule: strcmp.induct)
  case (3 a as)
  then have "a = CHR 0x00" using of_char_nonneg [of a] by (simp add: of_char_eq_0 [symmetric])
  then show ?case by (cases c) auto
next
  case (4 a as b bs)
  show ?case
  proof (cases c)
    case Nil
    then have "b = CHR 0x00" using 4(3) of_char_nonneg [of b] by (simp add: of_char_eq_0 [symmetric])
    moreover have "of_char a \<le> (of_char b :: int)" using 4(2) by (cases "a = b") auto
    ultimately show ?thesis using Nil of_char_nonneg [of a] by simp
  next
    case (Cons d ds)
    have "of_char a \<le> (of_char b :: int)" "of_char b \<le> (of_char d :: int)"
      using 4(2,3) Cons by (cases "a = b"; cases "b = d"; auto)+
    then consider "a = b" "b = d" | "a \<noteq> d" "(of_char a :: int) \<le> of_char d"
      by (metis antisym of_char_eq_iff order.trans)
    then show ?thesis
    proof cases
      case 1
      then show ?thesis using 4 Cons by (cases "a = CHR 0x00") auto
    next
      case 2
      then show ?thesis using Cons by simp
    qed
  qed
qed (use strcmp_Nil in auto)

lemma sk_strcmp_sorted: "None \<notin> set xs \<Longrightarrow> sorted_wrt (\<lambda>x y. sk_strcmp x y \<le> 0) (insertion_sort sk_strcmp xs)"
proof -
  have total: "sk_strcmp y x \<le> 0" if "\<not> sk_strcmp x y \<le> 0" for x y
  proof (cases x; cases y)
    fix a b assume "x = Some a" "y = Some b"
    then show ?thesis using that strcmp_swap [of b a] by simp
  qed (use that in simp_all)
  have trans: "sk_strcmp x z \<le> 0" if "sk_strcmp x y \<le> 0" "sk_strcmp y z \<le> 0" "y \<noteq> None" for x y z
    using that by (cases x; cases y; cases z) (simp_all, rule strcmp_trans)
  have put: "set (put_in cmp x ys) = insert x (set ys)" for cmp and x :: "string ptr" and ys by (induction ys) auto
  have "sorted_wrt (\<lambda>x y. sk_strcmp x y \<le> 0) (put_in sk_strcmp x ys)"
    if "sorted_wrt (\<lambda>x y. sk_strcmp x y \<le> 0) ys" "None \<notin> set ys" for x ys
    using that
  proof (induction ys)
    case (Cons y ys)
    then obtain b where "y = Some b" by (cases y) auto
    have le: "\<forall>z\<in>set ys. sk_strcmp y z \<le> 0" using Cons.prems(1) by simp
    show ?case
    proof (cases "sk_strcmp x y \<le> 0")
      case True
      then have "\<forall>z\<in>set ys. sk_strcmp x z \<le> 0" using trans [OF True] le \<open>y = Some b\<close> by blast
      then show ?thesis using True Cons.prems(1) by simp
    next
      case False
      then show ?thesis using Cons total [OF False] le by (simp add: put)
    qed
  qed simp
  moreover have "set (insertion_sort sk_strcmp xs) = set xs" for xs using mset_eq_setD [OF mset_insertion_sort] .
  moreover have "insertion_sort sk_strcmp (x # xs) = put_in sk_strcmp x (insertion_sort sk_strcmp xs)" for x xs
    by (simp add: insertion_sort_def)
  moreover have "insertion_sort sk_strcmp [] = []" by (simp add: insertion_sort_def)
  ultimately show "None \<notin> set xs \<Longrightarrow> ?thesis" by (induction xs) simp_all
qed

interpretation string_stack: stack_order "\<lambda>_ :: unit. sk_strcmp" insertion_sort
proof unfold_locales
  show "sk_strcmp (Some x) (Some y) < 0 \<longleftrightarrow> sk_strcmp (Some y) (Some x) > 0" for x y
    using strcmp_swap [of x y] by simp
  show "sk_strcmp (Some x) (Some z) \<le> 0" if "sk_strcmp (Some x) (Some y) \<le> 0" "sk_strcmp (Some y) (Some z) \<le> 0" for x y z
    using strcmp_trans [of x y z] that by simp
qed (simp_all add: mset_insertion_sort sk_strcmp_sorted)

lemma stack_refines_list_witness:
  "let cells = Some (\<lambda>_. None); st0 = the (sk_new True True (Some ()));
       ops = [Sk_push cells (Some ''a''), Sk_push cells (Some ''b''), Sk_insert cells (Some ''c'') 1, Sk_push None (Some ''d''), Sk_delete_ptr (Some ''a''), Sk_pop]
   in fst (calls (sk_call (\<lambda>_ :: unit. sk_strcmp) insertion_sort) ops st0)
     = [Number 1, Number 2, Number 3, Number 0, Pointer (Some ''a''), Pointer (Some ''b'')]"
proof -
  let ?cells = "Some (\<lambda>_. None)"
  let ?ops = "[Sk_push ?cells (Some ''a''), Sk_push ?cells (Some ''b''), Sk_insert ?cells (Some ''c'') 1, Sk_push None (Some ''d''),
      Sk_delete_ptr (Some ''a''), Sk_pop]"
  define st0 :: "(string, unit) stack" where "st0 = the (sk_new True True (Some ()))"
  obtain answers st where run: "calls (sk_call (\<lambda>_. sk_strcmp) insertion_sort) ?ops st0 = (answers, st)" by fastforce
  have len: "keeps_length (\<lambda>_ :: unit. sk_strcmp) insertion_sort"
    by (metis keeps_length_def mset_eq_length mset_insertion_sort)
  have new: "sk_new True True (Some ()) = Some st0" by (simp add: st0_def sk_new_def)
  have l: "list_of st0 = \<lparr>l_items = [], l_room = 4, l_sorted = False, l_comp = Some ()\<rparr>"
    and answers: "calls (list_call (\<lambda>_. sk_strcmp) insertion_sort) ?ops (list_of st0) = (answers, list_of st)"
    using stack_refines_list [OF len new run] by blast+
  have "answers = [Number 1, Number 2, Number 3, Number 0, Pointer (Some ''a''), Pointer (Some ''b'')]"
    using answers unfolding l by (simp add: list_insert_def Let_def)
  then show ?thesis using run by (simp add: st0_def Let_def)
qed

section \<open>Copies keep the items or give everything back\<close>

lemma freed_copies_eq: "i \<le> length xs \<Longrightarrow> freed_copies i xs = rev (map the (filter (\<lambda>p. p \<noteq> None) (take i xs)))"
  by (induction i) (auto simp: take_Suc_conv_app_nth split: option.split)

lemma copy_cells_cases:
  assumes "i \<le> n" "n \<le> length src" "length dst = m" "n \<le> m" "take i dst = map (\<lambda>p. Option.bind p f) (take i src)"
    and "\<forall>k<m. i \<le> k \<longrightarrow> dst ! k = None" "\<forall>x. Some x \<in> set (take i src) \<longrightarrow> f x \<noteq> None"
  shows "case copy_cells f n i src dst of
      Inr xs \<Rightarrow> length xs = m \<and> take n xs = map (\<lambda>p. Option.bind p f) (take n src) \<and> (\<forall>x. Some x \<in> set (take n src) \<longrightarrow> f x \<noteq> None)
    | Inl freed \<Rightarrow> \<exists>k<n. \<exists>x. src ! k = Some x \<and> f x = None
        \<and> freed = rev (map the (filter (\<lambda>p. p \<noteq> None) (map (\<lambda>p. Option.bind p f) (take k src))))"
  using assms
proof (induction f n i src dst rule: copy_cells.induct)
  case (1 f n i src dst)
  show ?case
  proof (cases "i < n")
    case False
    then have "copy_cells f n i src dst = Inr dst" by (simp add: copy_cells.simps [of f n i])
    then show ?thesis using 1(3-) False by simp
  next
    case True
    then have i: "i < length src" "i < length dst" using "1.prems" by simp_all
    show ?thesis
    proof (cases "src ! i")
      case None
      then have "take (i + 1) dst = map (\<lambda>p. Option.bind p f) (take (i + 1) src)" "\<forall>x. Some x \<in> set (take (i + 1) src) \<longrightarrow> f x \<noteq> None"
        using "1.prems" i by (auto simp: take_Suc_conv_app_nth)
      then show ?thesis using "1.IH"(1) [OF True None] "1.prems" True None by (simp add: copy_cells.simps [of f n i])
    next
      case (Some x)
      show ?thesis
      proof (cases "f x")
        case None
        have "take i (dst[i := None]) = take i dst" by simp
        then have "freed_copies i (dst[i := None]) = rev (map the (filter (\<lambda>p. p \<noteq> None) (map (\<lambda>p. Option.bind p f) (take i src))))"
          using "1.prems"(5) i by (simp add: freed_copies_eq)
        then show ?thesis using True Some None i by (simp add: copy_cells.simps [of f n i] Let_def) blast
      next
        fix y assume y: "f x = Some y"
        have "take (i + 1) (dst[i := Some y]) = map (\<lambda>p. Option.bind p f) (take (i + 1) src)"
          "\<forall>x. Some x \<in> set (take (i + 1) src) \<longrightarrow> f x \<noteq> None"
          using "1.prems" i Some y by (auto simp: take_Suc_conv_app_nth)
        then show ?thesis
          using "1.IH"(2) [OF True Some refl] "1.prems" True Some y i by (simp add: copy_cells.simps [of f n i] Let_def)
      qed
    qed
  qed
qed

text \<open>
  A deep copy holds the copies of all pointers in their order, with null pointers where they were; when the copy of one fails, exactly the copies made
  before it are freed, the last first.
\<close>

theorem sk_deep_copy_all_or_nothing:
  assumes "sk_new True True c = Some st0" "keeps_length cmps qsort" "calls (sk_call cmps qsort) ops st0 = (answers, sk)"
    and "sk_deep_copy True True f sk = (copied, freed)"
  shows "case copied of
      Some st \<Rightarrow> freed = [] \<and> l_items (list_of st) = map (\<lambda>p. Option.bind p f) (l_items (list_of sk)) \<and> s_sorted st = s_sorted sk \<and> s_comp st = s_comp sk
        \<and> s_num st \<le> length (s_data st)
    | None \<Rightarrow> \<exists>k. k < s_num sk \<and> (\<exists>x. sk_value (Some sk) (int k) = Some x \<and> f x = None
        \<and> freed = rev (map the (filter (\<lambda>p. p \<noteq> None) (map (\<lambda>p. Option.bind p f) (take k (l_items (list_of sk)))))))"
proof -
  have "stack_ok st0" using assms(1) by (auto simp: sk_new_def stack_ok_def STACK_MIN_NODES_def)
  then have n: "s_num sk \<le> length (s_data sk)" using calls_list [OF _ assms(2,3)] stack_ok_dest(1) by blast
  let ?m = "if s_num sk > STACK_MIN_NODES then s_num sk else STACK_MIN_NODES"
  have m: "s_num sk \<le> ?m" by simp
  note copies = copy_cells_cases [of 0 "s_num sk" "s_data sk" "replicate ?m None" ?m f]
  show ?thesis
  proof (cases "copy_cells f (s_num sk) 0 (s_data sk) (replicate ?m None)")
    case (Inl xs)
    then have res: "copied = None" "freed = xs" using assms(4) by (simp_all add: sk_deep_copy_def Let_def)
    obtain k x where k: "k < s_num sk" "s_data sk ! k = Some x" "f x = None"
        "xs = rev (map the (filter (\<lambda>p. p \<noteq> None) (map (\<lambda>p. Option.bind p f) (take k (s_data sk)))))"
      using copies n m Inl by auto
    then have "sk_value (Some sk) (int k) = Some x" "take k (l_items (list_of sk)) = take k (s_data sk)" by (simp_all add: sk_value_def min_def)
    then show ?thesis using res k by (auto simp del: list_of_sel(1))
  next
    case (Inr xs)
    then show ?thesis using copies n m assms(4) by (auto simp: sk_deep_copy_def Let_def list_of_def)
  qed
qed

section \<open>Setting a cell\<close>

text \<open>\<open>sk_set\<close> leaves the mark for a sorted stack, so that a search may miss what has been set.\<close>

lemma set_hides_value:
  "let cells = Some (\<lambda>_. None); st0 = the (sk_new True True (Some ()));
       st = snd (calls (sk_call (\<lambda>_ :: unit. sk_strcmp) insertion_sort)
         (map (\<lambda>s. Sk_push cells (Some s)) [''a'', ''b'', ''c''] @ [Sk_sort, Sk_set 0 (Some ''d'')]) st0)
   in sk_value (Some st) 0 = Some ''d'' \<and> fst (sk_find (\<lambda>_ :: unit. sk_strcmp) insertion_sort st (Some ''d'')) = - 1"
proof -
  have "OBJ_bsearch_ex (Some ''d'') [Some ''d'', Some ''b'', Some ''c'', None] 3 sk_strcmp OBJ_BSEARCH_FIRST_VALUE_ON_MATCH = None"
    by code_simp
  then show ?thesis
    by (simp add: sk_new_def STACK_MIN_NODES_def sk_push_def sk_insert_def sk_sort_def sk_set_def sk_value_def sk_find_def internal_find_def
        insertion_sort_def numeral_eq_Suc Let_def)
qed

section \<open>The first match\<close>

text \<open>C33: 
  After any calls that put in no null pointer and set no cell, a search leaves the same pointers, sorted where there is a comparison, and answers
  with the place of the first that matches, or with -1 when none does.
\<close>

theorem sk_find_first:
  fixes x :: 'd and cmps :: "'f \<Rightarrow> 'd ptr \<Rightarrow> 'd ptr \<Rightarrow> int"
  assumes "stack_order cmps qsort" "sk_new True True c = Some st0" "calls (sk_call cmps qsort) ops st0 = (answers, st)"
    and "\<forall>op\<in>set ops. plain_op op" "sk_find cmps qsort st (Some x) = (r, st')"
  defines "hit \<equiv> \<lambda>y. (case s_comp st of Some f \<Rightarrow> cmps f (Some x) y = 0 | None \<Rightarrow> y = Some x)"
  shows "mset (l_items (list_of st')) = mset (l_items (list_of st))
    \<and> (\<forall>f. s_comp st = Some f \<longrightarrow> sorted_wrt (\<lambda>x y. cmps f x y \<le> 0) (l_items (list_of st')))
    \<and> (if r < 0 then r = - 1 \<and> (\<forall>y\<in>set (l_items (list_of st')). \<not> hit y)
       else nat r < s_num st' \<and> hit (sk_value (Some st') r) \<and> (\<forall>k. 0 \<le> k \<and> k < r \<longrightarrow> \<not> hit (sk_value (Some st') k)))"
proof -
  have len: "keeps_length cmps qsort"
    using stack_order.qsort_mset [OF assms(1)] mset_eq_length by (fastforce simp: keeps_length_def)
  have "stack_ok st0" using assms(2) by (auto simp: sk_new_def stack_ok_def STACK_MIN_NODES_def)
  then have run: "stack_ok st \<and> calls (list_call cmps qsort) ops (list_of st0) = (answers, list_of st)"
    using calls_list [OF _ len assms(3)] by blast
  have "stack_order.order_ok cmps (list_of st0)"
    using assms(2) by (auto simp: sk_new_def list_of_def stack_order.order_ok_def [OF assms(1)])
  then have ok: "stack_order.order_ok cmps (list_of st)"
    using stack_order.order_ok_calls [OF assms(1) _ assms(4), of "list_of st0"] run by simp
  have find: "stack_ok st'" "list_find cmps qsort (list_of st) (Some x) OBJ_BSEARCH_FIRST_VALUE_ON_MATCH = (r, list_of st')"
    using find_list [OF _ len, of st "Some x" _ r st'] run assms(5) by (auto simp: sk_find_def)
  have n: "length (l_items (list_of st')) = s_num st'" using stack_ok_dest(1) [OF find(1)] by simp
  have at: "sk_value (Some st') k = l_items (list_of st') ! nat k" if "0 \<le> k" "nat k < s_num st'" for k
    using that by (auto simp: sk_value_def nat_less_iff)
  note first = stack_order.list_find_first [OF assms(1) ok find(2), unfolded list_of_sel(4) n]
  have r: "if r < 0 then r = - 1 \<and> (\<forall>y\<in>set (l_items (list_of st')). \<not> hit y)
      else nat r < s_num st' \<and> hit (l_items (list_of st') ! nat r) \<and> (\<forall>k<nat r. \<not> hit (l_items (list_of st') ! k))"
    unfolding hit_def using first by (elim conjE)
  have "hit (sk_value (Some st') r) \<and> (\<forall>k. 0 \<le> k \<and> k < r \<longrightarrow> \<not> hit (sk_value (Some st') k))" if "0 \<le> r"
  proof (intro conjI allI impI)
    show "hit (sk_value (Some st') r)" using r that at [of r] by (auto simp del: list_of_sel(1))
    show "\<not> hit (sk_value (Some st') k)" if "0 \<le> k \<and> k < r" for k
    proof -
      have "nat k < nat r" using that by simp
      then show ?thesis using r \<open>0 \<le> r\<close> that at [of k] by (auto simp del: list_of_sel(1))
    qed
  qed
  then show ?thesis using first r by auto
qed

text \<open>Three names are pushed, and the search sorts them: tube is the last.\<close>

lemma sk_find_first_witness:
  "let cells = Some (\<lambda>_. None); st0 = the (sk_new True True (Some ()));
       st = snd (calls (sk_call (\<lambda>_. sk_strcmp) insertion_sort) (map (\<lambda>s. Sk_push cells (Some s)) [''tube'', ''coin'', ''coin'']) st0)
   in fst (sk_find (\<lambda>_. sk_strcmp) insertion_sort st (Some ''tube'')) = 2"
proof -
  let ?cells = "Some (\<lambda>_. None)"
  let ?ops = "map (\<lambda>s. Sk_push ?cells (Some s)) [''tube'', ''coin'', ''coin'']"
  define st0 :: "(string, unit) stack" where "st0 = the (sk_new True True (Some ()))"
  have new: "sk_new True True (Some ()) = Some st0" by (simp add: st0_def sk_new_def)
  obtain answers st where run: "calls (sk_call (\<lambda>_. sk_strcmp) insertion_sort) ?ops st0 = (answers, st)" by fastforce
  obtain r st' where find: "sk_find (\<lambda>_. sk_strcmp) insertion_sort st (Some ''tube'') = (r, st')" by fastforce
  have "st = \<lparr>s_num = 3, s_data = [Some ''tube'', Some ''coin'', Some ''coin'', None], s_sorted = False, s_num_alloc = 4, s_comp = Some ()\<rparr>"
    using run by (simp add: st0_def sk_new_def STACK_MIN_NODES_def sk_push_def sk_insert_def Let_def numeral_eq_Suc)
  then have st': "st' = \<lparr>s_num = 3, s_data = [Some ''coin'', Some ''coin'', Some ''tube'', None], s_sorted = True, s_num_alloc = 4, s_comp = Some ()\<rparr>"
      "s_comp st = Some ()"
    using find
    by (auto simp: sk_find_def internal_find_def sk_sort_def insertion_sort_def numeral_eq_Suc Let_def split: option.splits)
  have "if r < 0 then strcmp ''tube'' ''tube'' \<noteq> 0 else nat r < 3 \<and> sk_strcmp (Some ''tube'') (sk_value (Some st') r) = 0"
    using sk_find_first [OF string_stack.stack_order_axioms new run _ find] st' by (auto simp: list_of_def numeral_eq_Suc)
  moreover have "r = 0 \<or> r = 1 \<or> r = 2" if "\<not> r < 0" "nat r < 3" using that by auto
  ultimately have "r = 2" using st'(1) by (auto simp: sk_value_def split: if_splits)
  then show ?thesis using run find by (simp add: st0_def Let_def)
qed

end
