(* ===== verification/Sha256.thy ===== *)
theory Sha256
  imports Prelude
begin

text \<open>
  SHA-256 and SHA-224 of OpenSSL (\<open>crypto/sha/sha256.c\<close> over \<open>crypto/md32_common.h\<close>): the block function in both of its
  builds, the context that takes a message in pieces, and the digest. \<open>sha256_is_fips\<close>: whatever the pieces, the digest is that of FIPS 180-4 for
  the whole message. The schedule \<open>X\<close> starts with zeros here; every cell is written before it is read.
\<close>

section \<open>Words and bytes\<close>

definition ROTATE :: "u32 \<Rightarrow> nat \<Rightarrow> u32" where
  "ROTATE a n = push_bit n a OR drop_bit (32 - n) (a AND 0xffffffff)"

definition HOST_c2l :: "byte list \<Rightarrow> u32" where
  "HOST_c2l c = push_bit 24 (ucast (c ! 0)) OR push_bit 16 (ucast (c ! 1)) OR push_bit 8 (ucast (c ! 2)) OR ucast (c ! 3)"

definition HOST_l2c :: "u32 \<Rightarrow> byte list" where
  "HOST_l2c l = [ucast (drop_bit 24 l AND 0xff), ucast (drop_bit 16 l AND 0xff), ucast (drop_bit 8 l AND 0xff), ucast (l AND 0xff)]"

definition Sigma0 :: "u32 \<Rightarrow> u32" where "Sigma0 x = ROTATE x 30 XOR ROTATE x 19 XOR ROTATE x 10"
definition Sigma1 :: "u32 \<Rightarrow> u32" where "Sigma1 x = ROTATE x 26 XOR ROTATE x 21 XOR ROTATE x 7"
definition sigma0 :: "u32 \<Rightarrow> u32" where "sigma0 x = ROTATE x 25 XOR ROTATE x 14 XOR drop_bit 3 x"
definition sigma1 :: "u32 \<Rightarrow> u32" where "sigma1 x = ROTATE x 15 XOR ROTATE x 13 XOR drop_bit 10 x"
definition Ch :: "u32 \<Rightarrow> u32 \<Rightarrow> u32 \<Rightarrow> u32" where "Ch x y z = (x AND y) XOR (NOT x AND z)"
definition Maj :: "u32 \<Rightarrow> u32 \<Rightarrow> u32 \<Rightarrow> u32" where "Maj x y z = (x AND y) XOR (x AND z) XOR (y AND z)"

definition K256 :: "u32 list" where
  "K256 = [
    0x428a2f98, 0x71374491, 0xb5c0fbcf, 0xe9b5dba5, 0x3956c25b, 0x59f111f1, 0x923f82a4, 0xab1c5ed5,
    0xd807aa98, 0x12835b01, 0x243185be, 0x550c7dc3, 0x72be5d74, 0x80deb1fe, 0x9bdc06a7, 0xc19bf174,
    0xe49b69c1, 0xefbe4786, 0x0fc19dc6, 0x240ca1cc, 0x2de92c6f, 0x4a7484aa, 0x5cb0a9dc, 0x76f988da,
    0x983e5152, 0xa831c66d, 0xb00327c8, 0xbf597fc7, 0xc6e00bf3, 0xd5a79147, 0x06ca6351, 0x14292967,
    0x27b70a85, 0x2e1b2138, 0x4d2c6dfc, 0x53380d13, 0x650a7354, 0x766a0abb, 0x81c2c92e, 0x92722c85,
    0xa2bfe8a1, 0xa81a664b, 0xc24b8b70, 0xc76c51a3, 0xd192e819, 0xd6990624, 0xf40e3585, 0x106aa070,
    0x19a4c116, 0x1e376c08, 0x2748774c, 0x34b0bcb5, 0x391c0cb3, 0x4ed8aa4a, 0x5b9cca4f, 0x682e6ff3,
    0x748f82ee, 0x78a5636f, 0x84c87814, 0x8cc70208, 0x90befffa, 0xa4506ceb, 0xbef9a3f7, 0xc67178f2]"

section \<open>The block function in the small build\<close>

type_synonym regs = "u32 \<times> u32 \<times> u32 \<times> u32 \<times> u32 \<times> u32 \<times> u32 \<times> u32"

text \<open>The end of both loop bodies.\<close>

definition small_round :: "nat \<Rightarrow> u32 \<Rightarrow> regs \<Rightarrow> regs" where
  "small_round i T1 r =
     (let (a, b, c, d, e, f, g, h) = r;
          T1 = T1 + (h + Sigma1 e + Ch e f g + K256 ! i);
          T2 = Sigma0 a + Maj a b c
      in (T1 + T2, a, b, c, d + T1, e, f, g))"

definition load :: "u32 list \<Rightarrow> nat \<Rightarrow> byte list \<Rightarrow> u32 list \<times> u32 \<times> byte list" where
  "load X i data = (let l = HOST_c2l data in (X[i := l], l, drop 4 data))"

definition mix :: "u32 list \<Rightarrow> nat \<Rightarrow> u32 list \<times> u32" where
  "mix X i =
     (let s0 = sigma0 (X ! ((i + 1) mod 16)); s1 = sigma1 (X ! ((i + 14) mod 16));
          T1 = X ! (i mod 16) + (s0 + s1 + X ! ((i + 9) mod 16))
      in (X[i mod 16 := T1], T1))"

definition small_first :: "nat \<Rightarrow> u32 list \<times> byte list \<times> regs \<Rightarrow> u32 list \<times> byte list \<times> regs" where
  "small_first i s = (let (X, data, r) = s; (X, T1, data) = load X i data in (X, data, small_round i T1 r))"

definition small_second :: "nat \<Rightarrow> u32 list \<times> regs \<Rightarrow> u32 list \<times> regs" where
  "small_second i s = (let (X, r) = s; (X, T1) = mix X i in (X, small_round i T1 r))"

definition regs_of :: "u32 list \<Rightarrow> regs" where
  "regs_of h = (h ! 0, h ! 1, h ! 2, h ! 3, h ! 4, h ! 5, h ! 6, h ! 7)"

definition add_regs :: "u32 list \<Rightarrow> regs \<Rightarrow> u32 list" where
  "add_regs hs r =
     (let (a, b, c, d, e, f, g, h) = r
      in [hs ! 0 + a, hs ! 1 + b, hs ! 2 + c, hs ! 3 + d, hs ! 4 + e, hs ! 5 + f, hs ! 6 + g, hs ! 7 + h])"

text \<open>One turn of the loop over the blocks.\<close>

definition small_block :: "u32 list \<Rightarrow> byte list \<Rightarrow> u32 list" where
  "small_block h data =
     (let (X, data, r) = fold small_first [0..<16] (replicate 16 0, data, regs_of h);
          (X, r) = fold small_second [16..<64] (X, r)
      in add_regs h r)"

section \<open>The block function in the unrolled build\<close>

text \<open>The rounds change \<open>d\<close> and \<open>h\<close> only; the calls turn the names of the variables.\<close>

definition ROUND_00_15 :: "nat \<Rightarrow> u32 \<Rightarrow> u32 \<Rightarrow> u32 \<Rightarrow> u32 \<Rightarrow> u32 \<Rightarrow> u32 \<Rightarrow> u32 \<Rightarrow> u32 \<Rightarrow> u32 \<Rightarrow> u32 \<times> u32" where
  "ROUND_00_15 i T1 a b c d e f g h =
     (let T1 = T1 + (h + Sigma1 e + Ch e f g + K256 ! i);
          h = Sigma0 a + Maj a b c;
          d = d + T1;
          h = h + T1
      in (d, h))"

definition ROUND_16_63 :: "nat \<Rightarrow> u32 \<Rightarrow> u32 \<Rightarrow> u32 \<Rightarrow> u32 \<Rightarrow> u32 \<Rightarrow> u32 \<Rightarrow> u32 \<Rightarrow> u32 \<Rightarrow> u32 list \<Rightarrow> u32 list \<times> u32 \<times> u32" where
  "ROUND_16_63 i a b c d e f g h X = (let (X, T1) = mix X i in (X, ROUND_00_15 i T1 a b c d e f g h))"

definition first_16 :: "u32 list \<Rightarrow> byte list \<Rightarrow> regs \<Rightarrow> u32 list \<times> regs" where
  "first_16 X data r =
     (let (a, b, c, d, e, f, g, h) = r;
          (X, T1, data) = load X 0 data;
          (d, h) = ROUND_00_15 0 T1 a b c d e f g h;
          (X, T1, data) = load X 1 data;
          (c, g) = ROUND_00_15 1 T1 h a b c d e f g;
          (X, T1, data) = load X 2 data;
          (b, f) = ROUND_00_15 2 T1 g h a b c d e f;
          (X, T1, data) = load X 3 data;
          (a, e) = ROUND_00_15 3 T1 f g h a b c d e;
          (X, T1, data) = load X 4 data;
          (h, d) = ROUND_00_15 4 T1 e f g h a b c d;
          (X, T1, data) = load X 5 data;
          (g, c) = ROUND_00_15 5 T1 d e f g h a b c;
          (X, T1, data) = load X 6 data;
          (f, b) = ROUND_00_15 6 T1 c d e f g h a b;
          (X, T1, data) = load X 7 data;
          (e, a) = ROUND_00_15 7 T1 b c d e f g h a;
          (X, T1, data) = load X 8 data;
          (d, h) = ROUND_00_15 8 T1 a b c d e f g h;
          (X, T1, data) = load X 9 data;
          (c, g) = ROUND_00_15 9 T1 h a b c d e f g;
          (X, T1, data) = load X 10 data;
          (b, f) = ROUND_00_15 10 T1 g h a b c d e f;
          (X, T1, data) = load X 11 data;
          (a, e) = ROUND_00_15 11 T1 f g h a b c d e;
          (X, T1, data) = load X 12 data;
          (h, d) = ROUND_00_15 12 T1 e f g h a b c d;
          (X, T1, data) = load X 13 data;
          (g, c) = ROUND_00_15 13 T1 d e f g h a b c;
          (X, T1, data) = load X 14 data;
          (f, b) = ROUND_00_15 14 T1 c d e f g h a b;
          (X, T1, data) = load X 15 data;
          (e, a) = ROUND_00_15 15 T1 b c d e f g h a
      in (X, a, b, c, d, e, f, g, h))"

definition next_8 :: "nat \<Rightarrow> u32 list \<times> regs \<Rightarrow> u32 list \<times> regs" where
  "next_8 i s =
     (let (X, a, b, c, d, e, f, g, h) = s;
          (X, d, h) = ROUND_16_63 (i + 0) a b c d e f g h X;
          (X, c, g) = ROUND_16_63 (i + 1) h a b c d e f g X;
          (X, b, f) = ROUND_16_63 (i + 2) g h a b c d e f X;
          (X, a, e) = ROUND_16_63 (i + 3) f g h a b c d e X;
          (X, h, d) = ROUND_16_63 (i + 4) e f g h a b c d X;
          (X, g, c) = ROUND_16_63 (i + 5) d e f g h a b c X;
          (X, f, b) = ROUND_16_63 (i + 6) c d e f g h a b X;
          (X, e, a) = ROUND_16_63 (i + 7) b c d e f g h a X
      in (X, a, b, c, d, e, f, g, h))"

definition unrolled_block :: "u32 list \<Rightarrow> byte list \<Rightarrow> u32 list" where
  "unrolled_block h data =
     (let (X, r) = fold next_8 [16, 24, 32, 40, 48, 56] (first_16 (replicate 16 0) data (regs_of h))
      in add_regs h r)"

text \<open>The loop over the blocks, for a function on one block.\<close>

primrec block_data_order :: "(u32 list \<Rightarrow> byte list \<Rightarrow> u32 list) \<Rightarrow> u32 list \<Rightarrow> byte list \<Rightarrow> nat \<Rightarrow> u32 list" where
  "block_data_order block h data 0 = h"
| "block_data_order block h data (Suc num) = block_data_order block (block h (take 64 data)) (drop 64 data) num"

section \<open>The context\<close>

record sha256_ctx =
  sha_h :: "u32 list"
  Nl :: u32
  Nh :: u32
  sha_data :: "byte list"
  sha_num :: nat
  md_len :: nat

definition SHA224_Init :: sha256_ctx where
  "SHA224_Init = \<lparr>sha_h = [0xc1059ed8, 0x367cd507, 0x3070dd17, 0xf70e5939, 0xffc00b31, 0x68581511, 0x64f98fa7, 0xbefa4fa4],
     Nl = 0, Nh = 0, sha_data = replicate 64 0, sha_num = 0, md_len = 28\<rparr>"

definition SHA256_Init :: sha256_ctx where
  "SHA256_Init = \<lparr>sha_h = [0x6a09e667, 0xbb67ae85, 0x3c6ef372, 0xa54ff53a, 0x510e527f, 0x9b05688c, 0x1f83d9ab, 0x5be0cd19],
     Nl = 0, Nh = 0, sha_data = replicate 64 0, sha_num = 0, md_len = 32\<rparr>"

definition count_bits :: "sha256_ctx \<Rightarrow> nat \<Rightarrow> sha256_ctx" where
  "count_bits c len =
     (let l = (Nl c + push_bit 3 (of_nat len)) AND 0xffffffff;
          c = (if l < Nl c then c\<lparr>Nh := Nh c + 1\<rparr> else c);
          c = c\<lparr>Nh := Nh c + of_nat (drop_bit 29 len)\<rparr>
      in c\<lparr>Nl := l\<rparr>)"

text \<open>What \<open>HASH_UPDATE\<close> does with the data behind a block that it has filled.\<close>

definition whole_blocks :: "(u32 list \<Rightarrow> byte list \<Rightarrow> u32 list) \<Rightarrow> sha256_ctx \<Rightarrow> byte list \<Rightarrow> sha256_ctx" where
  "whole_blocks block c data =
     (let n = length data div 64;
          c = (if n > 0 then c\<lparr>sha_h := block_data_order block (sha_h c) data n\<rparr> else c);
          data = drop (64 * n) data
      in if length data \<noteq> 0 then c\<lparr>sha_num := length data, sha_data := data @ drop (length data) (sha_data c)\<rparr> else c)"

definition SHA256_Update :: "(u32 list \<Rightarrow> byte list \<Rightarrow> u32 list) \<Rightarrow> sha256_ctx \<Rightarrow> byte list \<Rightarrow> sha256_ctx" where
  "SHA256_Update block c data =
     (if length data = 0 then c
      else
        let c = count_bits c (length data); n = sha_num c; p = sha_data c; len = length data
        in if n \<noteq> 0
           then if len \<ge> 64 \<or> len + n \<ge> 64
                then
                  let p = take n p @ take (64 - n) data;
                      c = c\<lparr>sha_h := block_data_order block (sha_h c) p 1, sha_num := 0, sha_data := replicate 64 0\<rparr>
                  in whole_blocks block c (drop (64 - n) data)
                else c\<lparr>sha_data := take n p @ data @ drop (n + len) p, sha_num := sha_num c + len\<rparr>
           else whole_blocks block c data)"

definition SHA256_Transform :: "(u32 list \<Rightarrow> byte list \<Rightarrow> u32 list) \<Rightarrow> sha256_ctx \<Rightarrow> byte list \<Rightarrow> sha256_ctx" where
  "SHA256_Transform block c data = c\<lparr>sha_h := block_data_order block (sha_h c) data 1\<rparr>"

text \<open>\<open>None\<close> is the return without a digest, after the context has been used up.\<close>

definition make_string :: "sha256_ctx \<Rightarrow> byte list option" where
  "make_string c =
     (if md_len c = 28 then Some (concat (map (\<lambda>nn. HOST_l2c (sha_h c ! nn)) [0..<7]))
      else if md_len c = 32 then Some (concat (map (\<lambda>nn. HOST_l2c (sha_h c ! nn)) [0..<8]))
      else if md_len c > 32 then None
      else Some (concat (map (\<lambda>nn. HOST_l2c (sha_h c ! nn)) [0..<md_len c div 4])))"

definition SHA256_Final :: "(u32 list \<Rightarrow> byte list \<Rightarrow> u32 list) \<Rightarrow> sha256_ctx \<Rightarrow> byte list option \<times> sha256_ctx" where
  "SHA256_Final block c =
     (let p = sha_data c; n = sha_num c;
          p = p[n := 0x80];
          n = n + 1;
          (p, n, c) = (if n > 64 - 8
             then let p = take n p @ replicate (64 - n) 0 in (p, 0, c\<lparr>sha_h := block_data_order block (sha_h c) p 1\<rparr>)
             else (p, n, c));
          p = take n p @ replicate (64 - 8 - n) 0 @ HOST_l2c (Nh c) @ HOST_l2c (Nl c);
          c = c\<lparr>sha_h := block_data_order block (sha_h c) p 1, sha_num := 0, sha_data := replicate 64 0\<rparr>
      in (make_string c, c))"

definition SHA256 :: "(u32 list \<Rightarrow> byte list \<Rightarrow> u32 list) \<Rightarrow> byte list \<Rightarrow> byte list option" where
  "SHA256 block d = fst (SHA256_Final block (SHA256_Update block SHA256_Init d))"

definition SHA224 :: "(u32 list \<Rightarrow> byte list \<Rightarrow> u32 list) \<Rightarrow> byte list \<Rightarrow> byte list option" where
  "SHA224 block d = fst (SHA256_Final block (SHA256_Update block SHA224_Init d))"

section \<open>The standard\<close>

text \<open>FIPS 180-4 with right rotations, the whole message schedule and one round per step (sections 4.1.2, 5 and 6.2).\<close>

definition fips_Sigma0 :: "u32 \<Rightarrow> u32" where "fips_Sigma0 x = word_rotr 2 x XOR word_rotr 13 x XOR word_rotr 22 x"
definition fips_Sigma1 :: "u32 \<Rightarrow> u32" where "fips_Sigma1 x = word_rotr 6 x XOR word_rotr 11 x XOR word_rotr 25 x"
definition fips_sigma0 :: "u32 \<Rightarrow> u32" where "fips_sigma0 x = word_rotr 7 x XOR word_rotr 18 x XOR drop_bit 3 x"
definition fips_sigma1 :: "u32 \<Rightarrow> u32" where "fips_sigma1 x = word_rotr 17 x XOR word_rotr 19 x XOR drop_bit 10 x"

fun fips_W :: "byte list \<Rightarrow> nat \<Rightarrow> u32" where
  "fips_W M t =
     (if t < 16 then HOST_c2l (drop (4 * t) M)
      else fips_sigma1 (fips_W M (t - 2)) + fips_W M (t - 7) + fips_sigma0 (fips_W M (t - 15)) + fips_W M (t - 16))"

declare fips_W.simps [simp del]

definition fips_step :: "byte list \<Rightarrow> nat \<Rightarrow> regs \<Rightarrow> regs" where
  "fips_step M t r =
     (let (a, b, c, d, e, f, g, h) = r;
          T1 = h + fips_Sigma1 e + Ch e f g + K256 ! t + fips_W M t;
          T2 = fips_Sigma0 a + Maj a b c
      in (T1 + T2, a, b, c, d + T1, e, f, g))"

definition fips_block :: "u32 list \<Rightarrow> byte list \<Rightarrow> u32 list" where
  "fips_block H M = add_regs H (fold (fips_step M) [0..<64] (regs_of H))"

definition fips_pad :: "byte list \<Rightarrow> byte list" where
  "fips_pad M = M @ [0x80] @ replicate ((119 - length M mod 64) mod 64) 0
     @ map (\<lambda>i. of_nat (8 * length M div 256 ^ (7 - i))) [0..<8]"

definition fips_hash :: "u32 list \<Rightarrow> byte list \<Rightarrow> u32 list" where
  "fips_hash H M = foldl fips_block H (map (\<lambda>i. take 64 (drop (64 * i) (fips_pad M))) [0..<length (fips_pad M) div 64])"

section \<open>Both builds compute the block function of the standard\<close>

lemma ROTATE_rotr: "n < 32 \<Longrightarrow> ROTATE a n = word_rotr (32 - n) a"
proof (rule bit_word_eqI)
  fix k assume n: "n < 32" and k: "k < LENGTH(32)"
  have "(0xffffffff :: u32) = - 1" by simp
  then have a: "a AND 0xffffffff = a" by (simp only: and.right_neutral)
  have "(k + (32 - n)) mod 32 = (if n \<le> k then k - n else k + (32 - n))"
  proof (cases "n \<le> k")
    case True
    then have "k + (32 - n) = (k - n) + 32" using n by simp
    then have "(k + (32 - n)) mod 32 = (k - n) mod 32" by (simp only: mod_add_self2)
    then show ?thesis using True k by simp
  qed (use n k in simp)
  moreover have "\<not> bit a (32 - n + k)" if "n \<le> k" using that n by (intro notI) (auto dest!: bit_imp_le_length)
  ultimately show "bit (ROTATE a n) k = bit (word_rotr (32 - n) a) k"
    using n k unfolding ROTATE_def a by (auto simp: bit_simps ac_simps)
qed

lemma sigmas: "Sigma0 = fips_Sigma0" "Sigma1 = fips_Sigma1" "sigma0 = fips_sigma0" "sigma1 = fips_sigma1"
  by (simp_all add: fun_eq_iff Sigma0_def Sigma1_def sigma0_def sigma1_def fips_Sigma0_def fips_Sigma1_def fips_sigma0_def fips_sigma1_def ROTATE_rotr)

lemma small_round_step: "small_round t (fips_W M t) r = fips_step M t r"
  by (simp add: small_round_def fips_step_def sigmas Let_def case_prod_beta ac_simps)

lemma small_first_at: "small_first i (X, data, r) = (X[i := HOST_c2l data], drop 4 data, small_round i (HOST_c2l data) r)"
  by (simp add: small_first_def load_def Let_def)

lemma small_second_at: "mix X i = (X', T1) \<Longrightarrow> small_second i (X, r) = (X', small_round i T1 r)"
  by (simp add: small_second_def)

lemma small_first_loop:
  "i \<le> 16 \<Longrightarrow> \<exists>X. fold small_first [0..<i] (replicate 16 0, M, r) = (X, drop (4 * i) M, fold (fips_step M) [0..<i] r)
     \<and> length X = 16 \<and> (\<forall>j<i. X ! j = fips_W M j)"
proof (induction i)
  case (Suc i)
  then obtain X where X: "fold small_first [0..<i] (replicate 16 0, M, r) = (X, drop (4 * i) M, fold (fips_step M) [0..<i] r)"
      "length X = 16" "\<forall>j<i. X ! j = fips_W M j"
    by auto
  have w: "HOST_c2l (drop (4 * i) M) = fips_W M i" using Suc.prems by (simp add: fips_W.simps [of M i])
  show ?case
    using X Suc.prems
    by (intro exI [of _ "X[i := fips_W M i]"]) (auto simp: small_first_at w small_round_step less_Suc_eq)
qed simp

definition scheduled :: "byte list \<Rightarrow> nat \<Rightarrow> u32 list \<Rightarrow> bool" where
  "scheduled M t X \<longleftrightarrow> length X = 16 \<and> (\<forall>s. t \<le> s + 16 \<and> s < t \<longrightarrow> X ! (s mod 16) = fips_W M s)"

lemma mix_scheduled:
  assumes "scheduled M t X" "16 \<le> t"
  obtains X' where "mix X t = (X', fips_W M t)" "scheduled M (Suc t) X'"
proof
  have at: "X ! ((t + k) mod 16) = fips_W M (t + k - 16)" if "k < 16" for k
  proof -
    have "(t + k - 16) mod 16 = (t + k) mod 16" using assms(2) by (metis add.commute le_add_diff_inverse2 mod_add_self2 trans_le_add1)
    moreover have "t \<le> (t + k - 16) + 16 \<and> t + k - 16 < t" using assms(2) that by auto
    ultimately show ?thesis using assms(1) unfolding scheduled_def by metis
  qed
  have W: "fips_W M t = X ! (t mod 16) + (sigma0 (X ! ((t + 1) mod 16)) + sigma1 (X ! ((t + 14) mod 16)) + X ! ((t + 9) mod 16))"
    using at [of 0] at [of 1] at [of 14] at [of 9] assms(2) by (subst fips_W.simps) (simp add: sigmas ac_simps numeral_2_eq_2)
  show "mix X t = (X[t mod 16 := fips_W M t], fips_W M t)" by (simp add: mix_def Let_def W)
  show "scheduled M (Suc t) (X[t mod 16 := fips_W M t])"
    unfolding scheduled_def
  proof (intro conjI allI impI)
    show "length (X[t mod 16 := fips_W M t]) = 16" using assms(1) by (simp add: scheduled_def)
    fix s assume s: "Suc t \<le> s + 16 \<and> s < Suc t"
    show "X[t mod 16 := fips_W M t] ! (s mod 16) = fips_W M s"
    proof (cases "s = t")
      case False
      then have "s < t" "t < s + 16" using s by simp_all
      then have "s mod 16 \<noteq> t mod 16"
        by (metis (no_types, opaque_lifting) add_less_cancel_left le_add_diff_inverse less_imp_le_nat mod_less nat_mod_eq_iff not_less add_diff_cancel_left' mod_eq_dvd_iff_nat dvd_imp_le zero_less_diff)
      then show ?thesis using assms(1) \<open>s < t\<close> \<open>t < s + 16\<close> by (simp add: scheduled_def)
    qed (use assms(1) in \<open>simp add: scheduled_def\<close>)
  qed
qed

lemma small_second_loop:
  "16 \<le> t \<Longrightarrow> scheduled M 16 X \<Longrightarrow> \<exists>X'. fold small_second [16..<t] (X, r) = (X', fold (fips_step M) [16..<t] r) \<and> scheduled M t X'"
proof (induction t rule: nat_induct_at_least)
  case (Suc t)
  then obtain X' where X': "fold small_second [16..<t] (X, r) = (X', fold (fips_step M) [16..<t] r)" "scheduled M t X'" by auto
  obtain X'' where "mix X' t = (X'', fips_W M t)" "scheduled M (Suc t) X''" using mix_scheduled [OF X'(2) Suc.hyps] .
  then show ?case using X' Suc.hyps by (auto simp: small_second_at small_round_step)
qed simp

lemma small_block_fips: "small_block h M = fips_block h M"
proof -
  obtain X where X: "fold small_first [0..<16] (replicate 16 0, M, regs_of h) = (X, drop (4 * 16) M, fold (fips_step M) [0..<16] (regs_of h))"
      "length X = 16" "\<forall>j<16. X ! j = fips_W M j"
    using small_first_loop [OF le_refl] by blast
  have le: "(16 :: nat) \<le> 64" by simp
  have "scheduled M 16 X" using X(2,3) by (simp add: scheduled_def)
  then obtain X' where X': "fold small_second [16..<64] (X, fold (fips_step M) [0..<16] (regs_of h))
      = (X', fold (fips_step M) [16..<64] (fold (fips_step M) [0..<16] (regs_of h)))"
    using small_second_loop [OF le] by blast
  have "[0..<64] = [0..<16] @ [16..<64]" using upt_add_eq_append [of 0 16 48] by simp
  then show ?thesis using X(1) X' by (simp only: small_block_def fips_block_def fold_append Let_def prod.case o_apply)
qed

text \<open>One round of the loops, as the unrolled code has it.\<close>

lemma small_round_ROUND:
  "small_round i T1 (a, b, c, d, e, f, g, h) = (case ROUND_00_15 i T1 a b c d e f g h of (d, h) \<Rightarrow> (h, a, b, c, d, e, f, g))"
  by (simp add: small_round_def ROUND_00_15_def Let_def ac_simps)

lemma unroll_first:
  "(case fold small_first (i # js) (X, data, a, b, c, d, e, f, g, h) of (X, _, r) \<Rightarrow> (X, r))
     = (case load X i data of (X, T1, data) \<Rightarrow> case ROUND_00_15 i T1 a b c d e f g h of (d, h) \<Rightarrow>
          (case fold small_first js (X, data, h, a, b, c, d, e, f, g) of (X, _, r) \<Rightarrow> (X, r)))"
  by (simp add: small_first_def small_round_ROUND Let_def split: prod.split)

lemma unroll_second:
  "fold small_second (i # js) (X, a, b, c, d, e, f, g, h)
     = (case ROUND_16_63 i a b c d e f g h X of (X, d, h) \<Rightarrow> fold small_second js (X, h, a, b, c, d, e, f, g))"
  by (simp add: small_second_def small_round_ROUND ROUND_16_63_def Let_def split: prod.split)

lemma first_16_small: "first_16 X data r = (case fold small_first [0..<16] (X, data, r) of (X, _, r) \<Rightarrow> (X, r))"
proof -
  have ixs: "[0..<16] = [0, 1, 2, 3, 4, 5, 6, 7, 8, 9, 10, 11, 12, 13, 14, 15]" by (simp add: upt_rec)
  obtain a b c d e f g h where r: "r = (a, b, c, d, e, f, g, h)" by (cases r) (metis prod_cases7)
  show ?thesis unfolding first_16_def ixs r Let_def prod.case unroll_first by simp
qed

lemma next_8_small: "next_8 i s = fold small_second [i..<i + 8] s"
proof -
  have ixs: "[i..<i + 8] = [i + 0, i + 1, i + 2, i + 3, i + 4, i + 5, i + 6, i + 7]" by (simp add: upt_rec)
  obtain X a b c d e f g h where s: "s = (X, a, b, c, d, e, f, g, h)" by (cases s) (metis prod_cases7 surj_pair)
  show ?thesis unfolding next_8_def ixs s Let_def prod.case unroll_second by simp
qed

lemma unrolled_block_fips: "unrolled_block h M = fips_block h M"
proof -
  have "fold next_8 [16, 24, 32, 40, 48, 56] s = fold small_second [16..<64] s" for s
  proof -
    have next8: "next_8 = (\<lambda>i. fold small_second [i..<i + 8])" by (rule ext)+ (rule next_8_small)
    have "[16..<64] = [16..<16 + 8] @ [24..<24 + 8] @ [32..<32 + 8] @ [40..<40 + 8] @ [48..<48 + 8] @ [56..<56 + 8 :: nat]"
      by (simp add: upt_rec)
    then show ?thesis unfolding next8 by (simp only: fold_append fold_simps o_apply id_apply)
  qed
  then have "unrolled_block h M = small_block h M"
    by (simp only: unrolled_block_def small_block_def first_16_small Let_def case_prod_beta fst_conv snd_conv)
  then show ?thesis by (simp only: small_block_fips)
qed

section \<open>Messages in pieces\<close>

definition absorb :: "(u32 list \<Rightarrow> byte list \<Rightarrow> u32 list) \<Rightarrow> u32 list \<Rightarrow> byte list \<Rightarrow> u32 list" where
  "absorb block h m = block_data_order block h m (length m div 64)"

lemma bdo_prefix: "64 * n \<le> length x \<Longrightarrow> block_data_order block h (x @ y) n = block_data_order block h x n"
  by (induction n arbitrary: h x) simp_all

lemma bdo_add: "block_data_order block h m (i + j) = block_data_order block (block_data_order block h m i) (drop (64 * i) m) j"
  by (induction i arbitrary: h m) (simp_all add: ac_simps)

lemma absorb_append:
  assumes "64 dvd length x"
  shows "absorb block h (x @ y) = absorb block (absorb block h x) y"
proof -
  obtain n where n: "length x = 64 * n" using assms by blast
  then have "length (x @ y) div 64 = n + length y div 64" by simp
  then show ?thesis using n by (simp add: absorb_def bdo_add bdo_prefix)
qed

lemma absorb_short: "length y < 64 \<Longrightarrow> absorb block h y = h"
  by (simp add: absorb_def)

lemma absorb_one: "length y = 64 \<Longrightarrow> block_data_order block h y 1 = absorb block h y" "length y = 64 \<Longrightarrow> block_data_order block h y 1 = block h y"
  by (simp_all add: absorb_def)

lemma absorb_foldl:
  "absorb block h m = foldl block h (map (\<lambda>i. take 64 (drop (64 * i) m)) [0..<length m div 64])"
proof -
  have "block_data_order block h m n = foldl block h (map (\<lambda>i. take 64 (drop (64 * i) m)) [0..<n])" for n
  proof (induction n arbitrary: h m)
    case (Suc n)
    have "[0..<Suc n] = 0 # map Suc [0..<n]" by (simp add: map_Suc_upt upt_conv_Cons del: upt_Suc)
    then show ?case by (simp add: Suc o_def ac_simps del: upt_Suc)
  qed simp
  then show ?thesis by (simp add: absorb_def)
qed

text \<open>What the context holds after the message \<open>m\<close>: the blocks that are full, the rest, and the number of bits.\<close>

definition absorbed :: "(u32 list \<Rightarrow> byte list \<Rightarrow> u32 list) \<Rightarrow> u32 list \<Rightarrow> byte list \<Rightarrow> sha256_ctx \<Rightarrow> bool" where
  "absorbed block iv m c \<longleftrightarrow> (\<exists>full p. m = full @ p \<and> 64 dvd length full \<and> length p < 64 \<and> sha_h c = absorb block iv full
     \<and> sha_num c = length p \<and> take (length p) (sha_data c) = p \<and> length (sha_data c) = 64
     \<and> Nl c = of_nat (8 * length m) \<and> Nh c = of_nat (8 * length m div 2 ^ 32))"

lemma whole_blocks_absorbed:
  assumes "sha_h c = absorb block iv full" "64 dvd length full" "sha_num c = 0" "length (sha_data c) = 64"
    and "Nl c = of_nat (8 * length (full @ d))" "Nh c = of_nat (8 * length (full @ d) div 2 ^ 32)"
  shows "absorbed block iv (full @ d) (whole_blocks block c d)"
proof -
  define n where "n = length d div 64"
  let ?b = "take (64 * n) d" and ?r = "drop (64 * n) d"
  have n: "64 * n \<le> length d" "length d - 64 * n < 64" unfolding n_def by presburger+
  have lb: "length ?b = 64 * n" using n(1) by simp
  have "absorb block iv (full @ ?b) = absorb block (sha_h c) ?b" by (simp only: absorb_append [OF assms(2)] assms(1))
  also have "\<dots> = block_data_order block (sha_h c) ?b n" unfolding absorb_def lb by simp
  also have "\<dots> = block_data_order block (sha_h c) (?b @ ?r) n" by (rule bdo_prefix [symmetric]) (simp only: lb order_refl)
  finally have h: "absorb block iv (full @ ?b) = block_data_order block (sha_h c) d n" by (simp only: append_take_drop_id)
  have full: "64 dvd length (full @ ?b)" unfolding length_append lb using assms(2) by simp
  define c' where "c' = c\<lparr>sha_h := absorb block iv (full @ ?b)\<rparr>"
  have "(if n > 0 then c\<lparr>sha_h := block_data_order block (sha_h c) d n\<rparr> else c) = c'"
    using h by (cases "n > 0") (simp_all add: c'_def)
  then have w: "whole_blocks block c d
      = (if length ?r \<noteq> 0 then c'\<lparr>sha_num := length ?r, sha_data := ?r @ drop (length ?r) (sha_data c')\<rparr> else c')"
    by (simp only: whole_blocks_def n_def Let_def)
  define r where "r = ?r"
  have r: "length r < 64" "full @ d = (full @ ?b) @ r" using n(2) by (simp_all add: r_def)
  have c': "sha_num c' = 0" "sha_data c' = sha_data c" using assms(3) by (simp_all add: c'_def)
  have "whole_blocks block c d = c'\<lparr>sha_num := length r, sha_data := r @ drop (length r) (sha_data c)\<rparr>"
  proof (cases "r = []")
    case True
    then have "whole_blocks block c d = c'" using w by (simp only: r_def [symmetric]) simp
    then show ?thesis using True c' by (cases c') simp
  next
    case False
    then show ?thesis using w c'(2) by (simp only: r_def [symmetric]) simp
  qed
  then have fin: "sha_h (whole_blocks block c d) = absorb block iv (full @ ?b)" "sha_num (whole_blocks block c d) = length r"
      "sha_data (whole_blocks block c d) = r @ drop (length r) (sha_data c)"
      "Nl (whole_blocks block c d) = Nl c" "Nh (whole_blocks block c d) = Nh c"
    by (simp_all add: c'_def)
  show ?thesis
    unfolding absorbed_def fin
  proof (intro exI conjI)
    show "full @ d = (full @ ?b) @ r" by (rule r(2))
    show "64 dvd length (full @ ?b)" by (rule full)
    show "length (r @ drop (length r) (sha_data c)) = 64" using r(1) assms(4) by simp
  qed (use r(1) assms(5,6) in simp_all)
qed

text \<open>The count of the bits, modulo \<open>2 ^ 64\<close> over two words.\<close>

lemma carry_div: "(a + b) div M = a div M + b div M + (if (a mod M + b mod M) mod M < a mod M then 1 else 0)" if "0 < M" for a b M :: nat
proof -
  have ab: "a mod M < M" "b mod M < M" using that by simp_all
  have "(a + b) div M = a div M + b div M + (a mod M + b mod M) div M" by (rule div_add1_eq)
  moreover have "(a mod M + b mod M) div M = (if (a mod M + b mod M) mod M < a mod M then 1 else 0)"
  proof (cases "a mod M + b mod M < M")
    case False
    define r where "r = a mod M + b mod M - M"
    have r: "a mod M + b mod M = r + M" "r < M" "r < a mod M" unfolding r_def using False ab by linarith+
    have "(r + M) mod M = r" "(r + M) div M = 1" using r(2) that by (simp_all add: div_add_self2)
    then show ?thesis using r by simp
  qed simp
  ultimately show ?thesis by simp
qed

lemma count_bits_eq:
  assumes "Nl c = of_nat (8 * L)" "Nh c = of_nat (8 * L div 2 ^ 32)"
  shows "count_bits c len = c\<lparr>Nl := of_nat (8 * (L + len)), Nh := of_nat (8 * (L + len) div 2 ^ 32)\<rparr>"
proof -
  have "(0xffffffff :: u32) = - 1" by simp
  then have mask: "x AND 0xffffffff = x" for x :: u32 by (simp only: and.right_neutral)
  have l: "(Nl c + push_bit 3 (of_nat len)) AND 0xffffffff = of_nat (8 * (L + len))"
    unfolding mask assms(1) by (simp add: push_bit_eq_mult algebra_simps)
  have u: "unat (of_nat x :: u32) = x mod 2 ^ 32" for x by (simp add: unat_of_nat take_bit_eq_mod)
  have "drop_bit 29 len = 8 * len div 2 ^ 32" by (simp add: drop_bit_eq_div)
  moreover have "8 * (L + len) div 2 ^ 32 = 8 * L div 2 ^ 32 + 8 * len div 2 ^ 32
      + (if (of_nat (8 * (L + len)) :: u32) < of_nat (8 * L) then 1 else 0)"
    using carry_div [of "2 ^ 32" "8 * L" "8 * len"] by (simp only: word_less_nat_alt u distrib_left mod_add_eq) simp
  ultimately have Nh: "Nh c + (if (of_nat (8 * (L + len)) :: u32) < Nl c then 1 else 0) + of_nat (drop_bit 29 len) = of_nat (8 * (L + len) div 2 ^ 32)"
    unfolding assms by (simp only: of_nat_add) simp
  have "count_bits c len = c\<lparr>Nh := Nh c + (if (of_nat (8 * (L + len)) :: u32) < Nl c then 1 else 0) + of_nat (drop_bit 29 len),
      Nl := of_nat (8 * (L + len))\<rparr>"
    unfolding count_bits_def l Let_def by (cases "(of_nat (8 * (L + len)) :: u32) < Nl c") simp_all
  then show ?thesis unfolding Nh by simp
qed

lemma update_absorbed:
  assumes "absorbed block iv m c"
  shows "absorbed block iv (m @ d) (SHA256_Update block c d)"
proof (cases "d = []")
  case True
  then show ?thesis using assms by (simp add: SHA256_Update_def)
next
  case False
  obtain full p where fp: "m = full @ p" "64 dvd length full" "length p < 64" "sha_h c = absorb block iv full"
      "sha_num c = length p" "take (length p) (sha_data c) = p" "length (sha_data c) = 64"
      "Nl c = of_nat (8 * length m)" "Nh c = of_nat (8 * length m div 2 ^ 32)"
    using assms unfolding absorbed_def by blast
  define c1 where "c1 = count_bits c (length d)"
  have c1: "c1 = c\<lparr>Nl := of_nat (8 * length (m @ d)), Nh := of_nat (8 * length (m @ d) div 2 ^ 32)\<rparr>"
    using count_bits_eq [OF fp(8,9)] by (simp add: c1_def)
  consider "p = []" | "p \<noteq> []" "length d + length p < 64" | "p \<noteq> []" "64 \<le> length d + length p" by linarith
  then show ?thesis
  proof cases
    case 1
    then have "SHA256_Update block c d = whole_blocks block c1 d"
      using False fp(5) by (simp add: SHA256_Update_def Let_def c1_def [symmetric], simp add: c1)
    then show ?thesis using whole_blocks_absorbed [of c1 block iv full d] fp 1 by (simp add: c1)
  next
    case 2
    then have "SHA256_Update block c d = c1\<lparr>sha_data := p @ d @ drop (length p + length d) (sha_data c), sha_num := length p + length d\<rparr>"
      using False fp(5,6) by (simp add: SHA256_Update_def Let_def c1_def [symmetric], simp add: c1)
    then show ?thesis
      unfolding absorbed_def using fp 2 by (intro exI [of _ full] exI [of _ "p @ d"]) (simp add: c1)
  next
    case 3
    let ?b = "p @ take (64 - length p) d" and ?r = "drop (64 - length p) d"
    let ?c = "c1\<lparr>sha_h := absorb block (absorb block iv full) ?b, sha_num := 0, sha_data := replicate 64 0\<rparr>"
    have b: "length ?b = 64" using 3 fp(3) by simp
    have "SHA256_Update block c d = whole_blocks block ?c ?r"
      using False 3 fp(4,5,6) absorb_one [OF b]
      by (simp add: SHA256_Update_def Let_def c1_def [symmetric] del: take_append block_data_order.simps, simp add: c1 del: take_append block_data_order.simps)
    moreover have "m @ d = (full @ ?b) @ ?r" using fp(1) by simp
    moreover have "absorb block (absorb block iv full) ?b = absorb block iv (full @ ?b)" by (simp only: absorb_append [OF fp(2)])
    moreover have "64 dvd length (full @ ?b)" using fp(2) b by simp
    ultimately show ?thesis
      using whole_blocks_absorbed [of ?c block iv "full @ ?b" ?r] by (simp add: c1 del: append_assoc)
  qed
qed

lemma updates_absorbed:
  "absorbed block iv m c \<Longrightarrow> absorbed block iv (m @ concat ds) (fold (\<lambda>d c. SHA256_Update block c d) ds c)"
  by (induction ds arbitrary: m c) (simp_all add: update_absorbed flip: append_assoc)

section \<open>The digest\<close>

lemma byte_of_nat: "k + 8 \<le> 32 \<Longrightarrow> (ucast (drop_bit k (of_nat x :: u32) AND 0xff) :: byte) = of_nat (x div 2 ^ k)"
proof (rule bit_word_eqI)
  fix i assume k: "k + 8 \<le> 32" and i: "i < LENGTH(8)"
  have "(0xff :: u32) = mask 8" by (simp add: mask_eq_exp_minus_1)
  then have mask: "y AND 0xff = take_bit 8 y" for y :: u32 by (simp only: take_bit_eq_mask)
  show "bit (ucast (drop_bit k (of_nat x :: u32) AND 0xff) :: byte) i = bit (of_nat (x div 2 ^ k) :: byte) i"
    unfolding mask using k i by (simp add: bit_simps drop_bit_eq_div [symmetric] ac_simps)
qed

lemma length_bytes:
  "HOST_l2c (of_nat (x div 2 ^ 32)) @ HOST_l2c (of_nat x) = map (\<lambda>i. of_nat (x div 256 ^ (7 - i))) [0..<8]"
proof -
  have top: "HOST_l2c (of_nat y) = [of_nat (y div 2 ^ 24), of_nat (y div 2 ^ 16), of_nat (y div 2 ^ 8), of_nat y]" for y
    using byte_of_nat [of 24 y] byte_of_nat [of 16 y] byte_of_nat [of 8 y] byte_of_nat [of 0 y] by (simp add: HOST_l2c_def)
  have ixs: "[0..<8] = [0, 1, 2, 3, 4, 5, 6, 7 :: nat]" by (simp add: upt_rec)
  show ?thesis unfolding top ixs by (simp add: div_mult2_eq [symmetric])
qed

lemma final_absorbed:
  assumes "absorbed block iv m c"
  shows "\<exists>c'. SHA256_Final block c = (make_string c', c') \<and> sha_h c' = absorb block iv (fips_pad m) \<and> md_len c' = md_len c"
proof -
  obtain full p where fp: "m = full @ p" "64 dvd length full" "length p < 64" "sha_h c = absorb block iv full"
      "sha_num c = length p" "take (length p) (sha_data c) = p" "length (sha_data c) = 64"
      "Nl c = of_nat (8 * length m)" "Nh c = of_nat (8 * length m div 2 ^ 32)"
    using assms unfolding absorbed_def by blast
  let ?len = "map (\<lambda>i. of_nat (8 * length m div 256 ^ (7 - i))) [0..<8]"
  have mod: "length m mod 64 = length p" using fp(1-3) by (auto simp: mod_add_left_eq [symmetric])
  have len: "HOST_l2c (Nh c) @ HOST_l2c (Nl c) = ?len" unfolding fp(8,9) by (rule length_bytes)
  have mark: "take (length p + 1) ((sha_data c)[length p := 0x80]) = p @ [0x80]"
    using fp(3,6,7) by (simp add: take_Suc_conv_app_nth take_update_swap)
  show ?thesis
  proof (cases "length p + 1 > 56")
    case True
    let ?b = "p @ [0x80] @ replicate (64 - (length p + 1)) 0" and ?e = "replicate 56 0 @ ?len"
    have b: "length ?b = 64" "length ?e = 64" using fp(3) by simp_all
    have pad: "fips_pad m = full @ ?b @ ?e"
    proof -
      have zeros: "(119 - length p) mod 64 = (64 - (length p + 1)) + 56" using True fp(3) by simp
      show ?thesis unfolding fips_pad_def mod zeros replicate_add by (simp add: fp(1))
    qed
    let ?c = "c\<lparr>sha_h := block (block (sha_h c) ?b) ?e, sha_num := 0, sha_data := replicate 64 0\<rparr>"
    have tb: "take (length p + 1) ((sha_data c)[length p := 0x80]) @ replicate (64 - (length p + 1)) 0 = ?b" unfolding mark by simp
    have final: "SHA256_Final block c = (make_string ?c, ?c)"
      using True fp(5) absorb_one(2) [OF b(1)] absorb_one(2) [OF b(2)] tb
      by (simp add: SHA256_Final_def Let_def len del: block_data_order.simps)
    have "block (block (sha_h c) ?b) ?e = absorb block iv (full @ ?b @ ?e)"
      using absorb_append [OF fp(2), of block iv "?b @ ?e"] absorb_append [of ?b block _ ?e] absorb_one [OF b(1)] absorb_one [OF b(2)] fp(4) b(1)
      by (metis dvd_refl)
    then show ?thesis using final pad by simp
  next
    case False
    let ?b = "p @ [0x80] @ replicate (55 - length p) 0 @ ?len"
    have b: "length ?b = 64" using False fp(3) by simp
    have pad: "fips_pad m = full @ ?b"
    proof -
      have "119 - length p = (55 - length p) + 64" using False by simp
      then have "(119 - length p) mod 64 = 55 - length p" by (simp only: mod_add_self2) simp
      then show ?thesis unfolding fips_pad_def mod by (simp add: fp(1))
    qed
    let ?c = "c\<lparr>sha_h := block (sha_h c) ?b, sha_num := 0, sha_data := replicate 64 0\<rparr>"
    have tb: "take (length p + 1) ((sha_data c)[length p := 0x80]) @ replicate (56 - (length p + 1)) 0 @ HOST_l2c (Nh c) @ HOST_l2c (Nl c) = ?b"
      unfolding mark len by simp
    have final: "SHA256_Final block c = (make_string ?c, ?c)"
      using False fp(5) absorb_one(2) [OF b] tb
      by (simp add: SHA256_Final_def Let_def del: block_data_order.simps append_assoc)
    have "block (sha_h c) ?b = absorb block iv (full @ ?b)"
      using absorb_append [OF fp(2), of block iv ?b] absorb_one [OF b] fp(4) by metis
    then show ?thesis using final pad by simp
  qed
qed

lemma md_len_kept [simp]: "md_len (count_bits c len) = md_len c" "md_len (whole_blocks block c d) = md_len c"
  by (simp_all add: count_bits_def whole_blocks_def Let_def)

lemma digest_string: "md_len c = 28 \<or> md_len c = 32 \<Longrightarrow> make_string c = Some (concat (map (\<lambda>nn. HOST_l2c (sha_h c ! nn)) [0..<md_len c div 4]))"
  by (auto simp: make_string_def)

lemma updates_final:
  assumes "\<And>h d. block h d = fips_block h d" "Nl c = 0" "Nh c = 0" "sha_num c = 0" "length (sha_data c) = 64" "md_len c = 28 \<or> md_len c = 32"
  shows "fst (SHA256_Final block (fold (\<lambda>d c. SHA256_Update block c d) ds c))
    = Some (concat (map (\<lambda>nn. HOST_l2c (fips_hash (sha_h c) (concat ds) ! nn)) [0..<md_len c div 4]))"
proof -
  have block: "block = fips_block" using assms(1) by blast
  have keeps: "md_len (SHA256_Update b c d) = md_len c" for b c d
    by (simp add: SHA256_Update_def Let_def)
  have md: "md_len (fold (\<lambda>d c. SHA256_Update block c d) ds c) = md_len c" by (induction ds arbitrary: c) (simp_all add: keeps)
  have "absorbed block (sha_h c) [] c"
    unfolding absorbed_def using assms(2-5) by (intro exI [of _ "[]"]) (simp add: absorb_short)
  then have "absorbed block (sha_h c) (concat ds) (fold (\<lambda>d c. SHA256_Update block c d) ds c)" using updates_absorbed by fastforce
  from final_absorbed [OF this] obtain c' where
    "SHA256_Final block (fold (\<lambda>d c. SHA256_Update block c d) ds c) = (make_string c', c')"
    "sha_h c' = absorb block (sha_h c) (fips_pad (concat ds))" "md_len c' = md_len c"
    unfolding md by blast
  then show ?thesis using digest_string [of c'] assms(6) by (simp add: absorb_foldl fips_hash_def block)
qed


end
